(* ===== verification/Prelude.thy ===== *)
theory Prelude
  imports Main "HOL-Library.Word"
begin

text \<open>
  Shared vocabulary of the feed-handler development: the machine types of the C++ code, the
  little-endian byte layout of the packed structs of \<open>protocol.hpp\<close>, power-of-two masking, and
  the generic list and map lemmas the components use. Every integer keeps its C++ width; signed
  \<open>int32_t\<close> values are \<open>32 word\<close> read with \<^const>\<open>sint\<close> and compared with \<open><s\<close>.
\<close>

unbundle bit_operations_syntax

section \<open>Machine types\<close>

type_synonym byte = "8 word"      \<comment> \<open>\<open>char\<close> and \<open>uint8_t\<close>\<close>
type_synonym u16 = "16 word"
type_synonym u32 = "32 word"
type_synonym i32 = "32 word"      \<comment> \<open>\<open>int32_t\<close>, two's complement\<close>
type_synonym u64 = "64 word"      \<comment> \<open>\<open>uint64_t\<close> and the 64-bit \<open>size_t\<close>\<close>

named_theorems layout_simps \<open>field offsets and sizes of the packed structs\<close>
named_theorems frame_simps \<open>state components an operation leaves alone\<close>
named_theorems inv_intros \<open>invariant preservation, one rule per operation\<close>

section \<open>Little-endian byte layout\<close>

fun le_dec :: "byte list \<Rightarrow> int" where
  "le_dec [] = 0"
| "le_dec (b # bs) = uint b + 256 * le_dec bs"

fun le_enc :: "nat \<Rightarrow> int \<Rightarrow> byte list" where
  "le_enc 0 v = []"
| "le_enc (Suc n) v = of_int v # le_enc n (v div 256)"

lemma length_le_enc [simp]: "length (le_enc n v) = n"
  by (induction n arbitrary: v) auto

lemma uint_of_int_byte: "uint (of_int v :: byte) = v mod 256"
  by (simp add: uint_word_of_int)

lemma le_dec_enc: "le_dec (le_enc n v) = v mod 256 ^ n"
proof (induction n arbitrary: v)
  case (Suc n)
  have "le_dec (le_enc (Suc n) v) = v mod 256 + 256 * (v div 256 mod 256 ^ n)"
    by (simp add: Suc uint_of_int_byte)
  also have "\<dots> = v mod (256 * 256 ^ n)"
    by (simp add: zmod_zmult2_eq)
  finally show ?case by simp
qed simp

lemma le_dec_range: "0 \<le> le_dec bs \<and> le_dec bs < 256 ^ length bs"
proof (induction bs)
  case (Cons b bs)
  have "uint b < 256" using uint_lt2p [of b] by simp
  moreover have "0 \<le> uint b" by simp
  ultimately show ?case using Cons by simp
qed simp

lemma le_enc_dec: "length bs = n \<Longrightarrow> le_enc n (le_dec bs) = bs"
proof (induction bs arbitrary: n)
  case (Cons b bs)
  have b: "0 \<le> uint b" "uint b < 256" using uint_lt2p [of b] by simp_all
  have "(uint b + 256 * le_dec bs) div 256 = le_dec bs"
    using b by simp
  moreover have "(of_int (uint b + 256 * le_dec bs) :: byte) = b"
  proof (rule word_uint_eqI)
    have "uint (of_int (uint b + 256 * le_dec bs) :: byte) = (uint b + 256 * le_dec bs) mod 256"
      by (rule uint_of_int_byte)
    also have "\<dots> = uint b" using b by simp
    finally show "uint (of_int (uint b + 256 * le_dec bs) :: byte) = uint b" .
  qed
  ultimately show ?case using Cons by (cases n) auto
qed simp

text \<open>Reading a \<open>w\<close>-bit field at a byte offset, as an access to a packed struct does.\<close>

definition field_at :: "nat \<Rightarrow> nat \<Rightarrow> byte list \<Rightarrow> 'a::len word" where
  "field_at off n m = of_int (le_dec (take n (drop off m)))"

definition field_bytes :: "nat \<Rightarrow> 'a::len word \<Rightarrow> byte list" where
  "field_bytes n w = le_enc n (uint w)"

lemma length_field_bytes [simp, layout_simps]: "length (field_bytes n w) = n"
  by (simp add: field_bytes_def)

lemma field_at_skip [layout_simps]:
  "length xs \<le> off \<Longrightarrow> field_at off n (xs @ ys) = field_at (off - length xs) n ys"
  by (simp add: field_at_def)

lemma field_at_Cons [layout_simps]:
  "0 < off \<Longrightarrow> field_at off n (x # ys) = field_at (off - 1) n ys"
  by (cases off) (simp_all add: field_at_def)

lemma field_at_here:
  assumes "8 * n = LENGTH('a)"
  shows "field_at 0 n (field_bytes n (w :: 'a::len word) @ ys) = w"
proof -
  have "le_dec (field_bytes n w) = uint w mod 256 ^ n"
    by (simp add: field_bytes_def le_dec_enc)
  also have "(256 :: int) ^ n = 2 ^ LENGTH('a)"
    by (simp flip: assms add: power_mult)
  finally show ?thesis
    by (simp add: field_at_def)
qed

section \<open>Power-of-two capacities and masking\<close>

text \<open>The \<open>static_assert((Capacity & (Capacity - 1)) == 0)\<close> of the ring buffer and the table, with
  the bound that makes an array of that many elements addressable.\<close>

definition cap_ok :: "nat \<Rightarrow> bool" where
  "cap_ok n \<longleftrightarrow> n AND (n - 1) = 0 \<and> 0 < n \<and> n < 2 ^ 63"

lemma and_div2: "((a::nat) AND b) div 2 = a div 2 AND b div 2"
proof -
  have "(a AND b) div 2 = drop_bit 1 (a AND b)" by (simp add: drop_bit_eq_div)
  also have "\<dots> = drop_bit 1 a AND drop_bit 1 b" by (rule drop_bit_and)
  also have "\<dots> = a div 2 AND b div 2" by (simp add: drop_bit_eq_div)
  finally show ?thesis .
qed

lemma pow2_of_and: "0 < (n::nat) \<Longrightarrow> n AND (n - 1) = 0 \<Longrightarrow> \<exists>k. n = 2 ^ k"
proof (induction n rule: less_induct)
  case (less n)
  show ?case
  proof (cases "even n")
    case True
    then obtain m where m: "n = 2 * m" by (elim evenE)
    with less.prems have "0 < m" by simp
    have "n div 2 AND (n - 1) div 2 = 0"
      using less.prems by (simp flip: and_div2)
    moreover have "(n - 1) div 2 = m - 1" "n div 2 = m" using m by auto
    ultimately have "m AND (m - 1) = 0" by metis
    with less.IH [of m] \<open>0 < m\<close> m obtain k where "m = 2 ^ k" by auto
    then have "n = 2 ^ Suc k" using m by simp
    then show ?thesis by blast
  next
    case False
    have "n div 2 AND (n - 1) div 2 = 0"
      using less.prems by (simp flip: and_div2)
    moreover have "(n - 1) div 2 = n div 2" using False by presburger
    ultimately have "n div 2 = 0" by simp
    with False have "n = 1" by presburger
    then have "n = 2 ^ 0" by simp
    then show ?thesis by blast
  qed
qed

lemma cap_okE:
  assumes "cap_ok n"
  obtains k where "n = 2 ^ k" and "k < 63"
proof -
  from assms obtain k where k: "n = 2 ^ k"
    using pow2_of_and by (auto simp: cap_ok_def)
  moreover have "k < 63"
    using assms k power_less_imp_less_exp [of "2::nat" k 63] by (simp add: cap_ok_def)
  ultimately show ?thesis by (rule that)
qed

lemma cap_ok_pos [simp]: "cap_ok n \<Longrightarrow> 0 < n"
  by (simp add: cap_ok_def)

lemma and_cap: "cap_ok n \<Longrightarrow> a AND (n - 1) = a mod n"
  by (elim cap_okE) (simp only: mask_eq_exp_minus_1 [symmetric] take_bit_eq_mask [symmetric]
      take_bit_eq_mod)

text \<open>The same masking on 64-bit words.\<close>

lemma word_and_cap:
  assumes "cap_ok n"
  shows "unat (w AND of_nat (n - 1) :: u64) = unat w mod n"
proof -
  from assms obtain k where k: "n = 2 ^ k" "k < 63" by (rule cap_okE)
  have "(of_nat (n - 1) :: u64) = mask k"
    using k by (simp add: of_nat_diff mask_eq_exp_minus_1)
  then have "unat (w AND of_nat (n - 1)) = take_bit k (unat w)"
    by (simp only: take_bit_eq_mask [symmetric] unsigned_take_bit_eq)
  then show ?thesis
    using k by (simp only: take_bit_eq_mod)
qed

section \<open>Lists\<close>

lemma length_filter_update:
  assumes "j < length xs"
  shows "length (filter P (xs[j := x])) + (if P (xs ! j) then 1 else 0)
       = length (filter P xs) + (if P x then 1 else 0)"
  using assms
proof (induction xs arbitrary: j)
  case (Cons y ys)
  then show ?case by (cases j) auto
qed simp

lemma filter_length_full:
  "length (filter P xs) = length xs \<longleftrightarrow> (\<forall>i < length xs. P (xs ! i))"
  by (metis filter_id_conv all_set_conv_all_nth length_filter_less nat_less_le)

section \<open>Small naturals as 64-bit words\<close>

lemma unat_u64: "n < 2 ^ 64 \<Longrightarrow> unat (of_nat n :: u64) = n"
  by (simp add: unat_of_nat)

lemma unat_u64_less: "unat (w :: u64) < 2 ^ 64"
  using unsigned_less [of w] by (simp del: unsigned_less)

lemma u64_eq_iff: "m < 2 ^ 64 \<Longrightarrow> n < 2 ^ 64 \<Longrightarrow> (of_nat m :: u64) = of_nat n \<longleftrightarrow> m = n"
  by (metis unat_u64)

lemma u64_pos: "0 < n \<Longrightarrow> n < 2 ^ 64 \<Longrightarrow> (0 :: u64) < of_nat n"
  by (simp add: word_less_nat_alt unat_u64)

lemma cap_ok_u64 [simp]: "cap_ok n \<Longrightarrow> n < 2 ^ 64"
  by (simp add: cap_ok_def)

section \<open>Signed comparison\<close>

lemma sless_iff: "(a :: i32) <s b \<longleftrightarrow> sint a < sint b"
  by (rule word_sless_alt)

lemma sle_iff: "(a :: i32) <=s b \<longleftrightarrow> sint a \<le> sint b"
  by (rule word_sle_eq)

lemma sint_inj: "sint (a :: i32) = sint b \<longleftrightarrow> a = b"
  by (auto intro: signed_word_eqI)

lemma not_sle_iff: "\<not> (a :: i32) <=s b \<longleftrightarrow> b <s a"
  by (auto simp: sless_iff sle_iff)

lemma sle_less_iff: "(a :: i32) <=s b \<longleftrightarrow> a = b \<or> a <s b"
  by (auto simp: sless_iff sle_iff order_le_less simp flip: sint_inj)

text \<open>Sums and differences that stay in range are exact.\<close>

lemma sint_i32_range: "- (2 ^ 31) \<le> sint (a :: i32) \<and> sint a < 2 ^ 31"
  using sint_greater_eq [of a] sint_less [of a] by simp

lemma sint_of_int_i32: "- (2 ^ 31) \<le> n \<Longrightarrow> n < 2 ^ 31 \<Longrightarrow> sint (of_int n :: i32) = n"
  by (simp add: signed_of_int signed_take_bit_int_eq_self)

lemma sint_add_exact:
  assumes "- (2 ^ 31) \<le> sint (a :: i32) + sint b" and "sint a + sint b < 2 ^ 31"
  shows "sint (a + b) = sint a + sint b"
proof -
  have "a + b = of_int (sint a + sint b)" by simp
  then show ?thesis using assms sint_of_int_i32 by metis
qed

lemma sint_diff_exact:
  assumes "- (2 ^ 31) \<le> sint (a :: i32) - sint b" and "sint a - sint b < 2 ^ 31"
  shows "sint (a - b) = sint a - sint b"
proof -
  have "a - b = of_int (sint a - sint b)" by simp
  then show ?thesis using assms sint_of_int_i32 by metis
qed

lemma sint_neg_exact: "0 \<le> sint (a :: i32) \<Longrightarrow> sint (- a) = - sint a"
  using sint_diff_exact [of 0 a] sint_i32_range [of a] by simp

section \<open>Sums over finite maps\<close>

definition map_sum :: "('v option \<Rightarrow> int) \<Rightarrow> ('k \<Rightarrow> 'v option) \<Rightarrow> int" where
  "map_sum f M = (\<Sum>k \<in> dom M. f (M k))"

lemma map_sum_upd:
  assumes fin: "finite (dom M)" and f: "f None = 0"
  shows "map_sum f (M(k := v)) = map_sum f M - f (M k) + f v"
proof -
  let ?A = "insert k (dom M)"
  have A: "map_sum f N = (\<Sum>j \<in> ?A. f (N j))" if N: "dom N \<subseteq> ?A" for N
  proof -
    have "f (N j) = 0" if "j \<notin> dom N" for j using that f by (simp add: domIff)
    then show ?thesis
      unfolding map_sum_def using N fin by (intro sum.mono_neutral_left) auto
  qed
  have "map_sum f (M(k := v)) = (\<Sum>j \<in> ?A. f ((M(k := v)) j))"
    by (rule A) auto
  also have "\<dots> = f v + (\<Sum>j \<in> ?A - {k}. f (M j))"
    using fin by (subst sum.remove [of _ k]) (auto intro: sum.cong)
  also have "(\<Sum>j \<in> ?A - {k}. f (M j)) = map_sum f M - f (M k)"
    using fin A [OF subset_insertI] by (simp add: sum.remove [of ?A k])
  finally show ?thesis by linarith
qed

lemma map_sum_mono:
  assumes "\<And>k. k \<in> dom M \<Longrightarrow> f (M k) \<le> g (M k)"
  shows "map_sum f M \<le> map_sum g M"
  unfolding map_sum_def by (rule sum_mono) (rule assms)

lemma map_sum_ge:
  assumes "finite (dom M)" and "\<And>k. k \<in> dom M \<Longrightarrow> 0 \<le> f (M k)" and "k \<in> dom M"
  shows "f (M k) \<le> map_sum f M"
  unfolding map_sum_def by (rule member_le_sum) (use assms in auto)

end
