(* ===== verification/Protocol.thy ===== *)
theory Protocol
  imports Prelude
begin

text \<open>
  The binary wire protocol, \<open>include/feed_handler/protocol.hpp\<close>: the three packed message
  structs, the \<open>WireMessage\<close> union (34 raw bytes, read through any of its members), the expected
  size per type and the payload validity test. Multi-byte fields are little-endian, the layout of
  the x86-64 and AArch64 targets of the build files.
\<close>

section \<open>Message type and side codes\<close>

abbreviation chA :: byte where "chA \<equiv> 65"   \<comment> \<open>\<open>'A'\<close>\<close>
abbreviation chX :: byte where "chX \<equiv> 88"   \<comment> \<open>\<open>'X'\<close>\<close>
abbreviation chE :: byte where "chE \<equiv> 69"   \<comment> \<open>\<open>'E'\<close>\<close>
abbreviation chB :: byte where "chB \<equiv> 66"   \<comment> \<open>\<open>'B'\<close>\<close>
abbreviation chS :: byte where "chS \<equiv> 83"   \<comment> \<open>\<open>'S'\<close>\<close>

section \<open>The packed structs\<close>

record AddOrderMsg =
  add_msgType :: byte
  add_seqNo :: u64
  add_timestampNs :: u64
  add_orderId :: u64
  add_side :: byte
  add_price :: i32
  add_quantity :: i32

record CancelOrderMsg =
  cancel_msgType :: byte
  cancel_seqNo :: u64
  cancel_timestampNs :: u64
  cancel_orderId :: u64
  cancel_quantity :: i32

record ExecuteOrderMsg =
  exec_msgType :: byte
  exec_seqNo :: u64
  exec_timestampNs :: u64
  exec_orderId :: u64
  exec_execQuantity :: i32
  exec_matchPrice :: i32

record MoldHeader =
  mold_session :: "byte list"       \<comment> \<open>\<open>char session[10]\<close>\<close>
  mold_sequenceNumber :: u64
  mold_messageCount :: u16

text \<open>The sizes the \<open>static_assert\<close>s state.\<close>

definition sizeof_AddOrderMsg :: nat where "sizeof_AddOrderMsg = 1 + 8 + 8 + 8 + 1 + 4 + 4"
definition sizeof_CancelOrderMsg :: nat where "sizeof_CancelOrderMsg = 1 + 8 + 8 + 8 + 4"
definition sizeof_ExecuteOrderMsg :: nat where "sizeof_ExecuteOrderMsg = 1 + 8 + 8 + 8 + 4 + 4"

lemmas sizeof_defs [layout_simps] =
  sizeof_AddOrderMsg_def sizeof_CancelOrderMsg_def sizeof_ExecuteOrderMsg_def

definition add_bytes :: "AddOrderMsg \<Rightarrow> byte list" where
  "add_bytes a = [add_msgType a] @ field_bytes 8 (add_seqNo a) @ field_bytes 8 (add_timestampNs a)
     @ field_bytes 8 (add_orderId a) @ [add_side a] @ field_bytes 4 (add_price a)
     @ field_bytes 4 (add_quantity a)"

definition cancel_bytes :: "CancelOrderMsg \<Rightarrow> byte list" where
  "cancel_bytes c = [cancel_msgType c] @ field_bytes 8 (cancel_seqNo c)
     @ field_bytes 8 (cancel_timestampNs c) @ field_bytes 8 (cancel_orderId c)
     @ field_bytes 4 (cancel_quantity c)"

definition exec_bytes :: "ExecuteOrderMsg \<Rightarrow> byte list" where
  "exec_bytes e = [exec_msgType e] @ field_bytes 8 (exec_seqNo e)
     @ field_bytes 8 (exec_timestampNs e) @ field_bytes 8 (exec_orderId e)
     @ field_bytes 4 (exec_execQuantity e) @ field_bytes 4 (exec_matchPrice e)"

record MoldBlockHeader =
  mold_messageLength :: u16

definition mold_block_bytes :: "MoldBlockHeader \<Rightarrow> byte list" where
  "mold_block_bytes h = field_bytes 2 (mold_messageLength h)"

definition mold_bytes :: "MoldHeader \<Rightarrow> byte list" where
  "mold_bytes h = mold_session h @ field_bytes 8 (mold_sequenceNumber h)
     @ field_bytes 2 (mold_messageCount h)"

section \<open>The \<open>WireMessage\<close> union\<close>

text \<open>A wire message is its 34 bytes; each union member is a way to read a prefix of them.\<close>

type_synonym WireMessage = "byte list"

definition sizeof_WireMessage :: nat where "sizeof_WireMessage = sizeof_AddOrderMsg"

declare sizeof_WireMessage_def [layout_simps]

definition wire_ok :: "WireMessage \<Rightarrow> bool" where
  "wire_ok m \<longleftrightarrow> length m = sizeof_WireMessage"

definition WireMessage_zero :: WireMessage where      \<comment> \<open>\<open>WireMessage msg{}\<close>\<close>
  "WireMessage_zero = replicate sizeof_WireMessage 0"

definition msgType :: "WireMessage \<Rightarrow> byte" where
  "msgType m = m ! 0"

definition wire_add :: "WireMessage \<Rightarrow> AddOrderMsg" where
  "wire_add m = \<lparr>add_msgType = m ! 0, add_seqNo = field_at 1 8 m, add_timestampNs = field_at 9 8 m,
     add_orderId = field_at 17 8 m, add_side = m ! 25, add_price = field_at 26 4 m,
     add_quantity = field_at 30 4 m\<rparr>"

definition wire_cancel :: "WireMessage \<Rightarrow> CancelOrderMsg" where
  "wire_cancel m = \<lparr>cancel_msgType = m ! 0, cancel_seqNo = field_at 1 8 m,
     cancel_timestampNs = field_at 9 8 m, cancel_orderId = field_at 17 8 m,
     cancel_quantity = field_at 25 4 m\<rparr>"

definition wire_exec :: "WireMessage \<Rightarrow> ExecuteOrderMsg" where
  "wire_exec m = \<lparr>exec_msgType = m ! 0, exec_seqNo = field_at 1 8 m,
     exec_timestampNs = field_at 9 8 m, exec_orderId = field_at 17 8 m,
     exec_execQuantity = field_at 25 4 m, exec_matchPrice = field_at 29 4 m\<rparr>"

text \<open>Assigning a union member overwrites that member's bytes only.\<close>

definition set_add :: "WireMessage \<Rightarrow> AddOrderMsg \<Rightarrow> WireMessage" where
  "set_add m a = add_bytes a @ drop sizeof_AddOrderMsg m"

definition set_cancel :: "WireMessage \<Rightarrow> CancelOrderMsg \<Rightarrow> WireMessage" where
  "set_cancel m c = cancel_bytes c @ drop sizeof_CancelOrderMsg m"

definition set_exec :: "WireMessage \<Rightarrow> ExecuteOrderMsg \<Rightarrow> WireMessage" where
  "set_exec m e = exec_bytes e @ drop sizeof_ExecuteOrderMsg m"

text \<open>The accessors read through the \<open>add\<close> member whatever the message holds.\<close>

definition seqNo :: "WireMessage \<Rightarrow> u64" where
  "seqNo m = add_seqNo (wire_add m)"

definition timestampNs :: "WireMessage \<Rightarrow> u64" where
  "timestampNs m = add_timestampNs (wire_add m)"

definition orderId_of :: "WireMessage \<Rightarrow> u64" where
  "orderId_of m = add_orderId (wire_add m)"

definition expectedSize :: "byte \<Rightarrow> nat" where
  "expectedSize t = (if t = chA then sizeof_AddOrderMsg
     else if t = chX then sizeof_CancelOrderMsg
     else if t = chE then sizeof_ExecuteOrderMsg
     else 0)"

definition isValid :: "WireMessage \<Rightarrow> bool" where
  "isValid m =
     (if msgType m = chA then
        (add_side (wire_add m) = chB \<or> add_side (wire_add m) = chS)
        \<and> 0 <s add_price (wire_add m) \<and> 0 <s add_quantity (wire_add m)
      else if msgType m = chX then 0 <=s cancel_quantity (wire_cancel m)
      else if msgType m = chE then
        0 <s exec_execQuantity (wire_exec m) \<and> 0 <s exec_matchPrice (wire_exec m)
      else False)"

section \<open>Layout lemmas\<close>

lemma length_add_bytes [simp]: "length (add_bytes a) = 34"
  by (simp add: add_bytes_def layout_simps)

lemma length_cancel_bytes [simp]: "length (cancel_bytes c) = 29"
  by (simp add: cancel_bytes_def layout_simps)

lemma length_exec_bytes [simp]: "length (exec_bytes e) = 33"
  by (simp add: exec_bytes_def layout_simps)

lemma field_at_u64 [simp]: "field_at 0 8 (field_bytes 8 (w :: u64) @ ys) = w"
  by (rule field_at_here) simp

lemma field_at_i32 [simp]: "field_at 0 4 (field_bytes 4 (w :: i32) @ ys) = w"
  by (rule field_at_here) simp

lemma field_at_i32_end [simp]: "field_at 0 4 (field_bytes 4 (w :: i32)) = w"
  using field_at_i32 [of w "[]"] by simp

lemma wire_add_bytes [simp]: "wire_add (add_bytes a @ ys) = a"
  by (simp add: wire_add_def add_bytes_def layout_simps nth_append)

lemma wire_cancel_bytes [simp]: "wire_cancel (cancel_bytes c @ ys) = c"
  by (simp add: wire_cancel_def cancel_bytes_def layout_simps nth_append)

lemma wire_exec_bytes [simp]: "wire_exec (exec_bytes e @ ys) = e"
  by (simp add: wire_exec_def exec_bytes_def layout_simps nth_append)


text \<open>Encoding a field that was read gives back its bytes, so decoding loses nothing.\<close>

lemma field_bytes_at:
  assumes "8 * n = LENGTH('a::len)" and "off + n \<le> length m"
  shows "field_bytes n (field_at off n m :: 'a word) = take n (drop off m)"
proof -
  let ?bs = "take n (drop off m)"
  have len: "length ?bs = n" using assms(2) by simp
  have p: "(256 :: int) ^ n = 2 ^ LENGTH('a)"
    by (simp flip: assms(1) add: power_mult)
  have "le_dec ?bs < 256 ^ n" "0 \<le> le_dec ?bs"
    using le_dec_range [of ?bs] len by auto
  then have "uint (of_int (le_dec ?bs) :: 'a word) = le_dec ?bs"
    by (simp add: uint_word_of_int p)
  then show ?thesis
    using le_enc_dec [OF len] by (simp add: field_bytes_def field_at_def)
qed

lemma split_at: "off + n \<le> length m \<Longrightarrow> drop off m = take n (drop off m) @ drop (off + n) m"
  by (metis add.commute append_take_drop_id drop_drop)

lemma add_bytes_wire_add:
  assumes "length m = 34"
  shows "add_bytes (wire_add m) = m"
proof -
  have "m = [m ! 0] @ drop 1 m"
    using assms by (cases m) auto
  also have "drop 1 m = take 8 (drop 1 m) @ drop 9 m"
    using assms split_at [of 1 8 m] by simp
  also have "drop 9 m = take 8 (drop 9 m) @ drop 17 m"
    using assms split_at [of 9 8 m] by simp
  also have "drop 17 m = take 8 (drop 17 m) @ drop 25 m"
    using assms split_at [of 17 8 m] by simp
  also have "drop 25 m = [m ! 25] @ drop 26 m"
    using assms by (simp add: Cons_nth_drop_Suc [symmetric])
  also have "drop 26 m = take 4 (drop 26 m) @ take 4 (drop 30 m)"
    using assms split_at [of 26 4 m] by simp
  finally show ?thesis
    using assms by (simp add: add_bytes_def wire_add_def field_bytes_at)
qed

lemma wire_ok_set [simp]:
  "wire_ok m \<Longrightarrow> wire_ok (set_add m a)"
  "wire_ok m \<Longrightarrow> wire_ok (set_cancel m c)"
  "wire_ok m \<Longrightarrow> wire_ok (set_exec m e)"
  "wire_ok WireMessage_zero"
  by (simp_all add: wire_ok_def set_add_def set_cancel_def set_exec_def WireMessage_zero_def
      layout_simps)

lemma wire_set [simp]:
  "wire_add (set_add m a) = a"
  "wire_cancel (set_cancel m c) = c"
  "wire_exec (set_exec m e) = e"
  by (simp_all add: set_add_def set_cancel_def set_exec_def)

lemma msgType_set [simp]:
  "msgType (set_add m a) = add_msgType a"
  "msgType (set_cancel m c) = cancel_msgType c"
  "msgType (set_exec m e) = exec_msgType e"
  by (simp_all add: msgType_def set_add_def set_cancel_def set_exec_def add_bytes_def
      cancel_bytes_def exec_bytes_def)

lemma header_views:
  "cancel_seqNo (wire_cancel m) = seqNo m" "exec_seqNo (wire_exec m) = seqNo m"
  "add_seqNo (wire_add m) = seqNo m"
  "cancel_orderId (wire_cancel m) = orderId_of m" "exec_orderId (wire_exec m) = orderId_of m"
  "add_orderId (wire_add m) = orderId_of m"
  "cancel_timestampNs (wire_cancel m) = timestampNs m"
  "exec_timestampNs (wire_exec m) = timestampNs m" "add_timestampNs (wire_add m) = timestampNs m"
  by (simp_all add: wire_add_def wire_cancel_def wire_exec_def seqNo_def orderId_of_def
      timestampNs_def)

lemma seqNo_set [simp]:
  "seqNo (set_add m a) = add_seqNo a"
  "seqNo (set_cancel m c) = cancel_seqNo c"
  "seqNo (set_exec m e) = exec_seqNo e"
  using wire_set header_views by metis+

section \<open>Properties\<close>

text \<open>Storing a message in the union and reading it back through the same member returns every
  field, the union stays 34 bytes long, and the 34 bytes are exactly determined by their \<open>add\<close>
  view (the packed layout has no gaps).\<close>

theorem wire_roundtrip:
  "wire_add (set_add m a) = a \<and> wire_cancel (set_cancel m c) = c \<and> wire_exec (set_exec m e) = e
   \<and> (wire_ok m \<longrightarrow> wire_ok (set_add m a) \<and> wire_ok (set_cancel m c) \<and> wire_ok (set_exec m e)
        \<and> set_add m' (wire_add m) = m @ drop 34 m')"
  by (simp add: wire_ok_def set_add_def add_bytes_wire_add layout_simps)
   (simp add: set_cancel_def set_exec_def layout_simps)

theorem wire_roundtrip_witness:
  "wire_ok WireMessage_zero \<and> set_add [] (wire_add WireMessage_zero) = WireMessage_zero"
  using wire_roundtrip [of WireMessage_zero undefined undefined undefined "[]"] by simp

text \<open>The header accessors of the union, which always read the \<open>add\<close> member, return the
  sequence number, timestamp and order id of whichever message was stored: the three structs put
  these fields at the same offsets.\<close>

theorem accessors_agree:
  "seqNo (set_cancel m c) = cancel_seqNo c \<and> timestampNs (set_cancel m c) = cancel_timestampNs c
   \<and> orderId_of (set_cancel m c) = cancel_orderId c
   \<and> seqNo (set_exec m e) = exec_seqNo e \<and> timestampNs (set_exec m e) = exec_timestampNs e
   \<and> orderId_of (set_exec m e) = exec_orderId e
   \<and> seqNo (set_add m a) = add_seqNo a \<and> timestampNs (set_add m a) = add_timestampNs a
   \<and> orderId_of (set_add m a) = add_orderId a"
  using header_views wire_set by metis

end
