(* ===== verification/OrderTable.thy ===== *)
theory OrderTable
  imports Prelude
begin

text \<open>
  The open-addressing order table, \<open>include/feed_handler/order_table.hpp\<close>: a fixed array of
  records probed linearly from a Fibonacci hash, with tombstones (\<open>cancelled\<close> while still
  \<open>occupied\<close>). The template parameter \<open>Capacity\<close> is the length of the array; a returned
  \<open>OrderRecord*\<close> is the index of its slot, \<open>nullptr\<close> is \<^const>\<open>None\<close>. The interface the
  order book relies on is the locale \<open>order_store\<close>, interpreted at the end on this table.
\<close>

section \<open>Records\<close>

record OrderRecord =
  rec_orderId :: u64
  rec_side :: byte
  rec_occupied :: bool
  rec_cancelled :: bool
  rec_price :: i32
  rec_quantity :: i32
  rec_timestamp :: u64

definition OrderRecord_zero :: OrderRecord where      \<comment> \<open>\<open>OrderRecord{}\<close>\<close>
  "OrderRecord_zero = \<lparr>rec_orderId = 0, rec_side = 0, rec_occupied = False, rec_cancelled = False,
     rec_price = 0, rec_quantity = 0, rec_timestamp = 0\<rparr>"

section \<open>The interface of the order book\<close>

text \<open>What \<open>LimitOrderBook\<close> relies on: a lookup returns a pointer to the record of that id, a write
  through that pointer changes this record only, an insertion stores the new record under its id or
  fails and changes nothing.\<close>

definition store_view ::
  "('t \<Rightarrow> u64 \<Rightarrow> 'p option) \<Rightarrow> ('t \<Rightarrow> 'p \<Rightarrow> OrderRecord) \<Rightarrow> 't \<Rightarrow> u64 \<Rightarrow> OrderRecord option" where
  "store_view look rd t k = map_option (rd t) (look t k)"

text \<open>The live orders: id to side, price and remaining quantity; tombstones are absent.\<close>

type_synonym resting = "byte \<times> i32 \<times> i32"

definition live_of :: "OrderRecord option \<Rightarrow> resting option" where
  "live_of r = (case r of None \<Rightarrow> None
     | Some r \<Rightarrow> if rec_cancelled r then None else Some (rec_side r, rec_price r, rec_quantity r))"

locale order_store =
  fixes inv :: "'t \<Rightarrow> bool"
    and look :: "'t \<Rightarrow> u64 \<Rightarrow> 'p option"
    and rd :: "'t \<Rightarrow> 'p \<Rightarrow> OrderRecord"
    and wr :: "'t \<Rightarrow> 'p \<Rightarrow> OrderRecord \<Rightarrow> 't"
    and ins :: "'t \<Rightarrow> u64 \<Rightarrow> byte \<Rightarrow> i32 \<Rightarrow> i32 \<Rightarrow> u64 \<Rightarrow> 't \<times> 'p option"
  assumes look_rd: "inv t \<Longrightarrow> look t k = Some p \<Longrightarrow> rec_orderId (rd t p) = k \<and> rec_occupied (rd t p)"
    and wr_inv: "inv t \<Longrightarrow> look t k = Some p \<Longrightarrow> rec_orderId r = k \<Longrightarrow> rec_occupied r
      \<Longrightarrow> inv (wr t p r)"
    and wr_view: "inv t \<Longrightarrow> look t k = Some p \<Longrightarrow> rec_orderId r = k \<Longrightarrow> rec_occupied r
      \<Longrightarrow> store_view look rd (wr t p r) = (store_view look rd t)(k \<mapsto> r)"
    and ins_None: "inv t \<Longrightarrow> ins t k sd px qty ts = (t', None)
      \<Longrightarrow> t' = t \<and> store_view look rd t k = None"
    and ins_inv: "inv t \<Longrightarrow> ins t k sd px qty ts = (t', Some p) \<Longrightarrow> inv t'"
    and ins_view: "inv t \<Longrightarrow> ins t k sd px qty ts = (t', Some p)
      \<Longrightarrow> store_view look rd t' = (store_view look rd t)(k \<mapsto>
            \<lparr>rec_orderId = k, rec_side = sd, rec_occupied = True, rec_cancelled = False,
             rec_price = px, rec_quantity = qty, rec_timestamp = ts\<rparr>)"
begin

text \<open>Client lemmas: the live orders after each operation the book performs.\<close>

lemma view_Some: "look t k = Some p \<Longrightarrow> store_view look rd t k = Some (rd t p)"
  by (simp add: store_view_def)

lemma live_insert:
  assumes "inv t" and "ins t k sd px qty ts = (t', Some p)"
  shows "(\<lambda>i. live_of (store_view look rd t' i))
       = (\<lambda>i. live_of (store_view look rd t i))(k \<mapsto> (sd, px, qty))"
  by (auto simp: ins_view [OF assms] live_of_def fun_eq_iff)

lemma live_reduce:
  assumes "inv t" and "look t k = Some p" and "\<not> rec_cancelled (rd t p)"
  shows "inv (wr t p ((rd t p)\<lparr>rec_quantity := q, rec_cancelled := c\<rparr>))"
    and "(\<lambda>i. live_of (store_view look rd (wr t p ((rd t p)\<lparr>rec_quantity := q, rec_cancelled := c\<rparr>)) i))
       = (\<lambda>i. live_of (store_view look rd t i))
           (k := if c then None else Some (rec_side (rd t p), rec_price (rd t p), q))"
  using look_rd [OF assms(1,2)] wr_inv [OF assms(1,2)] wr_view [OF assms(1,2)]
  by (auto simp: live_of_def fun_eq_iff)

end

section \<open>The table state\<close>

record OrderTable =
  ot_table :: "OrderRecord list"
  ot_occupiedCount :: u64
  ot_activeCount :: u64

abbreviation table_capacity :: "OrderTable \<Rightarrow> nat" where
  "table_capacity t \<equiv> length (ot_table t)"

definition table_clear :: "OrderTable \<Rightarrow> OrderTable" where
  "table_clear t = t\<lparr>ot_table := map (\<lambda>_. OrderRecord_zero) (ot_table t), ot_occupiedCount := 0,
     ot_activeCount := 0\<rparr>"

definition OrderTable_new :: "nat \<Rightarrow> OrderTable" where
  "OrderTable_new Capacity = table_clear
     \<lparr>ot_table = replicate Capacity OrderRecord_zero, ot_occupiedCount = 0, ot_activeCount = 0\<rparr>"

section \<open>Operations\<close>

definition FIBONACCI_PRIME :: u64 where
  "FIBONACCI_PRIME = 0x9E3779B97F4A7C15"

definition table_hash :: "nat \<Rightarrow> u64 \<Rightarrow> nat" where
  "table_hash Capacity oid =
     unat (drop_bit 43 (oid * FIBONACCI_PRIME) AND of_nat (Capacity - 1))"

text \<open>The slot a probe looks at: \<open>(startIdx + probe) & MASK\<close>.\<close>

definition probe_idx :: "nat \<Rightarrow> nat \<Rightarrow> nat \<Rightarrow> nat" where
  "probe_idx Capacity startIdx probe = (startIdx + probe) AND (Capacity - 1)"

text \<open>The two writes of \<open>insert\<close>: claiming a free slot, and overwriting (re-activating) the slot
  that already holds the id.\<close>

definition slot_claim ::
  "OrderTable \<Rightarrow> nat \<Rightarrow> u64 \<Rightarrow> byte \<Rightarrow> i32 \<Rightarrow> i32 \<Rightarrow> u64 \<Rightarrow> OrderTable" where
  "slot_claim t i oid sd px qty ts =
     t\<lparr>ot_table := (ot_table t)[i := (ot_table t ! i)\<lparr>rec_orderId := oid, rec_side := sd,
         rec_price := px, rec_quantity := qty, rec_timestamp := ts, rec_occupied := True,
         rec_cancelled := False\<rparr>],
       ot_occupiedCount := ot_occupiedCount t + 1, ot_activeCount := ot_activeCount t + 1\<rparr>"

definition slot_overwrite ::
  "OrderTable \<Rightarrow> nat \<Rightarrow> byte \<Rightarrow> i32 \<Rightarrow> i32 \<Rightarrow> u64 \<Rightarrow> OrderTable" where
  "slot_overwrite t i sd px qty ts =
     t\<lparr>ot_table := (ot_table t)[i := (ot_table t ! i)\<lparr>rec_cancelled := False, rec_side := sd,
         rec_price := px, rec_quantity := qty, rec_timestamp := ts\<rparr>],
       ot_activeCount := (if rec_cancelled (ot_table t ! i) then ot_activeCount t + 1
                          else ot_activeCount t)\<rparr>"

function insert_from ::
  "u64 \<Rightarrow> byte \<Rightarrow> i32 \<Rightarrow> i32 \<Rightarrow> u64 \<Rightarrow> nat \<Rightarrow> nat \<Rightarrow> OrderTable \<Rightarrow> OrderTable \<times> nat option"
where
  "insert_from oid sd px qty ts startIdx probe t =
    (if probe < table_capacity t then
       let i = probe_idx (table_capacity t) startIdx probe in
       if \<not> rec_occupied (ot_table t ! i) then (slot_claim t i oid sd px qty ts, Some i)
       else if rec_orderId (ot_table t ! i) = oid then (slot_overwrite t i sd px qty ts, Some i)
       else insert_from oid sd px qty ts startIdx (Suc probe) t
     else (t, None))"
  by pat_completeness auto
termination
  by (relation "measure (\<lambda>(_, _, _, _, _, _, probe, t). table_capacity t - probe)") auto

declare insert_from.simps [simp del]

definition table_insert ::
  "OrderTable \<Rightarrow> u64 \<Rightarrow> byte \<Rightarrow> i32 \<Rightarrow> i32 \<Rightarrow> u64 \<Rightarrow> OrderTable \<times> nat option" where
  "table_insert t oid sd px qty ts =
     insert_from oid sd px qty ts (table_hash (table_capacity t) oid) 0 t"

function lookup_from :: "u64 \<Rightarrow> nat \<Rightarrow> nat \<Rightarrow> OrderRecord list \<Rightarrow> nat option" where
  "lookup_from oid startIdx probe tbl =
    (if probe < length tbl then
       let i = probe_idx (length tbl) startIdx probe; slot = tbl ! i in
       if \<not> rec_occupied slot then None
       else if rec_orderId slot = oid then Some i
       else lookup_from oid startIdx (Suc probe) tbl
     else None)"
  by pat_completeness auto
termination
  by (relation "measure (\<lambda>(_, _, probe, tbl). length tbl - probe)") auto

declare lookup_from.simps [simp del]

definition table_lookup :: "OrderTable \<Rightarrow> u64 \<Rightarrow> nat option" where
  "table_lookup t oid = lookup_from oid (table_hash (table_capacity t) oid) 0 (ot_table t)"

text \<open>Reading and writing through a returned pointer.\<close>

definition table_read :: "OrderTable \<Rightarrow> nat \<Rightarrow> OrderRecord" where
  "table_read t i = ot_table t ! i"

definition table_write :: "OrderTable \<Rightarrow> nat \<Rightarrow> OrderRecord \<Rightarrow> OrderTable" where
  "table_write t i r = t\<lparr>ot_table := (ot_table t)[i := r]\<rparr>"

definition table_erase :: "OrderTable \<Rightarrow> u64 \<Rightarrow> OrderTable \<times> bool" where
  "table_erase t oid =
     (case table_lookup t oid of
        None \<Rightarrow> (t, False)
      | Some i \<Rightarrow>
          if \<not> rec_cancelled (table_read t i) then
            ((table_write t i ((table_read t i)\<lparr>rec_cancelled := True\<rparr>))
               \<lparr>ot_activeCount := (if ot_activeCount t > 0 then ot_activeCount t - 1 else ot_activeCount t)\<rparr>,
             True)
          else (t, False))"

definition table_size :: "OrderTable \<Rightarrow> u64" where
  "table_size t = ot_activeCount t"

definition table_occupiedSlots :: "OrderTable \<Rightarrow> u64" where
  "table_occupiedSlots t = ot_occupiedCount t"

section \<open>Invariant and abstraction\<close>

text \<open>Every occupied slot is the one a lookup of its id finds; in particular no two occupied slots
  hold the same id. The counter of occupied slots is exact.\<close>

definition table_inv :: "OrderTable \<Rightarrow> bool" where
  "table_inv t \<longleftrightarrow> cap_ok (table_capacity t)
     \<and> (\<forall>i < table_capacity t. rec_occupied (ot_table t ! i)
          \<longrightarrow> table_lookup t (rec_orderId (ot_table t ! i)) = Some i)
     \<and> ot_occupiedCount t = of_nat (length (filter rec_occupied (ot_table t)))"

abbreviation table_view :: "OrderTable \<Rightarrow> u64 \<Rightarrow> OrderRecord option" where
  "table_view \<equiv> store_view table_lookup table_read"

section \<open>Probing lemmas\<close>

lemma probe_idx_less [simp]: "cap_ok n \<Longrightarrow> probe_idx n s p < n"
  by (simp add: probe_idx_def and_cap del: One_nat_def)

lemma probe_idx_surj:
  assumes "cap_ok n" and "i < n"
  shows "\<exists>p < n. probe_idx n s p = i"
proof -
  let ?p = "(i + n - s mod n) mod n"
  have n: "0 < n" using assms(1) by simp
  then have sm: "s mod n < n" by simp
  have "probe_idx n s ?p = (s + ?p) mod n"
    using assms(1) by (simp add: probe_idx_def and_cap del: One_nat_def)
  also have "\<dots> = (s mod n + (i + n - s mod n)) mod n"
    by (simp only: mod_add_right_eq mod_add_left_eq)
  also have "s mod n + (i + n - s mod n) = i + n" using sm by simp
  also have "(i + n) mod n = i" using assms(2) by simp
  finally show ?thesis using n by (intro exI [of _ ?p]) simp
qed

lemma lookup_from_skip:
  assumes "p < length tbl" and "rec_occupied (tbl ! probe_idx (length tbl) s p)"
    and "rec_orderId (tbl ! probe_idx (length tbl) s p) \<noteq> oid"
  shows "lookup_from oid s p tbl = lookup_from oid s (Suc p) tbl"
  using assms by (simp add: lookup_from.simps [of _ _ p] Let_def)

lemma lookup_from_sound:
  assumes "lookup_from oid s p tbl = Some i" and "cap_ok (length tbl)"
  shows "i < length tbl \<and> rec_occupied (tbl ! i) \<and> rec_orderId (tbl ! i) = oid"
  using assms
proof (induction oid s p tbl rule: lookup_from.induct)
  case (1 oid s p tbl)
  then show ?case
    by (subst (asm) (2) lookup_from.simps) (auto simp: Let_def split: if_splits)
qed

text \<open>Filling a free slot does not disturb a successful lookup: its probe path is occupied.\<close>

lemma lookup_from_fill:
  assumes "lookup_from oid s p tbl = Some i" and "\<not> rec_occupied (tbl ! j)"
  shows "lookup_from oid s p (tbl[j := r]) = Some i"
  using assms
proof (induction oid s p tbl rule: lookup_from.induct)
  case (1 oid s p tbl)
  let ?i = "probe_idx (length tbl) s p"
  from "1.prems" have p: "p < length tbl" and occ: "rec_occupied (tbl ! ?i)"
    by (auto simp: lookup_from.simps [of oid s p tbl] Let_def split: if_splits)
  with "1.prems" have ne: "?i \<noteq> j" by auto
  show ?case
    using "1.prems" "1.IH" p occ ne
    by (auto simp: lookup_from.simps [of oid s p tbl] lookup_from.simps [of oid s p "tbl[j := r]"]
        Let_def split: if_splits)
qed

text \<open>Rewriting an occupied slot without changing its id does not disturb any lookup.\<close>

lemma lookup_from_rewrite:
  assumes "rec_occupied (tbl ! j)" and "rec_occupied r" and "rec_orderId r = rec_orderId (tbl ! j)"
    and "j < length tbl"
  shows "lookup_from oid s p (tbl[j := r]) = lookup_from oid s p tbl"
  using assms
proof (induction oid s p tbl rule: lookup_from.induct)
  case (1 oid s p tbl)
  then show ?case
    by (auto simp: lookup_from.simps [of oid s p tbl] lookup_from.simps [of oid s p "tbl[j := r]"]
        Let_def nth_list_update)
qed

lemma length_slot [simp]:
  "length (ot_table (slot_claim t i oid sd px qty ts)) = table_capacity t"
  "length (ot_table (slot_overwrite t i sd px qty ts)) = table_capacity t"
  "length (ot_table (table_write t i r)) = table_capacity t"
  by (simp_all add: slot_claim_def slot_overwrite_def table_write_def)

text \<open>What the insertion loop does, relative to a lookup along the same probe path.\<close>

lemma insert_from_cases:
  assumes "insert_from oid sd px qty ts s p t = (t', r)" and "cap_ok (table_capacity t)"
  shows "case r of
      None \<Rightarrow> t' = t \<and> lookup_from oid s p (ot_table t) = None
              \<and> (\<forall>q. p \<le> q \<and> q < table_capacity t
                   \<longrightarrow> rec_occupied (ot_table t ! probe_idx (table_capacity t) s q))
    | Some j \<Rightarrow> j < table_capacity t \<and>
        (if rec_occupied (ot_table t ! j)
         then lookup_from oid s p (ot_table t) = Some j \<and> t' = slot_overwrite t j sd px qty ts
         else lookup_from oid s p (ot_table t) = None \<and> t' = slot_claim t j oid sd px qty ts
              \<and> lookup_from oid s p (ot_table t') = Some j)"
  using assms
proof (induction oid sd px qty ts s p t rule: insert_from.induct)
  case (1 oid sd px qty ts s p t)
  let ?i = "probe_idx (table_capacity t) s p"
  show ?case
  proof (cases "p < table_capacity t")
    case False
    with "1.prems" show ?thesis
      by (auto simp: insert_from.simps [of _ _ _ _ _ _ p] lookup_from.simps [of _ _ p])
  next
    case p: True
    show ?thesis
    proof (cases "rec_occupied (ot_table t ! ?i) \<and> rec_orderId (ot_table t ! ?i) \<noteq> oid")
      case True
      with p "1.prems"(1) have rest: "insert_from oid sd px qty ts s (Suc p) t = (t', r)"
        by (simp add: insert_from.simps [of _ _ _ _ _ _ p] Let_def)
      have step: "lookup_from oid s p (ot_table t) = lookup_from oid s (Suc p) (ot_table t)"
        using p True by (simp add: lookup_from_skip)
      note IH = "1.IH" [OF p refl _ _ rest "1.prems"(2)]
      show ?thesis
      proof (cases r)
        case None
        then show ?thesis
          using IH True step by (auto simp: not_less_eq_eq [symmetric] le_less_Suc_eq
              elim!: le_SucE dest: le_imp_less_or_eq)
      next
        case (Some j)
        have "lookup_from oid s p (ot_table t') = lookup_from oid s (Suc p) (ot_table t')"
          if "\<not> rec_occupied (ot_table t ! j)" "t' = slot_claim t j oid sd px qty ts"
        proof -
          have "j \<noteq> ?i" using that(1) True by auto
          then show ?thesis
            using that(2) True p by (intro lookup_from_skip) (auto simp: slot_claim_def)
        qed
        then show ?thesis
          using IH True step Some by auto
      qed
    next
      case False
      then show ?thesis
        using p "1.prems"
        by (auto simp: insert_from.simps [of _ _ _ _ _ _ p] lookup_from.simps [of _ _ p] Let_def
            slot_claim_def split: if_splits)
    qed
  qed
qed

section \<open>Lookup, insertion and writes on a well-formed table\<close>

lemma table_invD:
  assumes "table_inv t"
  shows "cap_ok (table_capacity t)"
    and "i < table_capacity t \<Longrightarrow> rec_occupied (ot_table t ! i)
           \<Longrightarrow> table_lookup t (rec_orderId (ot_table t ! i)) = Some i"
    and "ot_occupiedCount t = of_nat (length (filter rec_occupied (ot_table t)))"
  using assms by (auto simp: table_inv_def)

lemma table_lookup_iff:
  assumes "table_inv t"
  shows "table_lookup t k = Some i \<longleftrightarrow>
    i < table_capacity t \<and> rec_occupied (ot_table t ! i) \<and> rec_orderId (ot_table t ! i) = k"
  using assms lookup_from_sound [of k _ 0 "ot_table t" i] table_invD [OF assms]
  by (auto simp: table_lookup_def)

lemma table_inv_new [inv_intros]: "cap_ok n \<Longrightarrow> table_inv (OrderTable_new n)"
  by (simp add: table_inv_def OrderTable_new_def table_clear_def OrderRecord_zero_def
      filter_replicate map_replicate_const)

lemma table_lookup_new [simp]: "cap_ok n \<Longrightarrow> table_lookup (OrderTable_new n) k = None"
  by (simp add: table_lookup_def OrderTable_new_def table_clear_def lookup_from.simps
      OrderRecord_zero_def Let_def)

lemma table_inv_clear [inv_intros]: "table_inv t \<Longrightarrow> table_inv (table_clear t)"
  by (auto simp: table_inv_def table_clear_def OrderRecord_zero_def filter_empty_conv)

lemma table_claim:
  assumes inv: "table_inv t" and j: "j < table_capacity t" "\<not> rec_occupied (ot_table t ! j)"
    and new: "table_lookup (slot_claim t j oid sd px qty ts) oid = Some j"
  shows "table_inv (slot_claim t j oid sd px qty ts)"
proof -
  let ?t = "slot_claim t j oid sd px qty ts"
  have "table_lookup ?t (rec_orderId (ot_table ?t ! i)) = Some i"
    if i: "i < table_capacity t" "rec_occupied (ot_table ?t ! i)" for i
  proof (cases "i = j")
    case True
    then show ?thesis using new j by (simp add: slot_claim_def)
  next
    case False
    then have "table_lookup t (rec_orderId (ot_table t ! i)) = Some i"
      using i by (intro table_invD [OF inv]) (auto simp: slot_claim_def)
    then show ?thesis
      using False lookup_from_fill [OF _ j(2)]
      by (simp add: table_lookup_def slot_claim_def)
  qed
  moreover have "ot_occupiedCount ?t = of_nat (length (filter rec_occupied (ot_table ?t)))"
    using table_invD(3) [OF inv] j length_filter_update [OF j(1), of rec_occupied]
    by (simp add: slot_claim_def)
  ultimately show ?thesis
    using table_invD(1) [OF inv] by (simp add: table_inv_def)
qed

lemma table_rewrite:
  assumes inv: "table_inv t" and look: "table_lookup t k = Some i"
    and r: "rec_orderId r = k" "rec_occupied r"
  shows "table_inv (table_write t i r)" and "table_lookup (table_write t i r) k' = table_lookup t k'"
proof -
  from look have i: "i < table_capacity t" "rec_occupied (ot_table t ! i)"
    "rec_orderId (ot_table t ! i) = k"
    using table_lookup_iff [OF inv] by auto
  show eq: "table_lookup (table_write t i r) k' = table_lookup t k'" for k'
    using i r lookup_from_rewrite [of "ot_table t" i r]
    by (simp add: table_lookup_def table_write_def)
  have "length (filter rec_occupied ((ot_table t)[i := r])) = length (filter rec_occupied (ot_table t))"
    using length_filter_update [OF i(1), of rec_occupied r] i r by simp
  moreover have "table_lookup t (rec_orderId (ot_table (table_write t i r) ! j)) = Some j"
    if "j < table_capacity t" "rec_occupied (ot_table (table_write t i r) ! j)" for j
    using that table_invD(2) [OF inv] look r by (cases "j = i") (auto simp: table_write_def)
  ultimately show "table_inv (table_write t i r)"
    using table_invD [OF inv] eq by (simp add: table_inv_def) (simp add: table_write_def)
qed

lemma slot_overwrite_as_write:
  "slot_overwrite t i sd px qty ts =
     (table_write t i ((ot_table t ! i)\<lparr>rec_cancelled := False, rec_side := sd,
        rec_price := px, rec_quantity := qty, rec_timestamp := ts\<rparr>))
     \<lparr>ot_activeCount := (if rec_cancelled (ot_table t ! i) then ot_activeCount t + 1
        else ot_activeCount t)\<rparr>"
  by (simp add: slot_overwrite_def table_write_def)

lemma active_irrelevant [simp]:
  "table_inv (t\<lparr>ot_activeCount := n\<rparr>) = table_inv t"
  "table_lookup (t\<lparr>ot_activeCount := n\<rparr>) = table_lookup t"
  "table_read (t\<lparr>ot_activeCount := n\<rparr>) = table_read t"
  by (auto simp: table_inv_def table_lookup_def table_read_def fun_eq_iff)

lemma table_insert_None:
  assumes "table_inv t" and "table_insert t oid sd px qty ts = (t', None)"
  shows "t' = t" and "table_lookup t oid = None"
    and "\<forall>i < table_capacity t. rec_occupied (ot_table t ! i)"
proof -
  note cap = table_invD(1) [OF assms(1)]
  from assms(2) insert_from_cases [OF _ cap]
  have *: "t' = t \<and> table_lookup t oid = None \<and> (\<forall>q < table_capacity t.
      rec_occupied (ot_table t ! probe_idx (table_capacity t) (table_hash (table_capacity t) oid) q))"
    by (fastforce simp: table_insert_def table_lookup_def)
  then show "t' = t" "table_lookup t oid = None" by auto
  show "\<forall>i < table_capacity t. rec_occupied (ot_table t ! i)"
    using * probe_idx_surj [OF cap] by metis
qed

lemma table_insert_Some:
  assumes inv: "table_inv t" and ins: "table_insert t oid sd px qty ts = (t', Some j)"
  shows "table_inv t'" and "table_lookup t' oid = Some j"
    and "table_read t' j = \<lparr>rec_orderId = oid, rec_side = sd, rec_occupied = True,
           rec_cancelled = False, rec_price = px, rec_quantity = qty, rec_timestamp = ts\<rparr>"
    and "k \<noteq> oid \<Longrightarrow> table_view t' k = table_view t k"
proof -
  note cap = table_invD(1) [OF inv]
  let ?w = "(ot_table t ! j)\<lparr>rec_cancelled := False, rec_side := sd, rec_price := px,
    rec_quantity := qty, rec_timestamp := ts\<rparr>"
  from insert_from_cases [OF _ cap] ins
  have j: "j < table_capacity t" and
    cases: "if rec_occupied (ot_table t ! j)
       then table_lookup t oid = Some j \<and> t' = slot_overwrite t j sd px qty ts
       else table_lookup t oid = None \<and> t' = slot_claim t j oid sd px qty ts
            \<and> table_lookup t' oid = Some j"
    by (fastforce simp: table_insert_def table_lookup_def slot_claim_def)+
  have id: "rec_occupied (ot_table t ! j) \<Longrightarrow> rec_orderId (ot_table t ! j) = oid"
    using cases table_lookup_iff [OF inv] by auto
  have rw: "rec_occupied (ot_table t ! j) \<Longrightarrow> table_inv (table_write t j ?w)
      \<and> (\<forall>k. table_lookup (table_write t j ?w) k = table_lookup t k)"
    using table_rewrite [OF inv, of oid j ?w] cases id by auto
  show inv': "table_inv t'"
    using cases rw j table_claim [OF inv]
    by (auto simp: slot_overwrite_as_write split: if_splits)
  show "table_lookup t' oid = Some j"
    using cases rw by (auto simp: slot_overwrite_as_write split: if_splits)
  show "table_read t' j = \<lparr>rec_orderId = oid, rec_side = sd, rec_occupied = True,
           rec_cancelled = False, rec_price = px, rec_quantity = qty, rec_timestamp = ts\<rparr>"
    using cases id j by (auto simp: table_read_def slot_claim_def slot_overwrite_def split: if_splits)
  have same: "ot_table t' ! i = ot_table t ! i" if "i \<noteq> j" for i
    using cases that by (auto simp: slot_claim_def slot_overwrite_def split: if_splits)
  have len: "table_capacity t' = table_capacity t"
    using cases by (auto split: if_splits)
  show "table_view t' k = table_view t k" if "k \<noteq> oid"
  proof -
    have at_j: "table_lookup t k \<noteq> Some j" "table_lookup t' k \<noteq> Some j"
      using that cases table_lookup_iff [OF inv] table_lookup_iff [OF inv'] id j
      by (auto simp: slot_claim_def slot_overwrite_def split: if_splits)
    have "table_lookup t' k = Some i \<longleftrightarrow> table_lookup t k = Some i" for i
      using at_j same [of i] len
      by (cases "i = j") (auto simp: table_lookup_iff [OF inv] table_lookup_iff [OF inv'])
    then have "table_lookup t' k = table_lookup t k"
      by (metis option.exhaust)
    then show ?thesis
      using at_j same by (cases "table_lookup t k") (auto simp: store_view_def table_read_def)
  qed
qed

section \<open>The table provides the interface\<close>

interpretation tbl: order_store table_inv table_lookup table_read table_write table_insert
proof unfold_locales
  show "rec_orderId (table_read t p) = k \<and> rec_occupied (table_read t p)"
    if "table_inv t" "table_lookup t k = Some p" for t k p
    using that table_lookup_iff by (auto simp: table_read_def)
  show "table_inv (table_write t p r)"
    if "table_inv t" "table_lookup t k = Some p" "rec_orderId r = k" "rec_occupied r" for t k p r
    using table_rewrite(1) [OF that] .
  show "table_view (table_write t p r) = (table_view t)(k \<mapsto> r)"
    if h: "table_inv t" "table_lookup t k = Some p" "rec_orderId r = k" "rec_occupied r" for t k p r
  proof
    fix k'
    have p: "p < table_capacity t" using h table_lookup_iff [OF h(1)] by auto
    show "table_view (table_write t p r) k' = ((table_view t)(k \<mapsto> r)) k'"
    proof (cases "table_lookup t k'")
      case None
      then show ?thesis using h table_rewrite(2) [OF h] by (auto simp: store_view_def)
    next
      case (Some i)
      have "k' = k \<longleftrightarrow> i = p"
        using Some h(2) table_lookup_iff [OF h(1), of k' i] table_lookup_iff [OF h(1), of k p]
        by (metis option.inject)
      then show ?thesis
        using Some p table_rewrite(2) [OF h]
        by (auto simp: store_view_def table_read_def table_write_def)
    qed
  qed
  show "t' = t \<and> table_view t k = None"
    if "table_inv t" "table_insert t k sd px qty ts = (t', None)" for t k sd px qty ts t'
    using table_insert_None [OF that] by (simp add: store_view_def)
  show "table_inv t'"
    if "table_inv t" "table_insert t k sd px qty ts = (t', Some p)" for t k sd px qty ts t' p
    using table_insert_Some(1) [OF that] .
  show "table_view t' = (table_view t)(k \<mapsto>
            \<lparr>rec_orderId = k, rec_side = sd, rec_occupied = True, rec_cancelled = False,
             rec_price = px, rec_quantity = qty, rec_timestamp = ts\<rparr>)"
    if "table_inv t" "table_insert t k sd px qty ts = (t', Some p)" for t k sd px qty ts t' p
    using table_insert_Some [OF that] by (auto simp: fun_eq_iff) (simp add: store_view_def)
qed

section \<open>Active orders, erasure and saturation\<close>

definition rec_live :: "OrderRecord \<Rightarrow> bool" where
  "rec_live r \<longleftrightarrow> rec_occupied r \<and> \<not> rec_cancelled r"

definition active_exact :: "OrderTable \<Rightarrow> bool" where
  "active_exact t \<longleftrightarrow> ot_activeCount t = of_nat (length (filter rec_live (ot_table t)))"

lemma active_exact_insert:
  assumes inv: "table_inv t" and act: "active_exact t"
    and ins: "table_insert t oid sd px qty ts = (t', r)"
  shows "active_exact t'"
proof (cases r)
  case None
  then have "t' = t"
    using ins by (intro table_insert_None(1) [OF inv]) simp
  then show ?thesis using act by simp
next
  case (Some j)
  with insert_from_cases [OF _ table_invD(1) [OF inv]] ins
  have j: "j < table_capacity t" and
    "t' = (if rec_occupied (ot_table t ! j) then slot_overwrite t j sd px qty ts
           else slot_claim t j oid sd px qty ts)"
    by (fastforce simp: table_insert_def)+
  then show ?thesis
    using act length_filter_update [OF j, of rec_live
        "(ot_table t ! j)\<lparr>rec_cancelled := False, rec_side := sd, rec_price := px,
            rec_quantity := qty, rec_timestamp := ts\<rparr>"]
      length_filter_update [OF j, of rec_live
        "(ot_table t ! j)\<lparr>rec_orderId := oid, rec_side := sd, rec_price := px,
            rec_quantity := qty, rec_timestamp := ts, rec_occupied := True, rec_cancelled := False\<rparr>"]
    by (auto simp: active_exact_def slot_overwrite_def slot_claim_def rec_live_def split: if_splits)
qed

lemma table_erase_effect:
  assumes inv: "table_inv t" and e: "table_erase t oid = (t', b)"
  shows "table_inv t'"
    and "(\<lambda>k. live_of (table_view t' k)) = (\<lambda>k. live_of (table_view t k))(oid := None)"
    and "b \<longleftrightarrow> live_of (table_view t oid) \<noteq> None"
    and "ot_occupiedCount t' = ot_occupiedCount t"
    and "dom (table_view t') = dom (table_view t)"
proof -
  consider (no) "table_lookup t oid = None" "t' = t" "\<not> b"
    | (tomb) i where "table_lookup t oid = Some i" "rec_cancelled (table_read t i)" "t' = t" "\<not> b"
    | (hit) i where "table_lookup t oid = Some i" "\<not> rec_cancelled (table_read t i)" "b"
        "t' = (table_write t i ((table_read t i)\<lparr>rec_cancelled := True\<rparr>))
           \<lparr>ot_activeCount := (if ot_activeCount t > 0 then ot_activeCount t - 1 else ot_activeCount t)\<rparr>"
    using e by (auto simp: table_erase_def split: option.splits if_splits)
  then have "table_inv t' \<and> (\<lambda>k. live_of (table_view t' k)) = (\<lambda>k. live_of (table_view t k))(oid := None)
    \<and> (b \<longleftrightarrow> live_of (table_view t oid) \<noteq> None) \<and> ot_occupiedCount t' = ot_occupiedCount t
    \<and> dom (table_view t') = dom (table_view t)"
  proof cases
    case no
    then show ?thesis using inv by (auto simp: live_of_def store_view_def fun_eq_iff)
  next
    case tomb
    then show ?thesis using inv by (auto simp: live_of_def store_view_def fun_eq_iff)
  next
    case hit
    let ?r = "(table_read t i)\<lparr>rec_cancelled := True\<rparr>"
    let ?w = "table_write t i ?r"
    have id: "rec_orderId ?r = oid" "rec_occupied ?r" using tbl.look_rd [OF inv hit(1)] by auto
    have "table_view t' = table_view ?w"
      using hit(4) by (simp add: store_view_def fun_eq_iff)
    then have view: "table_view t' = (table_view t)(oid \<mapsto> ?r)"
      using tbl.wr_view [OF inv hit(1) id] by simp
    have old: "table_view t oid = Some (table_read t i)"
      using hit(1) by (simp add: store_view_def)
    have "table_inv t'" using hit(4) tbl.wr_inv [OF inv hit(1) id] by simp
    moreover have "ot_occupiedCount t' = ot_occupiedCount t"
      using hit(4) by (simp add: table_write_def)
    ultimately show ?thesis
      using hit(2,3) old by (auto simp: view live_of_def fun_eq_iff)
  qed
  then show "table_inv t'"
    and "(\<lambda>k. live_of (table_view t' k)) = (\<lambda>k. live_of (table_view t k))(oid := None)"
    and "b \<longleftrightarrow> live_of (table_view t oid) \<noteq> None"
    and "ot_occupiedCount t' = ot_occupiedCount t"
    and "dom (table_view t') = dom (table_view t)"
    by blast+
qed

lemma active_exact_erase:
  assumes inv: "table_inv t" and act: "active_exact t" and e: "table_erase t oid = (t', b)"
  shows "active_exact t'"
proof (cases b)
  case False
  then show ?thesis using act e by (auto simp: table_erase_def split: option.splits if_splits)
next
  case True
  let ?live = "\<lambda>tb. length (filter rec_live tb)"
  from True e obtain i where i: "table_lookup t oid = Some i" "\<not> rec_cancelled (table_read t i)"
    and t': "t' = (table_write t i ((table_read t i)\<lparr>rec_cancelled := True\<rparr>))
           \<lparr>ot_activeCount := (if ot_activeCount t > 0 then ot_activeCount t - 1 else ot_activeCount t)\<rparr>"
    by (auto simp: table_erase_def split: option.splits if_splits)
  have il: "i < table_capacity t" "rec_live (ot_table t ! i)"
    using i table_lookup_iff [OF inv] by (auto simp: table_read_def rec_live_def)
  have dec: "?live (ot_table t) = Suc (?live (ot_table t'))"
    using length_filter_update [OF il(1), of rec_live "(table_read t i)\<lparr>rec_cancelled := True\<rparr>"]
      il(2) t' by (simp add: table_write_def rec_live_def)
  have "?live (ot_table t) < 2 ^ 64"
    by (rule le_less_trans [OF length_filter_le])
      (use table_invD(1) [OF inv] in \<open>simp add: cap_ok_def\<close>)
  then have "(0 :: u64) < of_nat (?live (ot_table t))"
    using dec by (intro u64_pos) auto
  then show ?thesis
    using act t' dec by (simp add: active_exact_def table_write_def)
qed

text \<open>An insertion that succeeds found its id or a free slot.\<close>

lemma occupied_count_full:
  assumes "table_inv t"
  shows "ot_occupiedCount t = of_nat (table_capacity t)
    \<longleftrightarrow> (\<forall>i < table_capacity t. rec_occupied (ot_table t ! i))"
proof -
  have "length (filter rec_occupied (ot_table t)) < 2 ^ 64"
    by (rule le_less_trans [OF length_filter_le])
      (use table_invD(1) [OF assms] in \<open>simp add: cap_ok_def\<close>)
  moreover have "table_capacity t < 2 ^ 64"
    using table_invD(1) [OF assms] by (simp add: cap_ok_def)
  ultimately have "(of_nat (length (filter rec_occupied (ot_table t))) = (of_nat (table_capacity t) :: u64))
      \<longleftrightarrow> length (filter rec_occupied (ot_table t)) = table_capacity t"
    by (simp add: u64_eq_iff)
  then show ?thesis
    using table_invD(3) [OF assms] filter_length_full [of rec_occupied "ot_table t"] by simp
qed

lemma table_insert_not_full:
  assumes inv: "table_inv t" and ins: "table_insert t oid sd px qty ts = (t', Some j)"
    and new: "table_lookup t oid = None"
  shows "ot_occupiedCount t \<noteq> of_nat (table_capacity t)"
proof -
  from insert_from_cases [OF _ table_invD(1) [OF inv]] ins
  have "j < table_capacity t" and "rec_occupied (ot_table t ! j) \<longrightarrow> table_lookup t oid = Some j"
    by (fastforce simp: table_insert_def table_lookup_def)+
  then show ?thesis
    using new occupied_count_full [OF inv] by auto
qed

lemma table_insert_saturated:
  assumes inv: "table_inv t" and ins: "table_insert t oid sd px qty ts = (t', r)"
  shows "table_view t oid = None \<and> ot_occupiedCount t = of_nat (table_capacity t) \<longleftrightarrow> r = None"
proof (cases r)
  case None
  then show ?thesis
    using ins table_insert_None [OF inv, of oid sd px qty ts t'] occupied_count_full [OF inv]
    by (auto simp: store_view_def)
next
  case (Some j)
  then show ?thesis
    using ins table_insert_not_full [OF inv, of oid sd px qty ts t' j] by (auto simp: store_view_def)
qed

section \<open>Properties\<close>

text \<open>C19: The table implements a map from order ids to records. On a well-formed table an insertion
  that returns a slot leaves a well-formed table whose contents are the old ones with the new record
  stored, live, under the given id (an existing record of that id, tombstoned or not, is replaced);
  an insertion that returns \<open>nullptr\<close> changes nothing, and happens exactly when the id is not in the
  table and every one of the \<open>Capacity\<close> slots is occupied.\<close>

theorem table_insert_refines:
  assumes "table_inv t"
  shows "case table_insert t oid sd px qty ts of
      (t', Some j) \<Rightarrow> table_inv t'
        \<and> table_view t' = (table_view t)(oid \<mapsto> \<lparr>rec_orderId = oid, rec_side = sd,
            rec_occupied = True, rec_cancelled = False, rec_price = px, rec_quantity = qty,
            rec_timestamp = ts\<rparr>)
        \<and> \<not> (table_view t oid = None \<and> ot_occupiedCount t = of_nat (table_capacity t))
    | (t', None) \<Rightarrow> t' = t \<and> table_view t oid = None
        \<and> ot_occupiedCount t = of_nat (table_capacity t)"
proof -
  obtain t' r where ins: "table_insert t oid sd px qty ts = (t', r)" by (cases "table_insert t oid sd px qty ts")
  note full = table_insert_saturated [OF assms ins]
  show ?thesis
  proof (cases r)
    case None
    then show ?thesis
      using ins full table_insert_None(1) [OF assms, of oid sd px qty ts t'] by simp
  next
    case (Some j)
    then have ins: "table_insert t oid sd px qty ts = (t', Some j)" using ins by simp
    then show ?thesis
      using full Some tbl.ins_inv [OF assms ins] tbl.ins_view [OF assms ins] by simp
  qed
qed

lemma table_inv_new4: "table_inv (OrderTable_new 4)"
  by (rule table_inv_new) (simp add: cap_ok_def)

text \<open>A table holding one order, for the examples.\<close>

definition ex_table :: OrderTable where
  "ex_table = fst (table_insert (OrderTable_new 4) 7 66 100 5 9)"

lemma table_inv_insert [inv_intros]:
  assumes "table_inv t"
  shows "table_inv (fst (table_insert t oid sd px qty ts))"
proof (cases "table_insert t oid sd px qty ts")
  case (Pair t' r)
  then show ?thesis
    using table_insert_None(1) [OF assms] tbl.ins_inv [OF assms] assms by (cases r) fastforce+
qed

lemma table_inv_ex: "table_inv ex_table"
  unfolding ex_table_def by (intro table_inv_insert table_inv_new4)

theorem table_insert_refines_witness:
  "table_inv (OrderTable_new 4) \<and> (\<exists>t'. table_insert (OrderTable_new 4) 7 66 100 5 9 = (t', Some 2)
     \<and> table_inv t' \<and> table_view t' 7 = Some \<lparr>rec_orderId = 7, rec_side = 66,
            rec_occupied = True, rec_cancelled = False, rec_price = 100, rec_quantity = 5,
            rec_timestamp = 9\<rparr>)"
proof -
  have "snd (table_insert (OrderTable_new 4) 7 66 100 5 9) = Some 2" by code_simp
  then obtain t' where "table_insert (OrderTable_new 4) 7 66 100 5 9 = (t', Some 2)"
    by (cases "table_insert (OrderTable_new 4) 7 66 100 5 9") auto
  then show ?thesis
    using table_insert_refines [OF table_inv_new4, of 7 66 100 5 9] table_inv_new4 by simp
qed

text \<open>\<open>erase\<close> returns true exactly when the id is a live order, removes it from the live orders
  and no other, and leaves its slot occupied: the same ids are still found by \<open>lookup\<close> (probe chains
  through the tombstone stay connected) and \<open>occupiedSlots\<close> does not change.\<close>

theorem table_erase_tombstones:
  assumes "table_inv t"
  shows "case table_erase t oid of (t', b) \<Rightarrow>
      table_inv t' \<and> (b \<longleftrightarrow> live_of (table_view t oid) \<noteq> None)
      \<and> (\<forall>k. live_of (table_view t' k) = (if k = oid then None else live_of (table_view t k)))
      \<and> dom (table_view t') = dom (table_view t)
      \<and> table_occupiedSlots t' = table_occupiedSlots t"
proof -
  obtain t' b where e: "table_erase t oid = (t', b)" by (cases "table_erase t oid")
  show ?thesis
    using table_erase_effect [OF assms e] e
    by (auto simp: table_occupiedSlots_def fun_eq_iff)
qed

theorem table_erase_tombstones_witness:
  "table_inv ex_table \<and> (case table_erase ex_table 7 of (t', b) \<Rightarrow>
      table_inv t' \<and> b \<and> live_of (table_view t' 7) = None \<and> 7 \<in> dom (table_view t'))"
proof -
  obtain t' b where e: "table_erase ex_table 7 = (t', b)" by (cases "table_erase ex_table 7")
  have "snd (table_erase ex_table 7)" by code_simp
  then have b by (simp add: e)
  moreover have "live_of (table_view ex_table 7) = None \<or> 7 \<in> dom (table_view ex_table)"
    by (auto simp: live_of_def split: option.splits)
  ultimately show ?thesis
    using table_erase_tombstones [OF table_inv_ex, of 7] table_inv_ex e by auto
qed

text \<open>\<open>size()\<close> is exact for a table used through its own operations: \<open>insert\<close> and \<open>erase\<close> keep
  the invariant and \<open>activeCount\<close> equal to the number of live records.\<close>

theorem table_size_exact:
  assumes "table_inv t" and "table_size t = of_nat (length (filter rec_live (ot_table t)))"
  shows "table_size (fst (table_insert t oid sd px qty ts))
           = of_nat (length (filter rec_live (ot_table (fst (table_insert t oid sd px qty ts)))))
       \<and> table_size (fst (table_erase t oid))
           = of_nat (length (filter rec_live (ot_table (fst (table_erase t oid)))))"
proof -
  have t: "active_exact t" using assms(2) by (simp add: active_exact_def table_size_def)
  have "active_exact (fst (table_insert t oid sd px qty ts))"
    by (rule active_exact_insert [OF assms(1) t]) (rule prod.collapse [symmetric])
  moreover have "active_exact (fst (table_erase t oid))"
    by (rule active_exact_erase [OF assms(1) t]) (rule prod.collapse [symmetric])
  ultimately show ?thesis by (simp add: active_exact_def table_size_def)
qed

theorem table_size_exact_witness:
  "table_size ex_table = 1
   \<and> table_size (fst (table_erase ex_table 7))
       = of_nat (length (filter rec_live (ot_table (fst (table_erase ex_table 7)))))"
proof -
  have "table_size ex_table = of_nat (length (filter rec_live (ot_table ex_table)))" by code_simp
  note table_size_exact [OF table_inv_ex this, where oid = 7]
  moreover have "table_size ex_table = 1" by code_simp
  ultimately show ?thesis by simp
qed

text \<open>A batch of erasures.\<close>

fun table_erase_all :: "OrderTable \<Rightarrow> u64 list \<Rightarrow> OrderTable" where
  "table_erase_all t [] = t"
| "table_erase_all t (k # ks) = table_erase_all (fst (table_erase t k)) ks"

lemma length_erase [simp]: "table_capacity (fst (table_erase t k)) = table_capacity t"
  by (auto simp: table_erase_def split: option.splits)

lemma table_erase_all_frame:
  assumes "table_inv t"
  shows "table_inv (table_erase_all t ks)
    \<and> ot_occupiedCount (table_erase_all t ks) = ot_occupiedCount t
    \<and> dom (table_view (table_erase_all t ks)) = dom (table_view t)
    \<and> table_capacity (table_erase_all t ks) = table_capacity t"
  using assms
proof (induction ks arbitrary: t)
  case (Cons k ks)
  obtain t' b where e: "table_erase t k = (t', b)" by (cases "table_erase t k")
  show ?case
    using Cons.IH [of t'] table_erase_effect [OF Cons.prems e] e length_erase [of t k] by simp
qed simp

text \<open>Tombstones are never reclaimed. Once every slot of the table has been occupied, erasing
  orders frees nothing: after any number of erasures an insertion of an id the table has not seen
  still returns \<open>nullptr\<close>, however many of the orders have been cancelled.\<close>

theorem table_saturates:
  assumes "table_inv t" and "table_occupiedSlots t = of_nat (table_capacity t)"
    and "table_view t oid = None"
  shows "table_insert (table_erase_all t ks) oid sd px qty ts = (table_erase_all t ks, None)"
proof -
  let ?t = "table_erase_all t ks"
  have t: "table_inv ?t" "ot_occupiedCount ?t = of_nat (table_capacity ?t)" "table_view ?t oid = None"
    using table_erase_all_frame [OF assms(1), of ks] assms(2,3)
    by (auto simp: table_occupiedSlots_def)
  obtain t' r where ins: "table_insert ?t oid sd px qty ts = (t', r)"
    by (cases "table_insert ?t oid sd px qty ts")
  have "r = None"
  proof (rule ccontr)
    assume "r \<noteq> None"
    then obtain j where "table_insert ?t oid sd px qty ts = (t', Some j)" using ins by auto
    from table_insert_not_full [OF t(1) this] t show False by (simp add: store_view_def)
  qed
  then show ?thesis
    using ins table_insert_None(1) [OF t(1)] by simp
qed

text \<open>Two slots, two orders placed and both cancelled: the third order is dropped.\<close>

definition ex_full_table :: OrderTable where
  "ex_full_table = fst (table_insert (fst (table_insert (OrderTable_new 2) 1 66 100 5 0)) 2 83 101 5 0)"

theorem table_saturates_witness:
  "table_size (table_erase_all ex_full_table [1, 2]) = 0
   \<and> snd (table_insert (table_erase_all ex_full_table [1, 2]) 3 66 99 5 0) = None"
proof -
  have inv: "table_inv ex_full_table"
    unfolding ex_full_table_def
    by (intro table_inv_insert table_inv_new) (simp add: cap_ok_def)
  have "table_occupiedSlots ex_full_table = of_nat (table_capacity ex_full_table)" by code_simp
  moreover have "table_lookup ex_full_table 3 = None" by code_simp
  ultimately have "table_insert (table_erase_all ex_full_table [1, 2]) 3 66 99 5 0
      = (table_erase_all ex_full_table [1, 2], None)"
    by (intro table_saturates [OF inv]) (simp_all add: store_view_def)
  moreover have "table_size (table_erase_all ex_full_table [1, 2]) = 0" by code_simp
  ultimately show ?thesis by simp
qed

text \<open>The hash is always a valid slot, below \<open>Capacity\<close> and below \<open>2^21\<close>; at the engine's
  capacity of \<open>2^21\<close> it is the Fibonacci hash of ADR-003, the top \<open>log2 Capacity\<close> bits of the
  64-bit product.\<close>

theorem table_hash_range:
  assumes "cap_ok n"
  shows "table_hash n oid < n \<and> table_hash n oid < 2 ^ 21
    \<and> table_hash (2 ^ 21) oid = unat (drop_bit (64 - 21) (oid * FIBONACCI_PRIME))"
proof -
  have top: "unat (drop_bit 43 w) < 2 ^ 21" for w :: u64
  proof -
    have "unat w < 2 ^ 64" by (rule unat_u64_less)
    then have "unat w div 2 ^ 43 < 2 ^ 21" by (simp add: less_mult_imp_div_less)
    moreover have "unat (drop_bit 43 w) = drop_bit 43 (unat w)" by (rule unat_drop_bit_eq)
    ultimately show ?thesis by (simp only: drop_bit_eq_div)
  qed
  have h: "table_hash n oid = unat (drop_bit 43 (oid * FIBONACCI_PRIME)) mod n" if "cap_ok n" for n
    using that by (simp only: table_hash_def word_and_cap)
  have "cap_ok (2 ^ 21)" by (simp add: cap_ok_def)
  from h [OF this] h [OF assms] show ?thesis
    using top [of "oid * FIBONACCI_PRIME"] assms
    by (auto intro: le_less_trans [OF mod_less_eq_dividend])
qed

theorem table_hash_range_witness: "cap_ok 65536 \<and> table_hash 65536 42 < 65536"
  using table_hash_range [of 65536 42] by (simp add: cap_ok_def)

text \<open>At the default capacity of \<open>2^16\<close> the fixed shift by 43 takes bits 43 to 58, not the top 16
  bits that ADR-003 states.\<close>

lemma table_hash_not_adr:
  "table_hash 65536 1 \<noteq> unat (drop_bit (64 - 16) (1 * FIBONACCI_PRIME))"
  by (simp add: table_hash_def FIBONACCI_PRIME_def)

end
