(* ===== verification/PriceLevels.thy ===== *)
theory PriceLevels
  imports Prelude
begin

text \<open>
  One side of the bounded-array book, the \<open>PriceLevel\<close> array of \<open>include/feed_handler/order_book.hpp\<close>
  with its two private helpers \<open>applyDelta\<close> and \<open>removeLevel\<close>. The template parameter \<open>Depth\<close> is the
  length of the array. The reference routine \<open>side_ref\<close> says on the active levels only what the
  array code computes: update or delete the level, or insert it in price order and keep the best
  \<open>Depth\<close>. The price orders of the two sides are interpretations of the locale \<open>price_order\<close>.
\<close>

section \<open>State\<close>

record PriceLevel =
  lvl_price :: i32
  lvl_quantity :: i32
  lvl_orderCount :: i32
  lvl_active :: bool

definition PriceLevel_zero :: PriceLevel where      \<comment> \<open>\<open>PriceLevel{}\<close>\<close>
  "PriceLevel_zero = \<lparr>lvl_price = 0, lvl_quantity = 0, lvl_orderCount = 0, lvl_active = False\<rparr>"

section \<open>Operations\<close>

text \<open>The comparison \<open>ascending ? (a < b) : (a > b)\<close>.\<close>

definition price_before :: "bool \<Rightarrow> i32 \<Rightarrow> i32 \<Rightarrow> bool" where
  "price_before ascending a b = (if ascending then a <s b else b <s a)"

text \<open>The shifting loop of \<open>removeLevel\<close>, then the cleared last slot.\<close>

function shift_down :: "nat \<Rightarrow> PriceLevel list \<Rightarrow> PriceLevel list" where
  "shift_down i levels =
    (if i + 1 < length levels then shift_down (i + 1) (levels[i := levels ! (i + 1)]) else levels)"
  by pat_completeness auto
termination
  by (relation "measure (\<lambda>(i, levels). length levels - i)") auto

declare shift_down.simps [simp del]

definition removeLevel :: "PriceLevel list \<Rightarrow> nat \<Rightarrow> PriceLevel list" where
  "removeLevel levels idx =
     (let levels = shift_down idx levels in levels[length levels - 1 := PriceLevel_zero])"

text \<open>Step 1, the scan for an active level at the price.\<close>

fun find_price :: "i32 \<Rightarrow> PriceLevel list \<Rightarrow> nat option" where
  "find_price px [] = None"
| "find_price px (l # ls) =
     (if lvl_active l \<and> lvl_price l = px then Some 0 else map_option Suc (find_price px ls))"

text \<open>Step 2, the scan for a free slot; the result is \<open>Depth\<close> when there is none.\<close>

fun find_free :: "PriceLevel list \<Rightarrow> nat" where
  "find_free [] = 0"
| "find_free (l # ls) = (if \<not> lvl_active l then 0 else Suc (find_free ls))"

text \<open>Step 3, bubbling the level at \<open>insertPos\<close> towards the front.\<close>

fun bubble :: "bool \<Rightarrow> nat \<Rightarrow> PriceLevel list \<Rightarrow> PriceLevel list" where
  "bubble ascending 0 levels = levels"
| "bubble ascending (Suc p) levels =
     (if \<not> price_before ascending (lvl_price (levels ! Suc p)) (lvl_price (levels ! p)) then levels
      else bubble ascending p (levels[Suc p := levels ! p, p := levels ! Suc p]))"

definition applyDelta :: "PriceLevel list \<Rightarrow> i32 \<Rightarrow> i32 \<Rightarrow> i32 \<Rightarrow> bool \<Rightarrow> PriceLevel list" where
  "applyDelta levels px qtyDelta orderDelta ascending =
    (case find_price px levels of
       Some i \<Rightarrow>
         (let l = levels ! i;
              l = l\<lparr>lvl_quantity := lvl_quantity l + qtyDelta,
                    lvl_orderCount := lvl_orderCount l + orderDelta\<rparr>;
              levels = levels[i := l]
          in if lvl_quantity l <=s 0 \<or> lvl_orderCount l <=s 0 then removeLevel levels i else levels)
     | None \<Rightarrow>
         if qtyDelta <=s 0 then levels
         else
           (let Depth = length levels; insertPos = find_free levels in
            if insertPos = Depth \<and> \<not> price_before ascending px (lvl_price (levels ! (Depth - 1)))
            then levels
            else
              (let insertPos = (if insertPos = Depth then Depth - 1 else insertPos) in
               bubble ascending insertPos
                 (levels[insertPos := \<lparr>lvl_price = px, lvl_quantity = qtyDelta,
                    lvl_orderCount = (if 0 <s orderDelta then orderDelta else 1),
                    lvl_active = True\<rparr>]))))"

section \<open>Reference routine\<close>

fun ins_level :: "(i32 \<Rightarrow> i32 \<Rightarrow> bool) \<Rightarrow> PriceLevel \<Rightarrow> PriceLevel list \<Rightarrow> PriceLevel list" where
  "ins_level before x [] = [x]"
| "ins_level before x (y # ys) =
     (if before (lvl_price x) (lvl_price y) then x # y # ys else y # ins_level before x ys)"

definition side_ref ::
  "(i32 \<Rightarrow> i32 \<Rightarrow> bool) \<Rightarrow> nat \<Rightarrow> PriceLevel list \<Rightarrow> i32 \<Rightarrow> i32 \<Rightarrow> i32 \<Rightarrow> PriceLevel list" where
  "side_ref before depth act px dq dc =
    (case find (\<lambda>l. lvl_price l = px) act of
       Some l \<Rightarrow>
         (let q = lvl_quantity l + dq; c = lvl_orderCount l + dc in
          if q <=s 0 \<or> c <=s 0 then filter (\<lambda>l. lvl_price l \<noteq> px) act
          else map (\<lambda>l. if lvl_price l = px then l\<lparr>lvl_quantity := q, lvl_orderCount := c\<rparr> else l) act)
     | None \<Rightarrow>
         if dq <=s 0 then act
         else take depth (ins_level before \<lparr>lvl_price = px, lvl_quantity = dq,
                lvl_orderCount = (if 0 <s dc then dc else 1), lvl_active = True\<rparr> act))"

section \<open>Invariant\<close>

definition actives :: "PriceLevel list \<Rightarrow> PriceLevel list" where
  "actives levels = takeWhile lvl_active levels"

definition lvl_pos :: "PriceLevel \<Rightarrow> bool" where
  "lvl_pos l \<longleftrightarrow> lvl_active l \<and> 0 <s lvl_quantity l \<and> 0 <s lvl_orderCount l"

abbreviation lvl_sorted :: "(i32 \<Rightarrow> i32 \<Rightarrow> bool) \<Rightarrow> PriceLevel list \<Rightarrow> bool" where
  "lvl_sorted before act \<equiv> sorted_wrt (\<lambda>a b. before (lvl_price a) (lvl_price b)) act"

text \<open>The active levels come first, strictly in price order, each with a positive quantity and
  order count; the remaining slots are cleared.\<close>

definition side_ok :: "bool \<Rightarrow> PriceLevel list \<Rightarrow> bool" where
  "side_ok ascending levels \<longleftrightarrow>
     lvl_sorted (price_before ascending) (actives levels)
     \<and> list_all lvl_pos (actives levels)
     \<and> dropWhile lvl_active levels
         = replicate (length levels - length (actives levels)) PriceLevel_zero"

section \<open>Price orders\<close>

locale price_order =
  fixes before :: "i32 \<Rightarrow> i32 \<Rightarrow> bool"
  assumes irrefl: "\<not> before a a"
    and trans: "before a b \<Longrightarrow> before b c \<Longrightarrow> before a c"
    and total: "a \<noteq> b \<Longrightarrow> before a b \<or> before b a"
begin

lemma asym: "before a b \<Longrightarrow> \<not> before b a"
  using irrefl trans by blast

lemma sorted_distinct: "lvl_sorted before act \<Longrightarrow> distinct (map lvl_price act)"
  by (induction act) (auto simp: irrefl)

lemma set_ins_level: "set (ins_level before x act) = insert x (set act)"
  by (induction act) auto

lemma length_ins_level [simp]: "length (ins_level before x act) = Suc (length act)"
  by (induction act) auto

lemma sorted_ins_level:
  "lvl_sorted before act \<Longrightarrow> lvl_price x \<notin> lvl_price ` set act
   \<Longrightarrow> lvl_sorted before (ins_level before x act)"
proof (induction act)
  case (Cons y ys)
  then have "before (lvl_price x) (lvl_price y) \<or> before (lvl_price y) (lvl_price x)"
    using total by (simp add: image_iff)
  with Cons show ?case by (auto simp: set_ins_level intro: trans)
qed simp

lemma ins_level_snoc:
  assumes "lvl_sorted before (pre @ [w])" and "lvl_price x \<noteq> lvl_price w"
  shows "ins_level before x (pre @ [w]) =
    (if before (lvl_price x) (lvl_price w) then ins_level before x pre @ [w] else pre @ [w, x])"
  using assms
proof (induction pre)
  case (Cons y ys)
  then have y: "before (lvl_price y) (lvl_price w)" by simp
  have "before (lvl_price x) (lvl_price w)" if "before (lvl_price x) (lvl_price y)"
    using that y by (rule trans)
  with Cons show ?case by auto
qed simp

text \<open>A new worst level is cut when the side is full.\<close>

lemma take_ins_level_full:
  assumes "lvl_sorted before (pre @ [w])" and "lvl_price x \<noteq> lvl_price w"
  shows "take (Suc (length pre)) (ins_level before x (pre @ [w])) =
    (if before (lvl_price x) (lvl_price w) then ins_level before x pre else pre @ [w])"
  by (simp add: ins_level_snoc [OF assms])

end

interpretation side: price_order "price_before ascending" for ascending
proof unfold_locales
  show "\<not> price_before ascending a a" for a
    by (simp add: price_before_def sless_iff)
  show "price_before ascending a b \<Longrightarrow> price_before ascending b c \<Longrightarrow> price_before ascending a c"
    for a b c
    by (simp add: price_before_def sless_iff split: if_splits)
  show "a \<noteq> b \<Longrightarrow> price_before ascending a b \<or> price_before ascending b a" for a b
    by (auto simp: price_before_def sless_iff simp flip: sint_inj)
qed

section \<open>The array routines on a well-formed side\<close>

text \<open>A well-formed side is its active levels followed by cleared slots.\<close>

abbreviation padded :: "PriceLevel list \<Rightarrow> nat \<Rightarrow> PriceLevel list" where
  "padded act k \<equiv> act @ replicate k PriceLevel_zero"

lemma zero_inactive [simp]: "\<not> lvl_active PriceLevel_zero"
  by (simp add: PriceLevel_zero_def)

lemma actives_padded: "list_all lvl_pos act \<Longrightarrow> actives (padded act k) = act"
  by (induction act) (auto simp: actives_def lvl_pos_def takeWhile_replicate)

lemma dropWhile_padded:
  "list_all lvl_pos act \<Longrightarrow> dropWhile lvl_active (padded act k) = replicate k PriceLevel_zero"
  by (induction act) (auto simp: lvl_pos_def dropWhile_replicate)

lemma side_ok_padded:
  "list_all lvl_pos act \<Longrightarrow> side_ok ascending (padded act k)
     \<longleftrightarrow> lvl_sorted (price_before ascending) act"
  by (simp add: side_ok_def actives_padded dropWhile_padded)

lemma side_okE:
  assumes "side_ok ascending levels"
  obtains act k where "levels = padded act k" and "act = actives levels"
    and "lvl_sorted (price_before ascending) act" and "list_all lvl_pos act"
  using assms takeWhile_dropWhile_id [of lvl_active levels]
  by (metis actives_def side_ok_def)

lemma find_price_absent:
  "px \<notin> lvl_price ` set act \<Longrightarrow> find_price px (padded act k) = None"
proof (induction act)
  case Nil
  then show ?case by (induction k) auto
qed auto

lemma find_price_present:
  "px \<notin> lvl_price ` set a \<Longrightarrow> lvl_active l \<Longrightarrow> lvl_price l = px
   \<Longrightarrow> find_price px (a @ l # b) = Some (length a)"
  by (induction a) auto

lemma find_free_padded: "list_all lvl_pos act \<Longrightarrow> find_free (padded act k) = length act"
proof (induction act)
  case Nil
  then show ?case by (cases k) auto
qed (auto simp: lvl_pos_def)

lemma shift_down_at:
  "shift_down (length a) (a @ l # b) = a @ b @ [if b = [] then l else last b]"
proof (induction b arbitrary: a l)
  case Nil
  then show ?case by (simp add: shift_down.simps)
next
  case (Cons x b)
  have "shift_down (length a) (a @ l # x # b) = shift_down (length (a @ [x])) ((a @ [x]) @ x # b)"
    by (subst shift_down.simps) (simp add: nth_append list_update_append)
  also have "\<dots> = (a @ [x]) @ b @ [if b = [] then x else last b]"
    by (rule Cons.IH)
  finally show ?case by simp
qed

lemma removeLevel_at: "removeLevel (a @ l # b) (length a) = a @ b @ [PriceLevel_zero]"
  by (simp add: removeLevel_def shift_down_at list_update_append)

lemma bubble_ins:
  assumes "lvl_sorted (price_before ascending) pre" and "lvl_price x \<notin> lvl_price ` set pre"
  shows "bubble ascending (length pre) (pre @ x # post) =
    ins_level (price_before ascending) x pre @ post"
  using assms
proof (induction pre arbitrary: post rule: rev_induct)
  case (snoc w pre)
  have step: "bubble ascending (length (pre @ [w])) ((pre @ [w]) @ x # post) =
      (if price_before ascending (lvl_price x) (lvl_price w)
       then bubble ascending (length pre) (pre @ x # w # post) else pre @ w # x # post)"
    by (simp add: nth_append list_update_append)
  have "lvl_price x \<noteq> lvl_price w" "lvl_sorted (price_before ascending) pre"
    "lvl_price x \<notin> lvl_price ` set pre"
    using snoc.prems by (auto simp: sorted_wrt_append)
  then show ?case
    using step snoc.IH [of "w # post"] side.ins_level_snoc [OF snoc.prems(1), of x] by simp
qed simp

text \<open>The three things \<open>applyDelta\<close> can do, on a padded list.\<close>

lemma applyDelta_present:
  assumes "px \<notin> lvl_price ` set a" and "lvl_pos l" and "lvl_price l = px"
  shows "applyDelta (padded (a @ l # b) k) px dq dc ascending =
    (let q = lvl_quantity l + dq; c = lvl_orderCount l + dc in
     if q <=s 0 \<or> c <=s 0 then padded (a @ b) (Suc k)
     else padded (a @ l\<lparr>lvl_quantity := q, lvl_orderCount := c\<rparr> # b) k)"
proof -
  have "find_price px (padded (a @ l # b) k) = Some (length a)"
    using assms find_price_present [of px a l] by (simp add: lvl_pos_def)
  then show ?thesis
    by (simp add: applyDelta_def Let_def list_update_append removeLevel_at replicate_append_same)
qed

lemma applyDelta_absent_noop:
  assumes "px \<notin> lvl_price ` set act" and "dq <=s 0"
  shows "applyDelta (padded act k) px dq dc ascending = padded act k"
  using assms by (simp add: applyDelta_def find_price_absent)

lemma applyDelta_absent_room:
  assumes "px \<notin> lvl_price ` set act" and "0 <s dq" and "list_all lvl_pos act"
    and "lvl_sorted (price_before ascending) act"
  shows "applyDelta (padded act (Suc k)) px dq dc ascending =
    padded (ins_level (price_before ascending) \<lparr>lvl_price = px, lvl_quantity = dq,
       lvl_orderCount = (if 0 <s dc then dc else 1), lvl_active = True\<rparr> act) k"
  using assms find_price_absent [OF assms(1), of "Suc k"] find_free_padded [OF assms(3), of "Suc k"]
    bubble_ins [OF assms(4)]
  by (simp add: applyDelta_def Let_def list_update_append flip: not_sle_iff)

lemma applyDelta_absent_full:
  assumes "px \<notin> lvl_price ` set (pre @ [w])" and "0 <s dq" and "list_all lvl_pos (pre @ [w])"
    and "lvl_sorted (price_before ascending) (pre @ [w])"
  shows "applyDelta (pre @ [w]) px dq dc ascending =
    (if price_before ascending px (lvl_price w)
     then ins_level (price_before ascending) \<lparr>lvl_price = px, lvl_quantity = dq,
        lvl_orderCount = (if 0 <s dc then dc else 1), lvl_active = True\<rparr> pre
     else pre @ [w])"
proof -
  have "lvl_sorted (price_before ascending) pre"
    using assms(4) by (simp add: sorted_wrt_append)
  then show ?thesis
    using assms find_price_absent [OF assms(1), of 0] find_free_padded [OF assms(3), of 0]
      bubble_ins [of ascending pre _ "[]"]
    by (simp add: applyDelta_def Let_def nth_append list_update_append flip: not_sle_iff)
qed

section \<open>Refinement of the reference routine\<close>

lemma side_ref_present:
  assumes "distinct (map lvl_price (a @ l # b))" and "lvl_price l = px"
  shows "side_ref before depth (a @ l # b) px dq dc =
    (let q = lvl_quantity l + dq; c = lvl_orderCount l + dc in
     if q <=s 0 \<or> c <=s 0 then a @ b
     else a @ l\<lparr>lvl_quantity := q, lvl_orderCount := c\<rparr> # b)"
proof -
  have a: "\<forall>x \<in> set a. lvl_price x \<noteq> px" and b: "\<forall>x \<in> set b. lvl_price x \<noteq> px"
    using assms by (auto simp: image_iff)
  have "find (\<lambda>l. lvl_price l = px) (a @ l # b) = Some l"
    using a assms(2) by (induction a) auto
  moreover have "filter (\<lambda>l. lvl_price l \<noteq> px) (a @ l # b) = a @ b"
    using a b assms(2) by (simp add: filter_True)
  moreover have "map (\<lambda>l. if lvl_price l = px then l\<lparr>lvl_quantity := q, lvl_orderCount := c\<rparr> else l)
      (a @ l # b) = a @ l\<lparr>lvl_quantity := q, lvl_orderCount := c\<rparr> # b" for q c
    using a b assms(2) by (simp add: map_idI)
  ultimately show ?thesis by (simp add: side_ref_def Let_def)
qed

lemma side_ref_absent:
  assumes "px \<notin> lvl_price ` set act"
  shows "side_ref before depth act px dq dc =
    (if dq <=s 0 then act
     else take depth (ins_level before \<lparr>lvl_price = px, lvl_quantity = dq,
            lvl_orderCount = (if 0 <s dc then dc else 1), lvl_active = True\<rparr> act))"
proof -
  have "find (\<lambda>l. lvl_price l = px) act = None"
    using assms by (auto simp: find_None_iff)
  then show ?thesis by (simp add: side_ref_def)
qed

lemma new_level_pos [simp]:
  "0 <s dq \<Longrightarrow> lvl_pos \<lparr>lvl_price = px, lvl_quantity = dq,
     lvl_orderCount = (if 0 <s dc then dc else 1), lvl_active = True\<rparr>"
  by (simp add: lvl_pos_def sless_iff)

text \<open>The result is again a padded list of the same length, holding the reference's levels.\<close>

lemma applyDelta_padded:
  assumes sorted: "lvl_sorted (price_before ascending) act" and pos: "list_all lvl_pos act"
    and ne: "act \<noteq> [] \<or> 0 < k"
  shows "\<exists>act' k'. applyDelta (padded act k) px dq dc ascending = padded act' k'
    \<and> act' = side_ref (price_before ascending) (length act + k) act px dq dc
    \<and> length act' + k' = length act + k
    \<and> lvl_sorted (price_before ascending) act' \<and> list_all lvl_pos act'"
proof (cases "px \<in> lvl_price ` set act")
  case True
  then obtain a l b where act: "act = a @ l # b" and l: "lvl_price l = px"
    by (metis imageE split_list)
  have dist: "distinct (map lvl_price (a @ l # b))"
    using side.sorted_distinct [OF sorted] by (simp only: act)
  then have a: "px \<notin> lvl_price ` set a" using l by auto
  have lp: "lvl_pos l" using pos by (simp add: act)
  let ?gone = "lvl_quantity l + dq <=s 0 \<or> lvl_orderCount l + dc <=s 0"
  show ?thesis
  proof (cases ?gone)
    case True
    then show ?thesis
      using applyDelta_present [OF a lp l, of b k dq dc ascending] sorted pos
      by (intro exI [of _ "a @ b"] exI [of _ "Suc k"])
        (auto simp: act side_ref_present [OF dist l] Let_def sorted_wrt_append)
  next
    case False
    then show ?thesis
      using applyDelta_present [OF a lp l, of b k dq dc ascending] sorted pos
      by (intro exI [of _ "a @ l\<lparr>lvl_quantity := lvl_quantity l + dq,
            lvl_orderCount := lvl_orderCount l + dc\<rparr> # b"] exI [of _ k])
        (auto simp: act side_ref_present [OF dist l] Let_def sorted_wrt_append lvl_pos_def not_sle_iff)
  qed
next
  case absent: False
  let ?new = "\<lparr>lvl_price = px, lvl_quantity = dq,
     lvl_orderCount = (if 0 <s dc then dc else 1), lvl_active = True\<rparr>"
  show ?thesis
  proof (cases "dq <=s 0")
    case True
    then show ?thesis
      using applyDelta_absent_noop [OF absent True] side_ref_absent [OF absent] sorted pos
      by (intro exI [of _ act] exI [of _ k]) simp
  next
    case False
    then have dq: "0 <s dq" by (simp add: not_sle_iff)
    show ?thesis
    proof (cases k)
      case (Suc k')
      then show ?thesis
        using applyDelta_absent_room [OF absent dq pos sorted, of k' dc] False
          side_ref_absent [OF absent] pos side.sorted_ins_level [OF sorted, of ?new] absent dq
        by (intro exI [of _ "ins_level (price_before ascending) ?new act"] exI [of _ k'])
          (auto simp: list_all_iff side.set_ins_level)
    next
      case 0
      with ne obtain pre w where act: "act = pre @ [w]" by (metis less_irrefl rev_exhaust)
      let ?act' = "if price_before ascending px (lvl_price w)
        then ins_level (price_before ascending) ?new pre else pre @ [w]"
      have "applyDelta (padded act k) px dq dc ascending = ?act'"
        using applyDelta_absent_full [of px pre w dq ascending dc] absent dq pos sorted 0
        by (simp add: act)
      moreover have "side_ref (price_before ascending) (length act + k) act px dq dc = ?act'"
        using side_ref_absent [OF absent] side.take_ins_level_full [of ascending pre w ?new]
          sorted absent False 0 by (simp add: act)
      moreover have "lvl_sorted (price_before ascending) ?act'"
        using sorted absent side.sorted_ins_level [of ascending pre ?new]
        by (simp add: act sorted_wrt_append)
      moreover have "list_all lvl_pos ?act'"
        using pos dq by (simp add: act list_all_iff side.set_ins_level)
      ultimately show ?thesis
        using 0 by (intro exI [of _ ?act'] exI [of _ 0]) (simp add: act)
    qed
  qed
qed

lemma applyDelta_side_ok [inv_intros]:
  assumes "side_ok ascending levels" and "levels \<noteq> []"
  shows "side_ok ascending (applyDelta levels px dq dc ascending)"
    and "length (applyDelta levels px dq dc ascending) = length levels"
    and "actives (applyDelta levels px dq dc ascending)
       = side_ref (price_before ascending) (length levels) (actives levels) px dq dc"
proof -
  obtain act k where lv: "levels = padded act k" "act = actives levels"
    "lvl_sorted (price_before ascending) act" "list_all lvl_pos act"
    using side_okE [OF assms(1)] .
  have "act \<noteq> [] \<or> 0 < k" using assms(2) lv(1) by auto
  from applyDelta_padded [OF lv(3,4) this, of px dq dc] obtain act' k' where
    *: "applyDelta levels px dq dc ascending = padded act' k'"
    "act' = side_ref (price_before ascending) (length act + k) act px dq dc"
    "length act' + k' = length act + k"
    "lvl_sorted (price_before ascending) act'" "list_all lvl_pos act'"
    unfolding lv(1) by metis
  show "side_ok ascending (applyDelta levels px dq dc ascending)"
    using * by (simp add: side_ok_padded)
  show "length (applyDelta levels px dq dc ascending) = length levels"
    using * lv(1) by simp
  have "length levels = length act + k" using lv(1) by simp
  then show "actives (applyDelta levels px dq dc ascending)
       = side_ref (price_before ascending) (length levels) (actives levels) px dq dc"
    using * lv(2) by (simp add: actives_padded)
qed

lemma side_ok_cleared [inv_intros]: "side_ok ascending (replicate n PriceLevel_zero)"
  using side_ok_padded [of "[]" ascending n] by simp

text \<open>The invariant slot by slot.\<close>

lemma side_ok_nth:
  assumes "side_ok ascending levels" and "j < length levels" and "lvl_active (levels ! j)"
  shows "lvl_pos (levels ! j)"
    and "i < j \<Longrightarrow> lvl_active (levels ! i)
      \<and> price_before ascending (lvl_price (levels ! i)) (lvl_price (levels ! j))"
proof -
  obtain act k where lv: "levels = padded act k" "act = actives levels"
    "lvl_sorted (price_before ascending) act" "list_all lvl_pos act"
    using side_okE [OF assms(1)] .
  have j: "j < length act"
    using assms(2,3) lv(1) by (auto simp: nth_append not_less split: if_splits)
  then show "lvl_pos (levels ! j)" using lv(1,4) by (simp add: nth_append list_all_length)
  assume "i < j"
  then show "lvl_active (levels ! i)
      \<and> price_before ascending (lvl_price (levels ! i)) (lvl_price (levels ! j))"
    using j lv(1,4) sorted_wrt_nth_less [OF lv(3), of i j]
    by (simp add: nth_append list_all_length lvl_pos_def)
qed

section \<open>The side as a map from prices\<close>

definition lvl_pair :: "PriceLevel \<Rightarrow> i32 \<times> i32 \<times> i32" where
  "lvl_pair l = (lvl_price l, lvl_quantity l, lvl_orderCount l)"

text \<open>Price to aggregate quantity and order count, of the visible levels.\<close>

definition level_at :: "PriceLevel list \<Rightarrow> i32 \<Rightarrow> (i32 \<times> i32) option" where
  "level_at levels = map_of (map lvl_pair (actives levels))"

definition side_full :: "PriceLevel list \<Rightarrow> bool" where
  "side_full levels \<longleftrightarrow> length (actives levels) = length levels"

lemma fst_lvl_pair [simp]: "fst (lvl_pair l) = lvl_price l" "fst \<circ> lvl_pair = lvl_price"
  by (simp_all add: lvl_pair_def fun_eq_iff)

lemma dom_level_at: "dom (level_at levels) = lvl_price ` set (actives levels)"
  by (simp add: level_at_def dom_map_of_conv_image_fst image_image)

lemma level_at_SomeD:
  "level_at levels px = Some (q, c)
   \<Longrightarrow> \<exists>l \<in> set (actives levels). lvl_price l = px \<and> lvl_quantity l = q \<and> lvl_orderCount l = c"
  by (auto simp: level_at_def lvl_pair_def dest!: map_of_SomeD)

lemma map_of_ins_level:
  "lvl_price x \<notin> lvl_price ` set act \<Longrightarrow>
   map_of (map lvl_pair (ins_level before x act)) =
     (map_of (map lvl_pair act))(lvl_price x \<mapsto> (lvl_quantity x, lvl_orderCount x))"
  by (induction act) (auto simp: lvl_pair_def fun_eq_iff)

lemma map_of_absent: "px \<notin> lvl_price ` set act \<Longrightarrow> map_of (map lvl_pair act) px = None"
  by (auto simp: map_of_eq_None_iff)

lemma level_at_present:
  assumes ok: "side_ok ascending levels" and at: "level_at levels px = Some (q, c)"
  shows "level_at (applyDelta levels px dq dc ascending) = (level_at levels)
    (px := (if q + dq <=s 0 \<or> c + dc <=s 0 then None else Some (q + dq, c + dc)))"
proof -
  obtain act k where lv: "levels = padded act k" "act = actives levels"
    "lvl_sorted (price_before ascending) act" "list_all lvl_pos act"
    using side_okE [OF ok] .
  obtain l where l: "l \<in> set act" "lvl_price l = px" "lvl_quantity l = q" "lvl_orderCount l = c"
    using level_at_SomeD [OF at] lv(2) by blast
  then obtain a b where act: "act = a @ l # b" by (metis split_list)
  have dist: "distinct (map lvl_price (a @ l # b))"
    using side.sorted_distinct [OF lv(3)] by (simp only: act)
  then have ab: "px \<notin> lvl_price ` set a" "px \<notin> lvl_price ` set b" using l by auto
  have "levels \<noteq> []" using lv(1) act by simp
  note ref = applyDelta_side_ok(3) [OF ok this, of px dq dc]
  show ?thesis
    unfolding level_at_def ref lv(2) [symmetric] act side_ref_present [OF dist l(2)]
    using ab l map_of_absent [OF ab(1)] map_of_absent [OF ab(2)]
    by (auto simp: Let_def fun_eq_iff map_add_def lvl_pair_def split: option.splits)
qed

lemma level_at_absent_noop:
  assumes ok: "side_ok ascending levels" and ne: "levels \<noteq> []"
    and at: "level_at levels px = None" and dq: "dq <=s 0"
  shows "level_at (applyDelta levels px dq dc ascending) = level_at levels"
proof -
  have "px \<notin> lvl_price ` set (actives levels)" using at by (auto simp flip: dom_level_at)
  then show ?thesis
    using applyDelta_side_ok(3) [OF ok ne, of px dq dc] dq
    by (simp add: level_at_def side_ref_absent)
qed

lemma level_at_absent_room:
  assumes ok: "side_ok ascending levels" and at: "level_at levels px = None" and dq: "0 <s dq"
    and room: "\<not> side_full levels"
  shows "level_at (applyDelta levels px dq dc ascending) =
    (level_at levels)(px \<mapsto> (dq, if 0 <s dc then dc else 1))"
proof -
  have len: "length (actives levels) < length levels"
    using room length_takeWhile_le [of lvl_active levels] by (simp add: side_full_def actives_def)
  then have ne: "levels \<noteq> []" by auto
  have absent: "px \<notin> lvl_price ` set (actives levels)" using at by (auto simp flip: dom_level_at)
  then show ?thesis
    using applyDelta_side_ok(3) [OF ok ne, of px dq dc] dq len
    by (simp add: level_at_def side_ref_absent map_of_ins_level flip: not_sle_iff)
qed

text \<open>The front slot is the best visible price.\<close>

lemma front_best:
  assumes ok: "side_ok ascending levels" and ne: "levels \<noteq> []"
  shows "lvl_active (levels ! 0) \<longleftrightarrow> dom (level_at levels) \<noteq> {}"
    and "lvl_active (levels ! 0) \<Longrightarrow>
      level_at levels (lvl_price (levels ! 0)) = Some (lvl_quantity (levels ! 0), lvl_orderCount (levels ! 0))
      \<and> (\<forall>px \<in> dom (level_at levels). px = lvl_price (levels ! 0)
          \<or> price_before ascending (lvl_price (levels ! 0)) px)"
proof -
  obtain act k where lv: "levels = padded act k" "act = actives levels"
    "lvl_sorted (price_before ascending) act" "list_all lvl_pos act"
    using side_okE [OF ok] .
  have hd: "act \<noteq> [] \<Longrightarrow> levels ! 0 = hd act" using lv(1) by (cases act) auto
  have nil: "act = [] \<Longrightarrow> levels ! 0 = PriceLevel_zero" using lv(1) ne by (cases k) auto
  show iff: "lvl_active (levels ! 0) \<longleftrightarrow> dom (level_at levels) \<noteq> {}"
    using hd nil lv(4) by (cases act) (auto simp: dom_level_at lv(2) [symmetric] lvl_pos_def)
  show "level_at levels (lvl_price (levels ! 0)) = Some (lvl_quantity (levels ! 0), lvl_orderCount (levels ! 0))
      \<and> (\<forall>px \<in> dom (level_at levels). px = lvl_price (levels ! 0)
          \<or> price_before ascending (lvl_price (levels ! 0)) px)"
    if front: "lvl_active (levels ! 0)"
  proof
    from front nil have "act \<noteq> []" by auto
    then have act: "act = levels ! 0 # tl act" using hd by simp
    show "level_at levels (lvl_price (levels ! 0)) = Some (lvl_quantity (levels ! 0), lvl_orderCount (levels ! 0))"
      by (subst level_at_def, subst lv(2) [symmetric], subst act) (simp add: lvl_pair_def)
    show "\<forall>px \<in> dom (level_at levels). px = lvl_price (levels ! 0)
          \<or> price_before ascending (lvl_price (levels ! 0)) px"
      using lv(3) by (subst (asm) act) (auto simp: dom_level_at lv(2) [symmetric], subst (asm) act, auto)
  qed
qed

section \<open>Properties\<close>

text \<open>C20: \<open>applyDelta\<close> computes the reference routine. On a well-formed side of any depth, for any
  price, quantity delta and order delta, the scan, insertion and bubbling over the array leave a
  well-formed side of the same depth whose active levels are exactly those of \<open>side_ref\<close>: the level
  is updated, or deleted when its quantity or count drops to zero or below; a new price with a
  positive delta is inserted in price order and only the best \<open>Depth\<close> levels are kept; anything
  else changes nothing.\<close>

theorem applyDelta_refines:
  assumes "side_ok ascending levels" and "levels \<noteq> []"
  shows "side_ok ascending (applyDelta levels px dq dc ascending)
    \<and> length (applyDelta levels px dq dc ascending) = length levels
    \<and> actives (applyDelta levels px dq dc ascending)
        = side_ref (price_before ascending) (length levels) (actives levels) px dq dc"
  using applyDelta_side_ok [OF assms] by blast

text \<open>Four bids through a book of depth three: the lowest one is cut.\<close>

definition ex_side :: "PriceLevel list" where
  "ex_side = applyDelta (applyDelta (applyDelta (replicate 3 PriceLevel_zero)
      9900 10 1 False) 10000 20 1 False) 9950 30 1 False"

lemma side_ok_ex: "side_ok False ex_side"
  by code_simp

lemma ex_side_ne: "ex_side \<noteq> []"
  by code_simp

theorem applyDelta_refines_witness:
  "map lvl_price (actives (applyDelta ex_side 9800 40 1 False)) = [10000, 9950, 9900]
   \<and> map lvl_price (actives (applyDelta ex_side 9975 40 1 False)) = [10000, 9975, 9950]"
proof -
  have "map lvl_price (side_ref (price_before False) (length ex_side) (actives ex_side) 9800 40 1)
      = [10000, 9950, 9900]" by code_simp
  moreover have "map lvl_price (side_ref (price_before False) (length ex_side) (actives ex_side) 9975 40 1)
      = [10000, 9975, 9950]" by code_simp
  ultimately show ?thesis
    using applyDelta_refines [OF side_ok_ex ex_side_ne] by metis
qed

end
