(* ===== verification/OrderBook.thy ===== *)
theory OrderBook
  imports Protocol OrderTable PriceLevels
begin

text \<open>
  The limit order book engine, class \<open>LimitOrderBook\<close> of \<open>include/feed_handler/order_book.hpp\<close>:
  message dispatch with sequence tracking, the three handlers, and the market-data getters. The
  abstract book is the map of live orders; the lemmas show that the table refines it and that, under
  the conditions collected in \<open>step_ok\<close>, the two price ladders show exactly its aggregates.
\<close>

section \<open>State\<close>

record LimitOrderBook =
  lob_orderTable :: OrderTable
  lob_bids :: "PriceLevel list"
  lob_asks :: "PriceLevel list"
  lob_totalMessagesProcessed :: u64
  lob_expectedSeqNo :: u64
  lob_sequenceGapsDetected :: u64
  lob_tradesExecutedCount :: u64

definition lob_reset :: "LimitOrderBook \<Rightarrow> LimitOrderBook" where
  "lob_reset b = \<lparr>lob_orderTable = table_clear (lob_orderTable b),
     lob_bids = replicate (length (lob_bids b)) PriceLevel_zero,
     lob_asks = replicate (length (lob_asks b)) PriceLevel_zero,
     lob_totalMessagesProcessed = 0, lob_expectedSeqNo = 1, lob_sequenceGapsDetected = 0,
     lob_tradesExecutedCount = 0\<rparr>"

definition LimitOrderBook_new :: "nat \<Rightarrow> nat \<Rightarrow> LimitOrderBook" where
  "LimitOrderBook_new Depth TableCapacity = lob_reset
     \<lparr>lob_orderTable = OrderTable_new TableCapacity,
      lob_bids = replicate Depth PriceLevel_zero, lob_asks = replicate Depth PriceLevel_zero,
      lob_totalMessagesProcessed = 0, lob_expectedSeqNo = 1, lob_sequenceGapsDetected = 0,
      lob_tradesExecutedCount = 0\<rparr>"

section \<open>Handlers\<close>

text \<open>Both sides are updated the same way: \<open>'B'\<close> selects the bids, anything else the asks.\<close>

definition apply_side :: "LimitOrderBook \<Rightarrow> byte \<Rightarrow> i32 \<Rightarrow> i32 \<Rightarrow> i32 \<Rightarrow> LimitOrderBook" where
  "apply_side b sd px qtyDelta orderDelta =
     (if sd = chB then b\<lparr>lob_bids := applyDelta (lob_bids b) px qtyDelta orderDelta False\<rparr>
      else b\<lparr>lob_asks := applyDelta (lob_asks b) px qtyDelta orderDelta True\<rparr>)"

definition processAdd :: "LimitOrderBook \<Rightarrow> AddOrderMsg \<Rightarrow> LimitOrderBook" where
  "processAdd b msg =
     (case table_insert (lob_orderTable b) (add_orderId msg) (add_side msg) (add_price msg)
             (add_quantity msg) (add_timestampNs msg) of
        (t, None) \<Rightarrow> b\<lparr>lob_orderTable := t\<rparr>
      | (t, Some rec) \<Rightarrow>
          apply_side (b\<lparr>lob_orderTable := t\<rparr>) (add_side msg) (add_price msg) (add_quantity msg) 1)"

text \<open>The tail of the two reducing handlers: \<open>rec->quantity = q; if (...) rec->cancelled = true\<close>.\<close>

definition set_remaining :: "LimitOrderBook \<Rightarrow> nat \<Rightarrow> i32 \<Rightarrow> bool \<Rightarrow> LimitOrderBook" where
  "set_remaining b p q done =
     (let t = lob_orderTable b;
          t = table_write t p ((table_read t p)\<lparr>rec_quantity := q\<rparr>);
          t = (if done then table_write t p ((table_read t p)\<lparr>rec_cancelled := True\<rparr>) else t)
      in b\<lparr>lob_orderTable := t\<rparr>)"

definition processCancel :: "LimitOrderBook \<Rightarrow> CancelOrderMsg \<Rightarrow> LimitOrderBook" where
  "processCancel b msg =
     (case table_lookup (lob_orderTable b) (cancel_orderId msg) of
        None \<Rightarrow> b
      | Some p \<Rightarrow>
          let r = table_read (lob_orderTable b) p in
          if rec_cancelled r then b
          else
            let qtyDelta = cancel_quantity msg - rec_quantity r;
                orderDelta = (if cancel_quantity msg <=s 0 then - 1 else 0);
                b = apply_side b (rec_side r) (rec_price r) qtyDelta orderDelta
            in set_remaining b p (cancel_quantity msg) (cancel_quantity msg <=s 0))"

definition processExecute :: "LimitOrderBook \<Rightarrow> ExecuteOrderMsg \<Rightarrow> LimitOrderBook" where
  "processExecute b msg =
     (let b = b\<lparr>lob_tradesExecutedCount := lob_tradesExecutedCount b + 1\<rparr> in
      case table_lookup (lob_orderTable b) (exec_orderId msg) of
        None \<Rightarrow> b
      | Some p \<Rightarrow>
          let r = table_read (lob_orderTable b) p in
          if rec_cancelled r then b
          else
            let newQty = (if exec_execQuantity msg <s rec_quantity r
                          then rec_quantity r - exec_execQuantity msg else 0);
                qtyDelta = - exec_execQuantity msg;
                orderDelta = (if newQty = 0 then - 1 else 0);
                b = apply_side b (rec_side r) (rec_price r) qtyDelta orderDelta
            in set_remaining b p newQty (newQty = 0))"

text \<open>The sequence check in front of the dispatch.\<close>

definition track_seq :: "LimitOrderBook \<Rightarrow> u64 \<Rightarrow> LimitOrderBook" where
  "track_seq b s =
     (if lob_expectedSeqNo b > 0 \<and> s \<noteq> lob_expectedSeqNo b then
        b\<lparr>lob_sequenceGapsDetected :=
            (if s > lob_expectedSeqNo b
             then lob_sequenceGapsDetected b + (s - lob_expectedSeqNo b)
             else lob_sequenceGapsDetected b),
          lob_expectedSeqNo := s + 1\<rparr>
      else b\<lparr>lob_expectedSeqNo := lob_expectedSeqNo b + 1\<rparr>)"

definition processMessage :: "LimitOrderBook \<Rightarrow> WireMessage \<Rightarrow> LimitOrderBook" where
  "processMessage b msg =
     (let b = b\<lparr>lob_totalMessagesProcessed := lob_totalMessagesProcessed b + 1\<rparr>;
          b = track_seq b (seqNo msg)
      in if msgType msg = chA then processAdd b (wire_add msg)
         else if msgType msg = chX then processCancel b (wire_cancel msg)
         else if msgType msg = chE then processExecute b (wire_exec msg)
         else b)"

definition processAll :: "LimitOrderBook \<Rightarrow> WireMessage list \<Rightarrow> LimitOrderBook" where
  "processAll = foldl processMessage"

section \<open>Getters\<close>

definition hasBids :: "LimitOrderBook \<Rightarrow> bool" where
  "hasBids b = lvl_active (lob_bids b ! 0)"

definition hasAsks :: "LimitOrderBook \<Rightarrow> bool" where
  "hasAsks b = lvl_active (lob_asks b ! 0)"

definition bestBidPrice :: "LimitOrderBook \<Rightarrow> i32" where
  "bestBidPrice b = (if lvl_active (lob_bids b ! 0) then lvl_price (lob_bids b ! 0) else 0)"

definition bestAskPrice :: "LimitOrderBook \<Rightarrow> i32" where
  "bestAskPrice b = (if lvl_active (lob_asks b ! 0) then lvl_price (lob_asks b ! 0) else 0)"

definition bestBidQuantity :: "LimitOrderBook \<Rightarrow> i32" where
  "bestBidQuantity b = (if lvl_active (lob_bids b ! 0) then lvl_quantity (lob_bids b ! 0) else 0)"

definition bestAskQuantity :: "LimitOrderBook \<Rightarrow> i32" where
  "bestAskQuantity b = (if lvl_active (lob_asks b ! 0) then lvl_quantity (lob_asks b ! 0) else 0)"

definition spread :: "LimitOrderBook \<Rightarrow> i32" where
  "spread b = (if hasBids b \<and> hasAsks b
     then lvl_price (lob_asks b ! 0) - lvl_price (lob_bids b ! 0) else 0)"

section \<open>Structural invariant\<close>

definition lob_inv :: "LimitOrderBook \<Rightarrow> bool" where
  "lob_inv b \<longleftrightarrow> table_inv (lob_orderTable b)
     \<and> side_ok False (lob_bids b) \<and> lob_bids b \<noteq> []
     \<and> side_ok True (lob_asks b) \<and> lob_asks b \<noteq> []"

lemma lob_inv_reset [inv_intros]: "lob_inv b \<Longrightarrow> lob_inv (lob_reset b)"
  by (simp add: lob_inv_def lob_reset_def table_inv_clear side_ok_cleared)

lemma lob_inv_new [inv_intros]: "0 < Depth \<Longrightarrow> cap_ok n \<Longrightarrow> lob_inv (LimitOrderBook_new Depth n)"
  by (simp add: lob_inv_def LimitOrderBook_new_def lob_reset_def table_inv_clear table_inv_new
      side_ok_cleared)

text \<open>What a handler leaves alone.\<close>

lemma apply_side_frame [frame_simps]:
  "lob_orderTable (apply_side b sd px dq dc) = lob_orderTable b"
  "lob_totalMessagesProcessed (apply_side b sd px dq dc) = lob_totalMessagesProcessed b"
  "lob_expectedSeqNo (apply_side b sd px dq dc) = lob_expectedSeqNo b"
  "lob_sequenceGapsDetected (apply_side b sd px dq dc) = lob_sequenceGapsDetected b"
  "lob_tradesExecutedCount (apply_side b sd px dq dc) = lob_tradesExecutedCount b"
  by (simp_all add: apply_side_def)

lemma lob_inv_apply_side [inv_intros]: "lob_inv b \<Longrightarrow> lob_inv (apply_side b sd px dq dc)"
  by (auto simp: lob_inv_def apply_side_def applyDelta_side_ok simp flip: length_greater_0_conv)

lemma lob_inv_table [inv_intros]:
  "lob_inv b \<Longrightarrow> table_inv t \<Longrightarrow> lob_inv (b\<lparr>lob_orderTable := t\<rparr>)"
  by (simp add: lob_inv_def)

lemma lob_inv_counters [simp]:
  "lob_inv (b\<lparr>lob_totalMessagesProcessed := n\<rparr>) = lob_inv b"
  "lob_inv (b\<lparr>lob_expectedSeqNo := n\<rparr>) = lob_inv b"
  "lob_inv (b\<lparr>lob_sequenceGapsDetected := n\<rparr>) = lob_inv b"
  "lob_inv (b\<lparr>lob_tradesExecutedCount := n\<rparr>) = lob_inv b"
  by (simp_all add: lob_inv_def)

lemma track_seq_frame [frame_simps]:
  "lob_orderTable (track_seq b s) = lob_orderTable b" "lob_bids (track_seq b s) = lob_bids b"
  "lob_asks (track_seq b s) = lob_asks b" "lob_inv (track_seq b s) = lob_inv b"
  by (simp_all add: track_seq_def)

section \<open>The abstract book\<close>

text \<open>The live orders and what each message does to them.\<close>

definition live_orders :: "LimitOrderBook \<Rightarrow> u64 \<Rightarrow> resting option" where
  "live_orders b = (\<lambda>k. live_of (table_view (lob_orderTable b) k))"

definition spec_add :: "(u64 \<Rightarrow> resting option) \<Rightarrow> AddOrderMsg \<Rightarrow> (u64 \<Rightarrow> resting option)" where
  "spec_add M a = M(add_orderId a \<mapsto> (add_side a, add_price a, add_quantity a))"

definition spec_reduce ::
  "(u64 \<Rightarrow> resting option) \<Rightarrow> u64 \<Rightarrow> (i32 \<Rightarrow> i32) \<Rightarrow> (i32 \<Rightarrow> bool) \<Rightarrow> (u64 \<Rightarrow> resting option)"
where
  "spec_reduce M k f gone = (case M k of None \<Rightarrow> M
     | Some (sd, px, q) \<Rightarrow> M(k := (if gone (f q) then None else Some (sd, px, f q))))"

definition exec_left :: "i32 \<Rightarrow> i32 \<Rightarrow> i32" where
  "exec_left e q = (if e <s q then q - e else 0)"

definition spec_message :: "(u64 \<Rightarrow> resting option) \<Rightarrow> WireMessage \<Rightarrow> (u64 \<Rightarrow> resting option)" where
  "spec_message M m =
     (if msgType m = chA then spec_add M (wire_add m)
      else if msgType m = chX then
        spec_reduce M (orderId_of m) (\<lambda>q. cancel_quantity (wire_cancel m)) (\<lambda>q. q <=s 0)
      else if msgType m = chE then
        spec_reduce M (orderId_of m) (exec_left (exec_execQuantity (wire_exec m))) (\<lambda>q. q = 0)
      else M)"

section \<open>The handlers refine the abstract book\<close>

lemma live_orders_frame [simp]:
  "live_orders (apply_side b sd px dq dc) = live_orders b"
  "live_orders (track_seq b s) = live_orders b"
  "live_orders (b\<lparr>lob_totalMessagesProcessed := n\<rparr>) = live_orders b"
  "live_orders (b\<lparr>lob_tradesExecutedCount := n\<rparr>) = live_orders b"
  by (simp_all add: live_orders_def frame_simps)

lemma live_orders_None:
  "live_orders b k = None \<longleftrightarrow> (case table_lookup (lob_orderTable b) k of None \<Rightarrow> True
     | Some p \<Rightarrow> rec_cancelled (table_read (lob_orderTable b) p))"
  by (auto simp: live_orders_def live_of_def store_view_def split: option.splits)

lemma live_orders_Some:
  "live_orders b k = Some (sd, px, q) \<longleftrightarrow> (\<exists>p. table_lookup (lob_orderTable b) k = Some p
     \<and> \<not> rec_cancelled (table_read (lob_orderTable b) p)
     \<and> rec_side (table_read (lob_orderTable b) p) = sd
     \<and> rec_price (table_read (lob_orderTable b) p) = px
     \<and> rec_quantity (table_read (lob_orderTable b) p) = q)"
  by (auto simp: live_orders_def live_of_def store_view_def split: option.splits)

lemma uncancelled_update:
  "\<not> rec_cancelled r \<Longrightarrow> r\<lparr>rec_quantity := q, rec_cancelled := False\<rparr> = r\<lparr>rec_quantity := q\<rparr>"
  by (cases r) simp

lemma set_remaining_live:
  assumes inv: "lob_inv b" and look: "table_lookup (lob_orderTable b) k = Some p"
    and live: "\<not> rec_cancelled (table_read (lob_orderTable b) p)"
  shows "lob_inv (set_remaining b p q done)"
    and "live_orders (set_remaining b p q done) = (live_orders b)
      (k := if done then None else Some (rec_side (table_read (lob_orderTable b) p),
               rec_price (table_read (lob_orderTable b) p), q))"
proof -
  have t: "table_inv (lob_orderTable b)" using inv by (simp add: lob_inv_def)
  have "p < table_capacity (lob_orderTable b)" using look table_lookup_iff [OF t] by simp
  then have eq: "set_remaining b p q done = b\<lparr>lob_orderTable := table_write (lob_orderTable b) p
      ((table_read (lob_orderTable b) p)\<lparr>rec_quantity := q, rec_cancelled := done\<rparr>)\<rparr>"
    using live by (simp add: set_remaining_def table_write_def table_read_def Let_def
        uncancelled_update)
  show "lob_inv (set_remaining b p q done)"
    unfolding eq by (intro lob_inv_table inv tbl.live_reduce(1) [OF t look live])
  show "live_orders (set_remaining b p q done) = (live_orders b)
      (k := if done then None else Some (rec_side (table_read (lob_orderTable b) p),
               rec_price (table_read (lob_orderTable b) p), q))"
    unfolding eq live_orders_def
    using tbl.live_reduce(2) [OF t look live, where q = q and c = "done"] by simp
qed

lemma processAdd_refines:
  assumes inv: "lob_inv b"
  shows "lob_inv (processAdd b a)"
    and "live_orders (processAdd b a) =
      (if table_view (lob_orderTable b) (add_orderId a) = None
          \<and> ot_occupiedCount (lob_orderTable b) = of_nat (table_capacity (lob_orderTable b))
       then live_orders b else spec_add (live_orders b) a)"
proof -
  have t: "table_inv (lob_orderTable b)" using inv by (simp add: lob_inv_def)
  obtain t' r where ins: "table_insert (lob_orderTable b) (add_orderId a) (add_side a)
      (add_price a) (add_quantity a) (add_timestampNs a) = (t', r)"
    by (metis prod.exhaust)
  note full = table_insert_saturated [OF t ins]
  have "lob_inv (processAdd b a) \<and> live_orders (processAdd b a) =
      (if r = None then live_orders b else spec_add (live_orders b) a)"
  proof (cases r)
    case None
    then have "t' = lob_orderTable b" using table_insert_None(1) [OF t] ins by simp
    then show ?thesis using ins None inv by (simp add: processAdd_def)
  next
    case (Some p)
    note ins' = ins [unfolded Some]
    have "lob_inv (processAdd b a)"
      unfolding processAdd_def ins'
      using tbl.ins_inv [OF t ins'] inv by (simp add: lob_inv_apply_side lob_inv_table)
    moreover have "live_orders (processAdd b a) = spec_add (live_orders b) a"
      unfolding processAdd_def ins' spec_add_def
      using tbl.live_insert [OF t ins'] by (simp add: live_orders_def frame_simps)
    ultimately show ?thesis using Some by simp
  qed
  then show "lob_inv (processAdd b a)"
    and "live_orders (processAdd b a) =
      (if table_view (lob_orderTable b) (add_orderId a) = None
          \<and> ot_occupiedCount (lob_orderTable b) = of_nat (table_capacity (lob_orderTable b))
       then live_orders b else spec_add (live_orders b) a)"
    by (simp_all add: full)
qed

lemma processCancel_refines:
  assumes inv: "lob_inv b"
  shows "lob_inv (processCancel b c)"
    and "live_orders (processCancel b c) =
      spec_reduce (live_orders b) (cancel_orderId c) (\<lambda>q. cancel_quantity c) (\<lambda>q. q <=s 0)"
proof -
  let ?t = "lob_orderTable b"
  have "lob_inv (processCancel b c) \<and> live_orders (processCancel b c) =
      spec_reduce (live_orders b) (cancel_orderId c) (\<lambda>q. cancel_quantity c) (\<lambda>q. q <=s 0)"
  proof (cases "live_orders b (cancel_orderId c)")
    case None
    then have "processCancel b c = b"
      by (auto simp: processCancel_def live_orders_None Let_def split: option.splits)
    then show ?thesis using None inv by (simp add: spec_reduce_def)
  next
    case (Some r)
    then obtain p where p: "table_lookup ?t (cancel_orderId c) = Some p"
      "\<not> rec_cancelled (table_read ?t p)"
      and r: "r = (rec_side (table_read ?t p), rec_price (table_read ?t p), rec_quantity (table_read ?t p))"
      by (cases r) (auto simp: live_orders_Some)
    let ?b = "apply_side b (rec_side (table_read ?t p)) (rec_price (table_read ?t p))
      (cancel_quantity c - rec_quantity (table_read ?t p)) (if cancel_quantity c <=s 0 then - 1 else 0)"
    have "processCancel b c = set_remaining ?b p (cancel_quantity c) (cancel_quantity c <=s 0)"
      using p by (simp add: processCancel_def Let_def)
    then show ?thesis
      using set_remaining_live [of ?b "cancel_orderId c" p "cancel_quantity c" "cancel_quantity c <=s 0"]
        lob_inv_apply_side [OF inv] p Some r
      by (simp add: frame_simps spec_reduce_def)
  qed
  then show "lob_inv (processCancel b c)"
    and "live_orders (processCancel b c) =
      spec_reduce (live_orders b) (cancel_orderId c) (\<lambda>q. cancel_quantity c) (\<lambda>q. q <=s 0)"
    by blast+
qed

lemma processExecute_refines:
  assumes inv: "lob_inv b"
  shows "lob_inv (processExecute b e)"
    and "live_orders (processExecute b e) =
      spec_reduce (live_orders b) (exec_orderId e) (exec_left (exec_execQuantity e)) (\<lambda>q. q = 0)"
proof -
  let ?t = "lob_orderTable b" and ?e = "exec_execQuantity e"
  let ?b = "b\<lparr>lob_tradesExecutedCount := lob_tradesExecutedCount b + 1\<rparr>"
  have "lob_inv (processExecute b e) \<and> live_orders (processExecute b e) =
      spec_reduce (live_orders b) (exec_orderId e) (exec_left ?e) (\<lambda>q. q = 0)"
  proof (cases "live_orders b (exec_orderId e)")
    case None
    then have "processExecute b e = ?b"
      by (auto simp: processExecute_def live_orders_None Let_def split: option.splits)
    then show ?thesis using None inv by (simp add: spec_reduce_def)
  next
    case (Some r)
    then obtain p where p: "table_lookup ?t (exec_orderId e) = Some p"
      "\<not> rec_cancelled (table_read ?t p)"
      and r: "r = (rec_side (table_read ?t p), rec_price (table_read ?t p), rec_quantity (table_read ?t p))"
      by (cases r) (auto simp: live_orders_Some)
    let ?new = "exec_left ?e (rec_quantity (table_read ?t p))"
    let ?b' = "apply_side ?b (rec_side (table_read ?t p)) (rec_price (table_read ?t p))
      (- ?e) (if ?new = 0 then - 1 else 0)"
    have "processExecute b e = set_remaining ?b' p ?new (?new = 0)"
      using p by (simp add: processExecute_def exec_left_def Let_def)
    moreover have "lob_inv ?b'" using inv by (simp add: lob_inv_apply_side)
    ultimately show ?thesis
      using set_remaining_live [of ?b' "exec_orderId e" p ?new "?new = 0"] p Some r
      by (simp add: frame_simps spec_reduce_def)
  qed
  then show "lob_inv (processExecute b e)"
    and "live_orders (processExecute b e) =
      spec_reduce (live_orders b) (exec_orderId e) (exec_left (exec_execQuantity e)) (\<lambda>q. q = 0)"
    by blast+
qed

lemma processMessage_inv [inv_intros]: "lob_inv b \<Longrightarrow> lob_inv (processMessage b m)"
  by (simp add: processMessage_def Let_def processAdd_refines processCancel_refines
      processExecute_refines frame_simps)

lemma processAll_inv [inv_intros]: "lob_inv b \<Longrightarrow> lob_inv (processAll b ms)"
  by (induction ms arbitrary: b) (auto simp: processAll_def intro: processMessage_inv)

text \<open>Only an addition can fail to reach the table.\<close>

definition add_dropped :: "LimitOrderBook \<Rightarrow> WireMessage \<Rightarrow> bool" where
  "add_dropped b m \<longleftrightarrow> msgType m = chA \<and> table_lookup (lob_orderTable b) (orderId_of m) = None
     \<and> ot_occupiedCount (lob_orderTable b) = of_nat (table_capacity (lob_orderTable b))"

lemma processMessage_refines:
  assumes "lob_inv b"
  shows "live_orders (processMessage b m) =
    (if add_dropped b m then live_orders b else spec_message (live_orders b) m)"
proof -
  let ?b = "track_seq (b\<lparr>lob_totalMessagesProcessed := lob_totalMessagesProcessed b + 1\<rparr>) (seqNo m)"
  have b: "lob_inv ?b" "live_orders ?b = live_orders b" "lob_orderTable ?b = lob_orderTable b"
    using assms by (simp_all add: frame_simps)
  show ?thesis
    using processAdd_refines(2) [OF b(1), of "wire_add m"]
      processCancel_refines(2) [OF b(1), of "wire_cancel m"]
      processExecute_refines(2) [OF b(1), of "wire_exec m"] b(2,3)
    by (simp add: processMessage_def Let_def spec_message_def add_dropped_def header_views
        store_view_def)
qed

section \<open>Depth and counters\<close>

lemma depth_apply_side [frame_simps]:
  assumes "lob_inv b"
  shows "length (lob_bids (apply_side b sd px dq dc)) = length (lob_bids b)"
    and "length (lob_asks (apply_side b sd px dq dc)) = length (lob_asks b)"
  using assms by (simp_all add: lob_inv_def apply_side_def applyDelta_side_ok)

lemma set_remaining_frame [frame_simps]:
  "lob_bids (set_remaining b p q d) = lob_bids b" "lob_asks (set_remaining b p q d) = lob_asks b"
  "lob_totalMessagesProcessed (set_remaining b p q d) = lob_totalMessagesProcessed b"
  "lob_expectedSeqNo (set_remaining b p q d) = lob_expectedSeqNo b"
  "lob_sequenceGapsDetected (set_remaining b p q d) = lob_sequenceGapsDetected b"
  "lob_tradesExecutedCount (set_remaining b p q d) = lob_tradesExecutedCount b"
  by (simp_all add: set_remaining_def Let_def)

text \<open>Each handler is the identity, or a table update, a ladder update and a counter.\<close>

lemma handler_depth:
  assumes "lob_inv b"
  shows "length (lob_bids (processAdd b a)) = length (lob_bids b)"
    "length (lob_asks (processAdd b a)) = length (lob_asks b)"
    "length (lob_bids (processCancel b c)) = length (lob_bids b)"
    "length (lob_asks (processCancel b c)) = length (lob_asks b)"
    "length (lob_bids (processExecute b e)) = length (lob_bids b)"
    "length (lob_asks (processExecute b e)) = length (lob_asks b)"
  using assms tbl.ins_inv
  by (auto simp: processAdd_def processCancel_def processExecute_def Let_def frame_simps
      lob_inv_def apply_side_def applyDelta_side_ok split: prod.split option.split)

lemma handler_counters [frame_simps]:
  "lob_totalMessagesProcessed (processAdd b a) = lob_totalMessagesProcessed b"
  "lob_totalMessagesProcessed (processCancel b c) = lob_totalMessagesProcessed b"
  "lob_totalMessagesProcessed (processExecute b e) = lob_totalMessagesProcessed b"
  "lob_expectedSeqNo (processAdd b a) = lob_expectedSeqNo b"
  "lob_expectedSeqNo (processCancel b c) = lob_expectedSeqNo b"
  "lob_expectedSeqNo (processExecute b e) = lob_expectedSeqNo b"
  "lob_sequenceGapsDetected (processAdd b a) = lob_sequenceGapsDetected b"
  "lob_sequenceGapsDetected (processCancel b c) = lob_sequenceGapsDetected b"
  "lob_sequenceGapsDetected (processExecute b e) = lob_sequenceGapsDetected b"
  "lob_tradesExecutedCount (processAdd b a) = lob_tradesExecutedCount b"
  "lob_tradesExecutedCount (processCancel b c) = lob_tradesExecutedCount b"
  "lob_tradesExecutedCount (processExecute b e) = lob_tradesExecutedCount b + 1"
  by (auto simp: processAdd_def processCancel_def processExecute_def Let_def frame_simps
      split: prod.split option.split)

lemma processMessage_depth:
  assumes "lob_inv b"
  shows "length (lob_bids (processMessage b m)) = length (lob_bids b)
       \<and> length (lob_asks (processMessage b m)) = length (lob_asks b)"
  using assms by (simp add: processMessage_def Let_def handler_depth frame_simps)

lemma processAll_simps [simp]:
  "processAll b [] = b" "processAll b (m # ms) = processAll (processMessage b m) ms"
  by (simp_all add: processAll_def)

lemma processAll_depth:
  "lob_inv b \<Longrightarrow> length (lob_bids (processAll b ms)) = length (lob_bids b)
     \<and> length (lob_asks (processAll b ms)) = length (lob_asks b)"
  by (induction ms arbitrary: b) (simp_all add: processMessage_depth processMessage_inv)

lemma processMessage_counters [frame_simps]:
  "lob_totalMessagesProcessed (processMessage b m) = lob_totalMessagesProcessed b + 1"
  "lob_tradesExecutedCount (processMessage b m)
     = lob_tradesExecutedCount b + (if msgType m = chE then 1 else 0)"
  "lob_expectedSeqNo (processMessage b m)
     = (if lob_expectedSeqNo b > 0 then seqNo m + 1 else lob_expectedSeqNo b + 1)"
  "lob_sequenceGapsDetected (processMessage b m) = lob_sequenceGapsDetected b
     + (if lob_expectedSeqNo b > 0 \<and> seqNo m > lob_expectedSeqNo b
        then seqNo m - lob_expectedSeqNo b else 0)"
  by (auto simp: processMessage_def Let_def frame_simps track_seq_def)

lemma counters_all:
  "lob_totalMessagesProcessed (processAll b ms) = lob_totalMessagesProcessed b + of_nat (length ms)
   \<and> lob_tradesExecutedCount (processAll b ms) = lob_tradesExecutedCount b
       + of_nat (length (filter (\<lambda>m. msgType m = chE) ms))"
  by (induction ms arbitrary: b) (simp_all add: frame_simps)

text \<open>Over an in-order feed the gaps counted are the sequence numbers skipped.\<close>

lemma gaps_in_order:
  assumes "0 < lob_expectedSeqNo b" and "sorted_wrt (<) (map seqNo ms)"
    and "\<forall>m \<in> set ms. lob_expectedSeqNo b \<le> seqNo m \<and> seqNo m < - 1" and "ms \<noteq> []"
  shows "lob_expectedSeqNo (processAll b ms) = seqNo (last ms) + 1
    \<and> lob_sequenceGapsDetected (processAll b ms) = lob_sequenceGapsDetected b
        + (seqNo (last ms) + 1 - lob_expectedSeqNo b - of_nat (length ms))"
  using assms
proof (induction ms arbitrary: b)
  case (Cons m ms)
  let ?b = "processMessage b m"
  have m: "lob_expectedSeqNo b \<le> seqNo m" "seqNo m < - 1" using Cons.prems by auto
  have seq: "lob_expectedSeqNo ?b = seqNo m + 1"
    and gap: "lob_sequenceGapsDetected ?b = lob_sequenceGapsDetected b + (seqNo m - lob_expectedSeqNo b)"
    using Cons.prems(1) m by (auto simp: frame_simps not_less)
  show ?case
  proof (cases "ms = []")
    case True
    then show ?thesis using seq gap by simp
  next
    case False
    have "seqNo m + 1 \<noteq> 0" using m(2) by (auto simp flip: eq_neg_iff_add_eq_0)
    then have pos: "0 < seqNo m + 1" by (simp only: word_neq_0_conv)
    have "\<forall>x \<in> set ms. lob_expectedSeqNo ?b \<le> seqNo x \<and> seqNo x < - 1"
      using Cons.prems(2,3) seq by (auto intro: inc_le)
    with Cons.IH [of ?b] Cons.prems(2) pos seq gap False show ?thesis by simp
  qed
qed simp

text \<open>The structural invariant, slot by slot.\<close>

lemma lob_inv_slots:
  assumes "lob_inv b"
  shows "\<forall>i j. i < j \<and> j < length (lob_bids b) \<and> lvl_active (lob_bids b ! j) \<longrightarrow>
          lvl_active (lob_bids b ! i) \<and> lvl_price (lob_bids b ! j) <s lvl_price (lob_bids b ! i)"
    and "\<forall>i j. i < j \<and> j < length (lob_asks b) \<and> lvl_active (lob_asks b ! j) \<longrightarrow>
          lvl_active (lob_asks b ! i) \<and> lvl_price (lob_asks b ! i) <s lvl_price (lob_asks b ! j)"
    and "\<forall>l \<in> set (lob_bids b) \<union> set (lob_asks b). lvl_active l \<longrightarrow>
          0 <s lvl_quantity l \<and> 0 <s lvl_orderCount l"
proof -
  have sides: "side_ok False (lob_bids b)" "side_ok True (lob_asks b)"
    using assms by (simp_all add: lob_inv_def)
  show "\<forall>i j. i < j \<and> j < length (lob_bids b) \<and> lvl_active (lob_bids b ! j) \<longrightarrow>
          lvl_active (lob_bids b ! i) \<and> lvl_price (lob_bids b ! j) <s lvl_price (lob_bids b ! i)"
    using side_ok_nth(2) [OF sides(1)] unfolding price_before_def if_False by blast
  show "\<forall>i j. i < j \<and> j < length (lob_asks b) \<and> lvl_active (lob_asks b ! j) \<longrightarrow>
          lvl_active (lob_asks b ! i) \<and> lvl_price (lob_asks b ! i) <s lvl_price (lob_asks b ! j)"
    using side_ok_nth(2) [OF sides(2)] unfolding price_before_def if_True by blast
  show "\<forall>l \<in> set (lob_bids b) \<union> set (lob_asks b). lvl_active l \<longrightarrow>
          0 <s lvl_quantity l \<and> 0 <s lvl_orderCount l"
    using side_ok_nth(1) [OF sides(1)] side_ok_nth(1) [OF sides(2)]
    by (auto simp: in_set_conv_nth lvl_pos_def)
qed

section \<open>Properties\<close>

text \<open>Messages for the examples.\<close>

definition ex_add :: "u64 \<Rightarrow> u64 \<Rightarrow> byte \<Rightarrow> i32 \<Rightarrow> i32 \<Rightarrow> WireMessage" where
  "ex_add s k sd px q = set_add WireMessage_zero \<lparr>add_msgType = chA, add_seqNo = s,
     add_timestampNs = 0, add_orderId = k, add_side = sd, add_price = px, add_quantity = q\<rparr>"

definition ex_cancel :: "u64 \<Rightarrow> u64 \<Rightarrow> i32 \<Rightarrow> WireMessage" where
  "ex_cancel s k q = set_cancel WireMessage_zero \<lparr>cancel_msgType = chX, cancel_seqNo = s,
     cancel_timestampNs = 0, cancel_orderId = k, cancel_quantity = q\<rparr>"

definition ex_exec :: "u64 \<Rightarrow> u64 \<Rightarrow> i32 \<Rightarrow> i32 \<Rightarrow> WireMessage" where
  "ex_exec s k q px = set_exec WireMessage_zero \<lparr>exec_msgType = chE, exec_seqNo = s,
     exec_timestampNs = 0, exec_orderId = k, exec_execQuantity = q, exec_matchPrice = px\<rparr>"

definition ex_book :: LimitOrderBook where
  "ex_book = LimitOrderBook_new 3 4"

lemma lob_inv_ex: "lob_inv ex_book"
  unfolding ex_book_def by (rule lob_inv_new) (simp_all add: cap_ok_def)

text \<open>C1: No message sequence corrupts the book. Whatever messages a fresh book of any depth and
  table capacity is fed (duplicate ids, unknown ids, negative or zero quantities and prices, unknown
  types and sides, overflowing sums, in any order), the two arrays keep their depth, the active
  levels of each side stay a prefix of its array, bids strictly descending and asks strictly
  ascending, every active level has a positive quantity and order count, and the order table stays
  well formed.\<close>

theorem book_never_corrupt:
  assumes "0 < Depth" and "cap_ok TableCapacity"
  shows "let b = processAll (LimitOrderBook_new Depth TableCapacity) ms in
    table_inv (lob_orderTable b)
    \<and> length (lob_bids b) = Depth \<and> length (lob_asks b) = Depth
    \<and> (\<forall>i j. i < j \<and> j < Depth \<and> lvl_active (lob_bids b ! j) \<longrightarrow>
          lvl_active (lob_bids b ! i) \<and> lvl_price (lob_bids b ! j) <s lvl_price (lob_bids b ! i))
    \<and> (\<forall>i j. i < j \<and> j < Depth \<and> lvl_active (lob_asks b ! j) \<longrightarrow>
          lvl_active (lob_asks b ! i) \<and> lvl_price (lob_asks b ! i) <s lvl_price (lob_asks b ! j))
    \<and> (\<forall>l \<in> set (lob_bids b) \<union> set (lob_asks b). lvl_active l \<longrightarrow>
          0 <s lvl_quantity l \<and> 0 <s lvl_orderCount l)"
proof -
  let ?b0 = "LimitOrderBook_new Depth TableCapacity"
  let ?b = "processAll ?b0 ms"
  have inv: "lob_inv ?b" by (intro processAll_inv lob_inv_new assms)
  have len: "length (lob_bids ?b) = Depth" "length (lob_asks ?b) = Depth"
    using processAll_depth [OF lob_inv_new [OF assms], of ms]
    by (simp_all add: LimitOrderBook_new_def lob_reset_def)
  show ?thesis
    unfolding Let_def
    by (intro conjI lob_inv_slots [OF inv, unfolded len] len) (use inv in \<open>simp add: lob_inv_def\<close>)
qed

theorem book_never_corrupt_witness:
  "table_inv (lob_orderTable (processAll (LimitOrderBook_new 3 4)
     [ex_add 1 7 chB 100 5, ex_add 9 7 chS (- 4) (- 1), ex_exec 2 7 9 0]))"
  using book_never_corrupt [of 3 4 "[ex_add 1 7 chB 100 5, ex_add 9 7 chS (- 4) (- 1), ex_exec 2 7 9 0]"]
  by (simp add: cap_ok_def Let_def)

text \<open>C2: Every message acts on the live orders as its specification says. An Add stores the order
  under its id unless the table is saturated, a Cancel sets the remaining quantity and removes the
  order at zero or below, an Execute subtracts the filled quantity (at most what is left) and removes
  the order at zero; messages about dead or unknown orders and of unknown types change nothing.\<close>

theorem message_refines_spec:
  assumes "lob_inv b"
  shows "live_orders (processMessage b m) =
    (if add_dropped b m then live_orders b else spec_message (live_orders b) m)"
  by (rule processMessage_refines [OF assms])

theorem message_refines_spec_witness:
  "live_orders (processMessage ex_book (ex_add 1 7 chB 100 5)) 7 = Some (chB, 100, 5)"
proof -
  let ?m = "ex_add 1 7 chB 100 5"
  have "\<not> add_dropped ex_book ?m" by code_simp
  then show ?thesis
    using message_refines_spec [OF lob_inv_ex, of ?m]
    by (simp add: spec_message_def spec_add_def ex_add_def)
qed

text \<open>Counters over a feed. Every message is counted, and every \<open>'E'\<close> message counts as a
  trade. When the sequence numbers of the batch increase and start at or after the expected one, the
  engine ends expecting the number after the last, and has counted exactly the numbers it skipped:
  the distance covered minus the messages received.\<close>

theorem feed_counters:
  assumes "0 < lob_expectedSeqNo b" and "sorted_wrt (<) (map seqNo ms)"
    and "\<forall>m \<in> set ms. lob_expectedSeqNo b \<le> seqNo m \<and> seqNo m < - 1" and "ms \<noteq> []"
  shows "lob_expectedSeqNo (processAll b ms) = seqNo (last ms) + 1
    \<and> lob_sequenceGapsDetected (processAll b ms) = lob_sequenceGapsDetected b
        + (seqNo (last ms) + 1 - lob_expectedSeqNo b - of_nat (length ms))
    \<and> lob_totalMessagesProcessed (processAll b ms) = lob_totalMessagesProcessed b + of_nat (length ms)
    \<and> lob_tradesExecutedCount (processAll b ms) = lob_tradesExecutedCount b
        + of_nat (length (filter (\<lambda>m. msgType m = chE) ms))"
  using gaps_in_order [OF assms] counters_all [of b ms] by blast

theorem feed_counters_witness:
  "lob_sequenceGapsDetected (processAll ex_book
     [ex_add 2 7 chB 100 5, ex_add 3 8 chS 101 5, ex_exec 7 7 1 100]) = 4"
proof -
  let ?ms = "[ex_add 2 7 chB 100 5, ex_add 3 8 chS 101 5, ex_exec 7 7 1 100]"
  have b: "lob_expectedSeqNo ex_book = 1" "lob_sequenceGapsDetected ex_book = 0"
    by (simp_all add: ex_book_def LimitOrderBook_new_def lob_reset_def)
  have seqs: "map seqNo ?ms = [2, 3, 7]" by (simp add: ex_add_def ex_exec_def)
  have last: "seqNo (last ?ms) = 7" by (simp add: ex_exec_def)
  have "0 < lob_expectedSeqNo ex_book" "sorted_wrt (<) (map seqNo ?ms)"
    "\<forall>m \<in> set ?ms. lob_expectedSeqNo ex_book \<le> seqNo m \<and> seqNo m < - 1" "?ms \<noteq> []"
    unfolding seqs b by (simp_all add: ex_add_def ex_exec_def)
  from feed_counters [OF this] show ?thesis by (simp only: b last) simp
qed

section \<open>Behaviour outside the specification\<close>

text \<open>A late packet moves \<open>expectedSeqNo\<close> back, so packets already received are counted as gaps
  again: numbers 1, 2, 3, then a late 1, then 4; nothing is missing and two gaps are reported.\<close>

lemma late_packet_recounts_gaps:
  "lob_sequenceGapsDetected (processAll ex_book
     [ex_cancel 1 9 0, ex_cancel 2 9 0, ex_cancel 3 9 0, ex_cancel 1 9 0, ex_cancel 4 9 0]) = 2"
  by code_simp

text \<open>Cancelling through the handlers does not tell the table: \<open>size()\<close> still counts the order.\<close>

lemma cancelled_order_still_counted:
  "table_size (lob_orderTable (processAll ex_book [ex_add 1 7 chB 100 5, ex_cancel 2 7 0])) = 1
   \<and> live_orders (processAll ex_book [ex_add 1 7 chB 100 5, ex_cancel 2 7 0]) 7 = None"
  by code_simp

end
