(* ===== verification/BookConsistency.thy ===== *)
theory BookConsistency
  imports OrderBook
begin

text \<open>
  The ladders against the live orders: the total quantity and the number of live orders at each
  price and side, the statement that a ladder shows exactly these aggregates, and its preservation
  by every message a well-behaved feed can send (\<open>step_ok\<close>). The best bid and offer follow.
\<close>

section \<open>Aggregates of the abstract book\<close>

definition contrib_qty :: "bool \<Rightarrow> i32 \<Rightarrow> resting option \<Rightarrow> int" where
  "contrib_qty bd px r = (case r of None \<Rightarrow> 0
     | Some (sd, p, q) \<Rightarrow> if p = px \<and> (sd = chB) = bd then sint q else 0)"

definition contrib_cnt :: "bool \<Rightarrow> i32 \<Rightarrow> resting option \<Rightarrow> int" where
  "contrib_cnt bd px r = (case r of None \<Rightarrow> 0
     | Some (sd, p, q) \<Rightarrow> if p = px \<and> (sd = chB) = bd then 1 else 0)"

definition agg_qty :: "bool \<Rightarrow> i32 \<Rightarrow> (u64 \<Rightarrow> resting option) \<Rightarrow> int" where
  "agg_qty bd px M = map_sum (contrib_qty bd px) M"

definition agg_cnt :: "bool \<Rightarrow> i32 \<Rightarrow> (u64 \<Rightarrow> resting option) \<Rightarrow> int" where
  "agg_cnt bd px M = map_sum (contrib_cnt bd px) M"

text \<open>Every live order has a positive remaining quantity; there are finitely many.\<close>

definition live_ok :: "(u64 \<Rightarrow> resting option) \<Rightarrow> bool" where
  "live_ok M \<longleftrightarrow> finite (dom M) \<and> (\<forall>k sd px q. M k = Some (sd, px, q) \<longrightarrow> 0 <s q)"

lemma contrib_None [simp]: "contrib_qty bd px None = 0" "contrib_cnt bd px None = 0"
  by (simp_all add: contrib_qty_def contrib_cnt_def)

lemma agg_upd:
  assumes "live_ok M"
  shows "agg_qty bd px (M(k := v)) = agg_qty bd px M - contrib_qty bd px (M k) + contrib_qty bd px v"
    and "agg_cnt bd px (M(k := v)) = agg_cnt bd px M - contrib_cnt bd px (M k) + contrib_cnt bd px v"
  using assms by (simp_all add: agg_qty_def agg_cnt_def map_sum_upd live_ok_def)

lemma live_ok_upd:
  "live_ok M \<Longrightarrow> (case v of None \<Rightarrow> True | Some (sd, px, q) \<Rightarrow> 0 <s q) \<Longrightarrow> live_ok (M(k := v))"
  by (auto simp: live_ok_def split: option.splits if_splits)

lemma contrib_bounds:
  assumes "live_ok M" and "k \<in> dom M"
  shows "0 \<le> contrib_cnt bd px (M k)" and "contrib_cnt bd px (M k) \<le> contrib_qty bd px (M k)"
proof -
  obtain sd p q where M: "M k = Some (sd, p, q)" using assms(2) by auto
  then have "0 < sint q" using assms(1) unfolding live_ok_def sless_iff by fastforce
  then show "0 \<le> contrib_cnt bd px (M k)" and "contrib_cnt bd px (M k) \<le> contrib_qty bd px (M k)"
    by (auto simp: M contrib_qty_def contrib_cnt_def)
qed

lemma contrib_zero: "contrib_cnt bd px r = 0 \<Longrightarrow> contrib_qty bd px r = 0"
  by (auto simp: contrib_cnt_def contrib_qty_def split: option.splits if_splits)

lemma agg_bounds:
  assumes "live_ok M"
  shows "0 \<le> agg_cnt bd px M" and "agg_cnt bd px M \<le> agg_qty bd px M"
    and "agg_cnt bd px M = 0 \<Longrightarrow> agg_qty bd px M = 0"
proof -
  show "0 \<le> agg_cnt bd px M"
    unfolding agg_cnt_def map_sum_def by (rule sum_nonneg) (rule contrib_bounds(1) [OF assms])
  show "agg_cnt bd px M \<le> agg_qty bd px M"
    unfolding agg_cnt_def agg_qty_def by (rule map_sum_mono) (rule contrib_bounds(2) [OF assms])
  assume "agg_cnt bd px M = 0"
  then have "\<forall>k \<in> dom M. contrib_cnt bd px (M k) = 0"
    using assms contrib_bounds(1) [OF assms]
    by (simp add: agg_cnt_def map_sum_def live_ok_def sum_nonneg_eq_0_iff)
  then have "\<forall>k \<in> dom M. contrib_qty bd px (M k) = 0"
    using contrib_zero by blast
  then show "agg_qty bd px M = 0" by (simp add: agg_qty_def map_sum_def)
qed

lemma agg_cnt_live:
  assumes "live_ok M" and "M k = Some (sd, px, q)"
  shows "0 < agg_cnt (sd = chB) px M" and "sint q \<le> agg_qty (sd = chB) px M"
proof -
  have k: "k \<in> dom M" and fin: "finite (dom M)" using assms by (auto simp: live_ok_def)
  have nonneg: "0 \<le> contrib_qty (sd = chB) px (M j)" if "j \<in> dom M" for j
    using contrib_bounds [OF assms(1) that] by (rule order_trans)
  have "contrib_cnt (sd = chB) px (M k) \<le> agg_cnt (sd = chB) px M"
    unfolding agg_cnt_def by (rule map_sum_ge [OF fin _ k]) (rule contrib_bounds(1) [OF assms(1)])
  then show "0 < agg_cnt (sd = chB) px M" by (simp add: assms(2) contrib_cnt_def)
  have "contrib_qty (sd = chB) px (M k) \<le> agg_qty (sd = chB) px M"
    unfolding agg_qty_def by (rule map_sum_ge [OF fin _ k]) (rule nonneg)
  then show "sint q \<le> agg_qty (sd = chB) px M" by (simp add: assms(2) contrib_qty_def)
qed

section \<open>A ladder that shows the aggregates\<close>

definition side_shows :: "PriceLevel list \<Rightarrow> (u64 \<Rightarrow> resting option) \<Rightarrow> bool \<Rightarrow> bool" where
  "side_shows levels M bd \<longleftrightarrow> (\<forall>px. case level_at levels px of
      None \<Rightarrow> agg_cnt bd px M = 0
    | Some (q, c) \<Rightarrow> sint q = agg_qty bd px M \<and> sint c = agg_cnt bd px M)"

lemma side_shows_iff:
  "side_shows levels M bd \<longleftrightarrow>
     (\<forall>px. level_at levels px = None \<longrightarrow> agg_cnt bd px M = 0)
     \<and> (\<forall>px q c. level_at levels px = Some (q, c)
          \<longrightarrow> sint q = agg_qty bd px M \<and> sint c = agg_cnt bd px M)"
  unfolding side_shows_def by (simp add: all_conj_distrib split: option.split)

lemma side_shows_at:
  assumes "side_shows levels M bd" and "level_at levels px = Some (q, c)"
  shows "agg_qty bd px M = sint q" and "agg_cnt bd px M = sint c"
  using assms by (auto simp: side_shows_iff)

text \<open>One delta on a ladder follows one change of the live orders at that price.\<close>

lemma side_shows_delta:
  assumes ok: "side_ok asc levels" "levels \<noteq> []" and shows_M: "side_shows levels M bd"
    and M: "live_ok M" "live_ok M'"
    and qty: "\<And>p. agg_qty bd p M' = agg_qty bd p M + (if p = px then sint dq else 0)"
    and cnt: "\<And>p. agg_cnt bd p M' = agg_cnt bd p M + (if p = px then sint dc else 0)"
    and bound: "agg_qty bd px M' < 2 ^ 31"
    and new: "level_at levels px = None \<Longrightarrow> 0 <s dq \<and> dc = 1 \<and> \<not> side_full levels"
  shows "side_shows (applyDelta levels px dq dc asc) M' bd"
proof -
  note bounds = agg_bounds [OF M(2), of bd px]
  show ?thesis
  proof (cases "level_at levels px")
    case None
    then have "agg_cnt bd px M = 0" using shows_M by (simp add: side_shows_iff)
    then have "agg_qty bd px M = 0" "agg_cnt bd px M = 0" using agg_bounds(3) [OF M(1)] by auto
    then show ?thesis
      using level_at_absent_room [OF ok(1) None, of dq dc] new [OF None] shows_M qty cnt
      by (auto simp: side_shows_iff)
  next
    case (Some qc)
    then obtain q c where at: "level_at levels px = Some (q, c)" by (cases qc) auto
    with shows_M have qc: "sint q = agg_qty bd px M" "sint c = agg_cnt bd px M"
      by (auto simp: side_shows_iff)
    have q': "sint (q + dq) = agg_qty bd px M'"
      using qc(1) qty [of px] bounds bound by (subst sint_add_exact) auto
    have c': "sint (c + dc) = agg_cnt bd px M'"
      using qc(2) cnt [of px] bounds bound by (subst sint_add_exact) auto
    have gone: "q + dq <=s 0 \<or> c + dc <=s 0 \<longleftrightarrow> agg_cnt bd px M' = 0"
      using bounds by (auto simp: sle_iff q' c')
    show ?thesis
      using level_at_present [OF ok(1) at, of dq dc] shows_M qty cnt q' c' gone
      by (auto simp: side_shows_iff split: if_splits)
  qed
qed

section \<open>Consistency of the whole book\<close>

definition book_shows :: "LimitOrderBook \<Rightarrow> (u64 \<Rightarrow> resting option) \<Rightarrow> bool" where
  "book_shows b M \<longleftrightarrow> side_shows (lob_bids b) M True \<and> side_shows (lob_asks b) M False"

definition book_consistent :: "LimitOrderBook \<Rightarrow> bool" where
  "book_consistent b \<longleftrightarrow>
     lob_inv b \<and> live_ok (live_orders b) \<and> book_shows b (live_orders b)"

definition side_levels :: "LimitOrderBook \<Rightarrow> byte \<Rightarrow> PriceLevel list" where
  "side_levels b sd = (if sd = chB then lob_bids b else lob_asks b)"

text \<open>What a well-behaved feed sends next, given the current book. An addition carries a positive
  quantity and an id that is not live, finds room in the table, and its price is either on the
  ladder, with room in the 32-bit quantity, or new on a ladder with a free slot. A reduction names a
  dead order, or sets a nonnegative quantity that the level can hold. An execution names a dead
  order, or fills at most what is left of a live one.\<close>

definition step_ok :: "LimitOrderBook \<Rightarrow> WireMessage \<Rightarrow> bool" where
  "step_ok b m =
    (if msgType m = chA then
       (let a = wire_add m; levels = side_levels b (add_side a) in
        0 <s add_quantity a \<and> live_orders b (add_orderId a) = None \<and> \<not> add_dropped b m
        \<and> (case level_at levels (add_price a) of
             None \<Rightarrow> \<not> side_full levels
           | Some (q, c) \<Rightarrow> sint q + sint (add_quantity a) < 2 ^ 31))
     else if msgType m = chX then
       (case live_orders b (orderId_of m) of
          None \<Rightarrow> True
        | Some (sd, px, q) \<Rightarrow>
            0 <=s cancel_quantity (wire_cancel m)
            \<and> (case level_at (side_levels b sd) px of
                 None \<Rightarrow> True
               | Some (lq, c) \<Rightarrow> sint lq - sint q + sint (cancel_quantity (wire_cancel m)) < 2 ^ 31))
     else if msgType m = chE then
       (case live_orders b (orderId_of m) of
          None \<Rightarrow> True
        | Some (sd, px, q) \<Rightarrow>
            0 <s exec_execQuantity (wire_exec m) \<and> exec_execQuantity (wire_exec m) <=s q)
     else True)"

fun feed_ok :: "LimitOrderBook \<Rightarrow> WireMessage list \<Rightarrow> bool" where
  "feed_ok b [] = True"
| "feed_ok b (m # ms) = (step_ok b m \<and> feed_ok (processMessage b m) ms)"

text \<open>One order changes, at one price of one side, and the ladder of that side gets the matching
  deltas: the ladders keep showing the live orders.\<close>

definition remaining :: "resting option \<Rightarrow> int" where
  "remaining r = (case r of None \<Rightarrow> 0 | Some (sd, px, q) \<Rightarrow> sint q)"

definition presence :: "resting option \<Rightarrow> int" where
  "presence r = (case r of None \<Rightarrow> 0 | Some _ \<Rightarrow> 1)"

definition rests_at :: "byte \<Rightarrow> i32 \<Rightarrow> resting option \<Rightarrow> bool" where
  "rests_at sd px r \<longleftrightarrow> (case r of None \<Rightarrow> True | Some (sd', px', q) \<Rightarrow> sd' = sd \<and> px' = px)"

lemma contrib_rests_at:
  assumes "rests_at sd px r"
  shows "contrib_qty bd p r = (if p = px \<and> (sd = chB) = bd then remaining r else 0)"
    and "contrib_cnt bd p r = (if p = px \<and> (sd = chB) = bd then presence r else 0)"
  using assms by (auto simp: rests_at_def contrib_qty_def contrib_cnt_def remaining_def
      presence_def split: option.splits)

lemma apply_side_shows:
  assumes inv: "lob_inv b" and M: "live_ok M" "live_ok (M(k := v))" and shows_M: "book_shows b M"
    and at: "rests_at sd px (M k)" "rests_at sd px v"
    and dq: "sint dq = remaining v - remaining (M k)" and dc: "sint dc = presence v - presence (M k)"
    and bound: "agg_qty (sd = chB) px (M(k := v)) < 2 ^ 31"
    and new: "level_at (side_levels b sd) px = None
      \<Longrightarrow> 0 <s dq \<and> dc = 1 \<and> \<not> side_full (side_levels b sd)"
  shows "book_shows (apply_side b sd px dq dc) (M(k := v))"
proof -
  have qty: "agg_qty bd p (M(k := v)) = agg_qty bd p M + (if p = px \<and> (sd = chB) = bd then sint dq else 0)"
    and cnt: "agg_cnt bd p (M(k := v)) = agg_cnt bd p M + (if p = px \<and> (sd = chB) = bd then sint dc else 0)"
    for bd p
    using agg_upd [OF M(1), of bd p k v] contrib_rests_at [OF at(1), of bd p]
      contrib_rests_at [OF at(2), of bd p] dq dc by auto
  have keep: "side_shows levels (M(k := v)) bd" if "side_shows levels M bd" "(sd = chB) \<noteq> bd" for levels bd
    using that qty [of bd] cnt [of bd] by (simp only: side_shows_iff) auto
  show ?thesis
  proof (cases "sd = chB")
    case True
    have "side_shows (applyDelta (lob_bids b) px dq dc False) (M(k := v)) True"
      by (rule side_shows_delta [OF _ _ _ M])
        (use inv shows_M qty [of True] cnt [of True] bound new True in
          \<open>auto simp: lob_inv_def book_shows_def side_levels_def\<close>)
    then show ?thesis
      using True keep [of "lob_asks b" False] shows_M by (simp add: book_shows_def apply_side_def)
  next
    case False
    have "side_shows (applyDelta (lob_asks b) px dq dc True) (M(k := v)) False"
      by (rule side_shows_delta [OF _ _ _ M])
        (use inv shows_M qty [of False] cnt [of False] bound new False in
          \<open>auto simp: lob_inv_def book_shows_def side_levels_def\<close>)
    then show ?thesis
      using False keep [of "lob_bids b" True] shows_M by (simp add: book_shows_def apply_side_def)
  qed
qed

text \<open>Reading the aggregates off the ladder.\<close>

lemma level_shows:
  assumes "book_shows b M" and "level_at (side_levels b sd) px = Some (q, c)"
  shows "sint q = agg_qty (sd = chB) px M"
  using assms by (auto simp: book_shows_def side_levels_def side_shows_iff split: if_splits)

lemma level_missing:
  assumes "book_shows b M" and "level_at (side_levels b sd) px = None"
  shows "agg_cnt (sd = chB) px M = 0"
  using assms by (auto simp: book_shows_def side_levels_def side_shows_iff split: if_splits)

lemma level_of_live:
  assumes "book_shows b M" and "live_ok M" and "M k = Some (sd, px, q)"
  shows "\<exists>lq c. level_at (side_levels b sd) px = Some (lq, c)"
  using level_missing [OF assms(1)] agg_cnt_live(1) [OF assms(2,3)]
  by (cases "level_at (side_levels b sd) px") fastforce+

lemma book_shows_frame [simp]:
  "book_shows (b\<lparr>lob_orderTable := t\<rparr>) M = book_shows b M"
  "book_shows (set_remaining b p q d) M = book_shows b M"
  "book_shows (b\<lparr>lob_tradesExecutedCount := n\<rparr>) M = book_shows b M"
  "book_shows (b\<lparr>lob_totalMessagesProcessed := n\<rparr>) M = book_shows b M"
  "book_shows (track_seq b s) M = book_shows b M"
  by (simp_all add: book_shows_def set_remaining_def Let_def frame_simps)

lemma side_levels_frame [simp]:
  "side_levels (b\<lparr>lob_orderTable := t\<rparr>) sd = side_levels b sd"
  "side_levels (b\<lparr>lob_tradesExecutedCount := n\<rparr>) sd = side_levels b sd"
  "side_levels (b\<lparr>lob_totalMessagesProcessed := n\<rparr>) sd = side_levels b sd"
  "side_levels (track_seq b s) sd = side_levels b sd"
  by (simp_all add: side_levels_def frame_simps)

section \<open>Each handler keeps the ladders on the live orders\<close>

lemma processAdd_shows:
  assumes inv: "lob_inv b" and M: "live_ok (live_orders b)" and shows_M: "book_shows b (live_orders b)"
    and q: "0 <s add_quantity a" and new: "live_orders b (add_orderId a) = None"
    and stored: "table_insert (lob_orderTable b) (add_orderId a) (add_side a)
      (add_price a) (add_quantity a) (add_timestampNs a) = (t', Some p)"
    and room: "case level_at (side_levels b (add_side a)) (add_price a) of
        None \<Rightarrow> \<not> side_full (side_levels b (add_side a))
      | Some (lq, c) \<Rightarrow> sint lq + sint (add_quantity a) < 2 ^ 31"
  shows "live_ok (spec_add (live_orders b) a)"
    and "book_shows (processAdd b a) (spec_add (live_orders b) a)"
proof -
  let ?M = "live_orders b" and ?sd = "add_side a" and ?px = "add_price a" and ?q = "add_quantity a"
  let ?v = "Some (?sd, ?px, ?q)"
  have t: "table_inv (lob_orderTable b)" using inv by (simp add: lob_inv_def)
  have inv': "lob_inv (b\<lparr>lob_orderTable := t'\<rparr>)"
    by (rule lob_inv_table [OF inv tbl.ins_inv [OF t stored]])
  show M': "live_ok (spec_add ?M a)"
    unfolding spec_add_def by (rule live_ok_upd [OF M]) (simp add: q)
  have bound: "agg_qty (?sd = chB) ?px (?M(add_orderId a := ?v)) < 2 ^ 31"
  proof (cases "level_at (side_levels b ?sd) ?px")
    case None
    from level_missing [OF shows_M None] agg_bounds(3) [OF M]
    have "agg_qty (?sd = chB) ?px ?M = 0" by blast
    then show ?thesis
      using agg_upd(1) [OF M] sint_i32_range [of ?q] new by (simp add: contrib_qty_def)
  next
    case (Some r)
    then obtain lq c where lv: "level_at (side_levels b ?sd) ?px = Some (lq, c)" by (cases r) auto
    show ?thesis
      using agg_upd(1) [OF M] room lv level_shows [OF shows_M lv] new by (simp add: contrib_qty_def)
  qed
  have "book_shows (apply_side (b\<lparr>lob_orderTable := t'\<rparr>) ?sd ?px ?q 1) (?M(add_orderId a := ?v))"
    by (rule apply_side_shows [OF inv' M M' [unfolded spec_add_def] _ _ _ _ _ bound])
      (use shows_M new q room in \<open>simp_all add: rests_at_def remaining_def presence_def\<close>)
  then show "book_shows (processAdd b a) (spec_add ?M a)"
    by (simp add: processAdd_def stored spec_add_def)
qed

text \<open>Both reducing handlers: the level of a live order gets the change of its quantity.\<close>

lemma reduce_shows:
  assumes inv: "lob_inv b" and M: "live_ok (live_orders b)" and shows_M: "book_shows b (live_orders b)"
    and live: "live_orders b k = Some (sd, px, q)"
    and v: "v = (if gone then None else Some (sd, px, q'))" and pos: "\<not> gone \<Longrightarrow> 0 <s q'"
    and dq: "sint dq = (if gone then 0 else sint q') - sint q" and dc: "dc = (if gone then - 1 else 0)"
    and bound: "\<And>lq c. level_at (side_levels b sd) px = Some (lq, c) \<Longrightarrow> sint lq + sint dq < 2 ^ 31"
  shows "live_ok ((live_orders b)(k := v))"
    and "book_shows (apply_side b sd px dq dc) ((live_orders b)(k := v))"
proof -
  show M': "live_ok ((live_orders b)(k := v))"
    by (rule live_ok_upd [OF M]) (use pos v in auto)
  obtain lq c where lv: "level_at (side_levels b sd) px = Some (lq, c)"
    using level_of_live [OF shows_M M live] by blast
  have bnd: "agg_qty (sd = chB) px ((live_orders b)(k := v)) < 2 ^ 31"
    using agg_upd(1) [OF M] level_shows [OF shows_M lv] bound [OF lv] live dq v
    by (cases gone) (auto simp: contrib_qty_def)
  show "book_shows (apply_side b sd px dq dc) ((live_orders b)(k := v))"
    by (rule apply_side_shows [OF inv M M' shows_M _ _ _ _ bnd])
      (use live v dq dc lv in \<open>auto simp: rests_at_def remaining_def presence_def\<close>)
qed

lemma processCancel_live:
  assumes "live_orders b (cancel_orderId c) = Some (sd, px, q)"
  shows "\<exists>p. processCancel b c = set_remaining
    (apply_side b sd px (cancel_quantity c - q) (if cancel_quantity c <=s 0 then - 1 else 0))
    p (cancel_quantity c) (cancel_quantity c <=s 0)"
  using assms by (auto simp: live_orders_Some processCancel_def Let_def)

lemma processExecute_live:
  assumes "live_orders b (exec_orderId e) = Some (sd, px, q)"
  shows "\<exists>p. processExecute b e = set_remaining
    (apply_side (b\<lparr>lob_tradesExecutedCount := lob_tradesExecutedCount b + 1\<rparr>) sd px
      (- exec_execQuantity e) (if exec_left (exec_execQuantity e) q = 0 then - 1 else 0))
    p (exec_left (exec_execQuantity e) q) (exec_left (exec_execQuantity e) q = 0)"
  using assms by (auto simp: live_orders_Some processExecute_def exec_left_def Let_def)

lemma live_pos: "live_ok M \<Longrightarrow> M k = Some (sd, px, q) \<Longrightarrow> 0 < sint q"
  unfolding live_ok_def sless_iff by fastforce

lemma processCancel_shows:
  assumes inv: "lob_inv b" and M: "live_ok (live_orders b)" and shows_M: "book_shows b (live_orders b)"
    and ok: "case live_orders b (cancel_orderId c) of None \<Rightarrow> True
      | Some (sd, px, q) \<Rightarrow> 0 <=s cancel_quantity c \<and> (case level_at (side_levels b sd) px of
            None \<Rightarrow> True
          | Some (lq, n) \<Rightarrow> sint lq - sint q + sint (cancel_quantity c) < 2 ^ 31)"
  defines "M' \<equiv> spec_reduce (live_orders b) (cancel_orderId c) (\<lambda>q. cancel_quantity c) (\<lambda>q. q <=s 0)"
  shows "live_ok M' \<and> book_shows (processCancel b c) M'"
proof (cases "live_orders b (cancel_orderId c)")
  case None
  then have "processCancel b c = b"
    by (auto simp: processCancel_def live_orders_None Let_def split: option.splits)
  then show ?thesis using None M shows_M by (simp add: M'_def spec_reduce_def)
next
  case (Some r)
  then obtain sd px q where live: "live_orders b (cancel_orderId c) = Some (sd, px, q)" by (cases r) auto
  let ?q = "cancel_quantity c"
  let ?v = "if ?q <=s 0 then None else Some (sd, px, ?q)"
  have q: "0 \<le> sint ?q" "0 < sint q"
    using ok live live_pos [OF M live] by (auto simp: sle_iff)
  then have dq: "sint (?q - q) = sint ?q - sint q"
    using sint_i32_range [of ?q] sint_i32_range [of q] by (intro sint_diff_exact) auto
  have "live_ok ((live_orders b)(cancel_orderId c := ?v))
    \<and> book_shows (apply_side b sd px (?q - q) (if ?q <=s 0 then - 1 else 0))
        ((live_orders b)(cancel_orderId c := ?v))"
    by (rule conjI; rule reduce_shows [OF inv M shows_M live refl, where dq = "?q - q"])
      (use ok live q dq in \<open>auto simp: not_sle_iff sle_iff sless_iff\<close>)
  then show ?thesis
    using processCancel_live [OF live] live by (auto simp: M'_def spec_reduce_def)
qed

lemma processExecute_shows:
  assumes inv: "lob_inv b" and M: "live_ok (live_orders b)" and shows_M: "book_shows b (live_orders b)"
    and ok: "case live_orders b (exec_orderId e) of None \<Rightarrow> True
      | Some (sd, px, q) \<Rightarrow> 0 <s exec_execQuantity e \<and> exec_execQuantity e <=s q"
  defines "M' \<equiv> spec_reduce (live_orders b) (exec_orderId e) (exec_left (exec_execQuantity e)) (\<lambda>q. q = 0)"
  shows "live_ok M' \<and> book_shows (processExecute b e) M'"
proof (cases "live_orders b (exec_orderId e)")
  case None
  then have "processExecute b e = b\<lparr>lob_tradesExecutedCount := lob_tradesExecutedCount b + 1\<rparr>"
    by (auto simp: processExecute_def live_orders_None Let_def split: option.splits)
  then show ?thesis using None M shows_M by (simp add: M'_def spec_reduce_def)
next
  case (Some r)
  then obtain sd px q where live: "live_orders b (exec_orderId e) = Some (sd, px, q)" by (cases r) auto
  let ?b = "b\<lparr>lob_tradesExecutedCount := lob_tradesExecutedCount b + 1\<rparr>"
  let ?e = "exec_execQuantity e" and ?left = "exec_left (exec_execQuantity e) q"
  let ?v = "if ?left = 0 then None else Some (sd, px, ?left)"
  have e: "0 < sint ?e" "sint ?e \<le> sint q"
    using ok live by (auto simp: sle_iff sless_iff)
  then have left: "sint ?left = sint q - sint ?e"
    using sint_i32_range [of q] sint_diff_exact [of q ?e] by (auto simp: exec_left_def sless_iff)
  have neg: "sint (- ?e) = - sint ?e" using e by (intro sint_neg_exact) simp
  have zero: "?left = 0 \<longleftrightarrow> sint q = sint ?e" using left by (simp flip: sint_inj)
  have "live_ok ((live_orders b)(exec_orderId e := ?v))
    \<and> book_shows (apply_side ?b sd px (- ?e) (if ?left = 0 then - 1 else 0))
        ((live_orders b)(exec_orderId e := ?v))"
  proof -
    have lv: "sint lq + sint (- ?e) < 2 ^ 31" for lq :: i32
      using e neg sint_i32_range [of lq] by simp
    have inv': "lob_inv ?b" and eq: "live_orders ?b = live_orders b" using inv by simp_all
    show ?thesis
      by (rule conjI; rule reduce_shows [of ?b, unfolded eq, OF inv' M _ live refl, where dq = "- ?e"])
        (use shows_M left neg zero e lv in \<open>auto simp: sless_iff\<close>)
  qed
  then show ?thesis
    using processExecute_live [OF live] live by (auto simp: M'_def spec_reduce_def)
qed

text \<open>One message of a well-behaved feed.\<close>

lemma consistent_step:
  assumes "book_consistent b" and ok: "step_ok b m"
  shows "book_consistent (processMessage b m)"
    and "live_orders (processMessage b m) = spec_message (live_orders b) m"
proof -
  let ?b = "track_seq (b\<lparr>lob_totalMessagesProcessed := lob_totalMessagesProcessed b + 1\<rparr>) (seqNo m)"
  have b: "lob_inv ?b" "live_ok (live_orders ?b)" "book_shows ?b (live_orders ?b)"
    "live_orders ?b = live_orders b" "lob_orderTable ?b = lob_orderTable b" "lob_inv b"
    using assms(1) by (simp_all add: book_consistent_def frame_simps)
  have lv: "side_levels ?b = side_levels b" by (rule ext) simp
  have kept: "\<not> add_dropped b m"
    using ok by (auto simp: step_ok_def add_dropped_def Let_def)
  show live: "live_orders (processMessage b m) = spec_message (live_orders b) m"
    using processMessage_refines [OF b(6)] kept by simp
  have "live_ok (spec_message (live_orders b) m)
    \<and> book_shows (processMessage b m) (spec_message (live_orders b) m)"
  proof -
    consider (add) "msgType m = chA" | (cancel) "msgType m = chX" | (exec) "msgType m = chE"
      | (other) "msgType m \<noteq> chA" "msgType m \<noteq> chX" "msgType m \<noteq> chE" by blast
    then show ?thesis
    proof cases
      case add
      have t: "table_inv (lob_orderTable ?b)" using b(1) by (simp add: lob_inv_def)
      obtain t' r where ins: "table_insert (lob_orderTable ?b) (orderId_of m)
          (add_side (wire_add m)) (add_price (wire_add m)) (add_quantity (wire_add m))
          (add_timestampNs (wire_add m)) = (t', r)" by (metis prod.exhaust)
      obtain p where r: "r = Some p"
        using table_insert_saturated [OF t ins] kept add b(5)
        by (cases r) (auto simp: add_dropped_def store_view_def)
      show ?thesis
        using processAdd_shows [OF b(1,2,3), unfolded lv, of "wire_add m" t' p] ins ok add b(4)
        by (simp add: processMessage_def Let_def spec_message_def step_ok_def header_views r)
    next
      case cancel
      show ?thesis
        using processCancel_shows [OF b(1,2,3), unfolded lv, of "wire_cancel m"] ok cancel b(4)
        by (simp add: processMessage_def Let_def spec_message_def step_ok_def header_views)
    next
      case exec
      show ?thesis
        using processExecute_shows [OF b(1,2,3), unfolded lv, of "wire_exec m"] ok exec b(4)
        by (simp add: processMessage_def Let_def spec_message_def step_ok_def header_views)
    next
      case other
      then show ?thesis
        using b by (simp add: processMessage_def Let_def spec_message_def)
    qed
  qed
  then show "book_consistent (processMessage b m)"
    using live processMessage_inv [OF b(6)] by (simp add: book_consistent_def)
qed

section \<open>Whole feeds\<close>

lemma consistent_feed:
  "book_consistent b \<Longrightarrow> feed_ok b ms \<Longrightarrow> book_consistent (processAll b ms)
     \<and> live_orders (processAll b ms) = foldl spec_message (live_orders b) ms"
  by (induction ms arbitrary: b) (auto simp: consistent_step)

lemma live_orders_new [simp]:
  assumes "cap_ok n"
  shows "live_orders (LimitOrderBook_new d n) = Map.empty"
proof -
  have "lob_orderTable (LimitOrderBook_new d n) = OrderTable_new n"
    by (simp add: LimitOrderBook_new_def lob_reset_def OrderTable_new_def table_clear_def)
  then show ?thesis
    using assms by (simp add: live_orders_def live_of_def store_view_def fun_eq_iff)
qed

lemma book_consistent_new: "0 < d \<Longrightarrow> cap_ok n \<Longrightarrow> book_consistent (LimitOrderBook_new d n)"
  by (simp add: book_consistent_def lob_inv_new live_ok_def book_shows_def side_shows_iff
      agg_cnt_def agg_qty_def map_sum_def)
    (simp add: LimitOrderBook_new_def lob_reset_def level_at_def actives_def takeWhile_replicate)

lemma contrib_cnt_zero_iff:
  "contrib_cnt bd px r = 0 \<longleftrightarrow> (\<forall>sd q. r = Some (sd, px, q) \<longrightarrow> (sd = chB) \<noteq> bd)"
  by (auto simp: contrib_cnt_def split: option.splits if_splits)

text \<open>The aggregate at a price is nonzero exactly when a live order rests there.\<close>

lemma agg_cnt_zero_iff:
  assumes "live_ok M"
  shows "agg_cnt bd px M = 0 \<longleftrightarrow> (\<forall>k sd q. M k = Some (sd, px, q) \<longrightarrow> (sd = chB) \<noteq> bd)"
proof -
  have fin: "finite (dom M)" using assms by (simp add: live_ok_def)
  have "agg_cnt bd px M = 0 \<longleftrightarrow> (\<forall>k \<in> dom M. contrib_cnt bd px (M k) = 0)"
    unfolding agg_cnt_def map_sum_def
    by (rule sum_nonneg_eq_0_iff [OF fin]) (rule contrib_bounds(1) [OF assms])
  also have "\<dots> \<longleftrightarrow> (\<forall>k. contrib_cnt bd px (M k) = 0)"
    using contrib_None(2) [of bd px] by (metis domIff)
  finally show ?thesis by (simp add: contrib_cnt_zero_iff)
qed

lemma side_shows_cases:
  assumes ok: "side_ok asc levels" and shows_M: "side_shows levels M bd" and M: "live_ok M"
  shows "case level_at levels px of
      None \<Rightarrow> \<forall>k sd q. M k = Some (sd, px, q) \<longrightarrow> (sd = chB) \<noteq> bd
    | Some (q, c) \<Rightarrow> 0 < sint c \<and> sint q = agg_qty bd px M \<and> sint c = agg_cnt bd px M"
proof (cases "level_at levels px")
  case None
  then show ?thesis using shows_M agg_cnt_zero_iff [OF M] by (simp add: side_shows_iff)
next
  case (Some r)
  then obtain q c where at: "level_at levels px = Some (q, c)" by (cases r) auto
  have "0 < sint c"
    using level_at_SomeD [OF at] ok by (auto simp: side_ok_def list_all_iff lvl_pos_def sless_iff)
  then show ?thesis using shows_M at by (auto simp: side_shows_iff)
qed

lemma level_at_live:
  assumes "side_ok asc levels" and "side_shows levels M bd" and M: "live_ok M"
  shows "px \<in> dom (level_at levels) \<longleftrightarrow> (\<exists>k sd q. M k = Some (sd, px, q) \<and> (sd = chB) = bd)"
proof (cases "level_at levels px")
  case None
  then show ?thesis using side_shows_cases [OF assms, of px] by (simp add: domIff) blast
next
  case (Some r)
  then have "agg_cnt bd px M \<noteq> 0" using side_shows_cases [OF assms, of px] by (cases r) simp
  then show ?thesis using Some by (simp add: agg_cnt_zero_iff [OF M] domIff)
qed

text \<open>The front of a ladder that shows the live orders.\<close>

lemma front_live:
  assumes ok: "side_ok asc levels" "levels \<noteq> []" and shows_M: "side_shows levels M bd" and M: "live_ok M"
  shows "lvl_active (levels ! 0) \<longleftrightarrow> (\<exists>k sd px q. M k = Some (sd, px, q) \<and> (sd = chB) = bd)"
    and "lvl_active (levels ! 0) \<Longrightarrow>
      sint (lvl_quantity (levels ! 0)) = agg_qty bd (lvl_price (levels ! 0)) M
      \<and> (\<exists>k sd q. M k = Some (sd, lvl_price (levels ! 0), q) \<and> (sd = chB) = bd)
      \<and> (\<forall>k sd px q. M k = Some (sd, px, q) \<and> (sd = chB) = bd
           \<longrightarrow> px = lvl_price (levels ! 0) \<or> price_before asc (lvl_price (levels ! 0)) px)"
proof -
  note live = level_at_live [OF ok(1) shows_M M]
  show "lvl_active (levels ! 0) \<longleftrightarrow> (\<exists>k sd px q. M k = Some (sd, px, q) \<and> (sd = chB) = bd)"
    using front_best(1) [OF ok] live by (metis all_not_in_conv)
  assume act: "lvl_active (levels ! 0)"
  note best = front_best(2) [OF ok act]
  let ?px = "lvl_price (levels ! 0)"
  have "sint (lvl_quantity (levels ! 0)) = agg_qty bd ?px M"
    using best shows_M by (auto simp: side_shows_iff)
  moreover have "?px \<in> dom (level_at levels)" using best by auto
  ultimately show "sint (lvl_quantity (levels ! 0)) = agg_qty bd ?px M
      \<and> (\<exists>k sd q. M k = Some (sd, ?px, q) \<and> (sd = chB) = bd)
      \<and> (\<forall>k sd px q. M k = Some (sd, px, q) \<and> (sd = chB) = bd
           \<longrightarrow> px = ?px \<or> price_before asc ?px px)"
    using best live by blast
qed

section \<open>Properties\<close>

text \<open>C3: The ladders are the aggregation of the live orders. After any well-behaved feed (every
  message meets \<open>step_ok\<close> in the state it arrives in: positive quantities, fresh ids, fills of at most
  what is left, no saturated table, no new price on a full side, 32-bit sums), into a fresh book of
  any depth and capacity, the order table holds exactly the orders the specification leaves live, and
  on either side a price is on the ladder exactly when a live order rests there, with the total
  remaining quantity and the number of those orders.\<close>

theorem ladders_aggregate_orders:
  assumes "0 < Depth" and "cap_ok TableCapacity"
    and "feed_ok (LimitOrderBook_new Depth TableCapacity) ms"
  shows "let b = processAll (LimitOrderBook_new Depth TableCapacity) ms;
             M = foldl spec_message Map.empty ms
    in live_orders b = M
     \<and> (\<forall>px. case level_at (lob_bids b) px of
            None \<Rightarrow> \<forall>k sd q. M k = Some (sd, px, q) \<longrightarrow> sd \<noteq> chB
          | Some (q, c) \<Rightarrow> 0 < sint c \<and> sint q = agg_qty True px M \<and> sint c = agg_cnt True px M)
     \<and> (\<forall>px. case level_at (lob_asks b) px of
            None \<Rightarrow> \<forall>k sd q. M k = Some (sd, px, q) \<longrightarrow> sd = chB
          | Some (q, c) \<Rightarrow> 0 < sint c \<and> sint q = agg_qty False px M \<and> sint c = agg_cnt False px M)"
proof -
  let ?b = "processAll (LimitOrderBook_new Depth TableCapacity) ms"
  let ?M = "foldl spec_message Map.empty ms"
  have c: "book_consistent ?b" and M: "live_orders ?b = ?M"
    using consistent_feed [OF book_consistent_new [OF assms(1,2)] assms(3)] assms(2) by simp_all
  then have ok: "live_ok ?M" and shows_M: "side_shows (lob_bids ?b) ?M True" "side_shows (lob_asks ?b) ?M False"
    and sides: "side_ok False (lob_bids ?b)" "side_ok True (lob_asks ?b)"
    by (simp_all add: book_consistent_def book_shows_def lob_inv_def)
  show ?thesis
    unfolding Let_def
    by (intro conjI allI M side_shows_cases [OF sides(1) shows_M(1) ok, simplified simp_thms]
        side_shows_cases [OF sides(2) shows_M(2) ok, simplified simp_thms])
qed

text \<open>Five messages: two bids and one ask; one bid is partly filled, the other withdrawn.\<close>

definition ex_feed :: "WireMessage list" where
  "ex_feed = [ex_add 1 7 chB 100 50, ex_add 2 8 chB 99 20, ex_add 3 9 chS 102 30,
     ex_exec 4 7 10 100, ex_cancel 5 8 0]"

lemma feed_ok_ex: "feed_ok (LimitOrderBook_new 3 4) ex_feed"
  by code_simp

theorem ladders_aggregate_orders_witness:
  "level_at (lob_bids (processAll (LimitOrderBook_new 3 4) ex_feed)) 100 = Some (40, 1)
   \<and> agg_qty True 100 (foldl spec_message Map.empty ex_feed) = 40
   \<and> foldl spec_message Map.empty ex_feed 8 = None"
proof -
  have lv: "level_at (lob_bids (processAll (LimitOrderBook_new 3 4) ex_feed)) 100 = Some (40, 1)"
    by code_simp
  have gone: "live_orders (processAll (LimitOrderBook_new 3 4) ex_feed) 8 = None" by code_simp
  have "0 < (3 :: nat)" "cap_ok 4" by (simp_all add: cap_ok_def)
  from ladders_aggregate_orders [OF this feed_ok_ex, unfolded Let_def, THEN conjunct2, THEN conjunct1,
      rule_format, of 100] ladders_aggregate_orders [OF this feed_ok_ex, unfolded Let_def, THEN conjunct1]
  show ?thesis using lv gone by simp
qed

text \<open>C4: The best bid and offer are the best live orders. In a consistent book \<open>hasBids\<close> says whether
  a live buy order exists; if so \<open>bestBidPrice\<close> is the highest price at which one rests and
  \<open>bestBidQuantity\<close> the total remaining quantity there; symmetrically for asks, with the lowest
  price.\<close>

theorem bbo_correct:
  assumes "book_consistent b"
  shows "(hasBids b \<longleftrightarrow> (\<exists>k px q. live_orders b k = Some (chB, px, q)))
    \<and> (hasBids b \<longrightarrow> (\<exists>k q. live_orders b k = Some (chB, bestBidPrice b, q))
         \<and> (\<forall>k px q. live_orders b k = Some (chB, px, q) \<longrightarrow> px <=s bestBidPrice b)
         \<and> sint (bestBidQuantity b) = agg_qty True (bestBidPrice b) (live_orders b))
    \<and> (hasAsks b \<longleftrightarrow> (\<exists>k sd px q. live_orders b k = Some (sd, px, q) \<and> sd \<noteq> chB))
    \<and> (hasAsks b \<longrightarrow> (\<exists>k sd q. live_orders b k = Some (sd, bestAskPrice b, q) \<and> sd \<noteq> chB)
         \<and> (\<forall>k sd px q. live_orders b k = Some (sd, px, q) \<and> sd \<noteq> chB \<longrightarrow> bestAskPrice b <=s px)
         \<and> sint (bestAskQuantity b) = agg_qty False (bestAskPrice b) (live_orders b))"
proof -
  have ok: "live_ok (live_orders b)"
    and bid: "side_ok False (lob_bids b)" "lob_bids b \<noteq> []" "side_shows (lob_bids b) (live_orders b) True"
    and ask: "side_ok True (lob_asks b)" "lob_asks b \<noteq> []" "side_shows (lob_asks b) (live_orders b) False"
    using assms by (simp_all add: book_consistent_def book_shows_def lob_inv_def)
  note fb = front_live [OF bid ok] and fa = front_live [OF ask ok]
  have bids: "hasBids b \<longleftrightarrow> (\<exists>k px q. live_orders b k = Some (chB, px, q))"
    using fb(1) by (auto simp: hasBids_def)
  have asks: "hasAsks b \<longleftrightarrow> (\<exists>k sd px q. live_orders b k = Some (sd, px, q) \<and> sd \<noteq> chB)"
    using fa(1) by (simp add: hasAsks_def)
  have best_bid: "(\<exists>k q. live_orders b k = Some (chB, bestBidPrice b, q))
         \<and> (\<forall>k px q. live_orders b k = Some (chB, px, q) \<longrightarrow> px <=s bestBidPrice b)
         \<and> sint (bestBidQuantity b) = agg_qty True (bestBidPrice b) (live_orders b)" if "hasBids b"
    using fb(2) that
    by (auto simp: hasBids_def bestBidPrice_def bestBidQuantity_def price_before_def sle_less_iff)
  have best_ask: "(\<exists>k sd q. live_orders b k = Some (sd, bestAskPrice b, q) \<and> sd \<noteq> chB)
         \<and> (\<forall>k sd px q. live_orders b k = Some (sd, px, q) \<and> sd \<noteq> chB \<longrightarrow> bestAskPrice b <=s px)
         \<and> sint (bestAskQuantity b) = agg_qty False (bestAskPrice b) (live_orders b)" if "hasAsks b"
    using fa(2) that
    by (auto simp: hasAsks_def bestAskPrice_def bestAskQuantity_def price_before_def sle_less_iff)
  from bids asks best_bid best_ask show ?thesis by blast
qed

lemma consistent_ex: "book_consistent (processAll (LimitOrderBook_new 3 4) ex_feed)"
  using consistent_feed [OF book_consistent_new feed_ok_ex] by (simp add: cap_ok_def)

theorem bbo_correct_witness:
  "hasBids (processAll (LimitOrderBook_new 3 4) ex_feed)
   \<and> sint (bestBidQuantity (processAll (LimitOrderBook_new 3 4) ex_feed))
       = agg_qty True 100 (live_orders (processAll (LimitOrderBook_new 3 4) ex_feed))"
proof -
  have "hasBids (processAll (LimitOrderBook_new 3 4) ex_feed)"
    "bestBidPrice (processAll (LimitOrderBook_new 3 4) ex_feed) = 100" by code_simp+
  then show ?thesis using bbo_correct [OF consistent_ex] by simp
qed

section \<open>Where the conditions on the feed matter\<close>

text \<open>What one handler call does to the level of a price.\<close>

lemma side_levels_apply [simp]:
  "side_levels (apply_side b sd px dq dc) sd = applyDelta (side_levels b sd) px dq dc (sd \<noteq> chB)"
  by (simp add: side_levels_def apply_side_def)

lemma side_levels_remaining [simp]: "side_levels (set_remaining b p q d) sd = side_levels b sd"
  by (simp add: side_levels_def frame_simps)

lemma side_levels_ok: "lob_inv b \<Longrightarrow> side_ok (sd \<noteq> chB) (side_levels b sd)"
  by (simp add: lob_inv_def side_levels_def)

text \<open>C38: A repeated Add leaves phantom quantity. In a consistent book, an Add for an id that is
  already live at the same price and side replaces the order but adds its whole quantity to the
  level: the level then shows exactly the old order's remaining quantity more than the orders that
  are live there.\<close>

theorem duplicate_add_inflates:
  assumes "book_consistent b" and "live_orders b (orderId_of m) = Some (sd, px, q)"
    and "msgType m = chA" and "add_side (wire_add m) = sd" and "add_price (wire_add m) = px"
    and "0 <s add_quantity (wire_add m)"
    and "agg_qty (sd = chB) px (live_orders b) + sint (add_quantity (wire_add m)) < 2 ^ 31"
    and "agg_cnt (sd = chB) px (live_orders b) + 1 < 2 ^ 31"
  shows "\<exists>lq lc. level_at (side_levels (processMessage b m) sd) px = Some (lq, lc)
    \<and> sint lq = agg_qty (sd = chB) px (live_orders (processMessage b m)) + sint q"
proof -
  let ?b = "track_seq (b\<lparr>lob_totalMessagesProcessed := lob_totalMessagesProcessed b + 1\<rparr>) (seqNo m)"
  let ?a = "wire_add m" and ?q = "add_quantity (wire_add m)" and ?M = "live_orders b"
  have inv: "lob_inv b" and M: "live_ok ?M" and shows_M: "book_shows b ?M"
    using assms(1) by (simp_all add: book_consistent_def)
  have b: "lob_inv ?b" "table_inv (lob_orderTable ?b)" "lob_orderTable ?b = lob_orderTable b"
    using inv by (simp_all add: frame_simps lob_inv_def)
  have kept: "\<not> add_dropped b m"
    using assms(2) by (auto simp: add_dropped_def live_orders_Some)
  have live: "live_orders (processMessage b m) = ?M(orderId_of m \<mapsto> (sd, px, ?q))"
    using processMessage_refines [OF inv] kept assms(3-5)
    by (simp add: spec_message_def spec_add_def header_views)
  obtain t' r where ins: "table_insert (lob_orderTable ?b) (orderId_of m) sd px ?q (add_timestampNs ?a)
      = (t', r)" by (metis prod.exhaust)
  obtain p where "r = Some p"
    using table_insert_saturated [OF b(2) ins] kept assms(3) b(3)
    by (cases r) (auto simp: add_dropped_def store_view_def)
  then have step: "processMessage b m = apply_side (?b\<lparr>lob_orderTable := t'\<rparr>) sd px ?q 1"
    using ins assms(3-5) by (simp add: processMessage_def Let_def processAdd_def header_views)
  obtain lq lc where at: "level_at (side_levels b sd) px = Some (lq, lc)"
    using level_of_live [OF shows_M M assms(2)] by blast
  have lq: "sint lq = agg_qty (sd = chB) px ?M" by (rule level_shows [OF shows_M at])
  have lc: "sint lc = agg_cnt (sd = chB) px ?M"
    using shows_M at by (auto simp: book_shows_def side_levels_def side_shows_iff split: if_splits)
  have pos: "0 < sint lq" "0 < sint lc" "0 < sint ?q"
    using lq lc agg_cnt_live(1) [OF M assms(2)] agg_bounds(2) [OF M, of "sd = chB" px] assms(6)
    by (auto simp: sless_iff)
  have sums: "sint (lq + ?q) = sint lq + sint ?q" "sint (lc + 1) = sint lc + 1"
    using pos lq lc assms(7,8) sint_add_exact [of lq ?q] sint_add_exact [of lc 1] by auto
  have "level_at (side_levels (processMessage b m) sd) px = Some (lq + ?q, lc + 1)"
    using level_at_present [OF side_levels_ok [OF inv] at, of ?q 1] sums pos
    by (simp add: step sle_iff)
  moreover have "agg_qty (sd = chB) px (live_orders (processMessage b m)) = sint lq - sint q + sint ?q"
    using agg_upd(1) [OF M] assms(2) lq by (simp add: live contrib_qty_def)
  ultimately show ?thesis using sums by auto
qed

theorem duplicate_add_inflates_witness:
  "\<exists>lq lc. level_at (side_levels (processMessage (processAll (LimitOrderBook_new 3 4) ex_feed)
       (ex_add 6 7 chB 100 5)) chB) 100 = Some (lq, lc)
     \<and> sint lq = agg_qty True 100 (live_orders (processMessage (processAll (LimitOrderBook_new 3 4) ex_feed)
       (ex_add 6 7 chB 100 5))) + 40"
proof -
  let ?b = "processAll (LimitOrderBook_new 3 4) ex_feed"
  have live: "live_orders ?b (orderId_of (ex_add 6 7 chB 100 5)) = Some (chB, 100, 40)" by code_simp
  have lv: "level_at (lob_bids ?b) 100 = Some (40, 1)" by code_simp
  have "side_shows (lob_bids ?b) (live_orders ?b) True"
    using consistent_ex by (simp add: book_consistent_def book_shows_def)
  note at = side_shows_at [OF this lv]
  have "agg_qty True 100 (live_orders ?b) = 40" "agg_cnt True 100 (live_orders ?b) = 1"
    using at by simp_all
  then show ?thesis
    using duplicate_add_inflates [OF consistent_ex live]
    by (simp add: ex_add_def sless_iff)
qed

text \<open>An overfill takes quantity from the other orders. In a consistent book, an Execute for more
  than a live order has left, on a level that holds more than the fill and another order, removes
  the order but subtracts the whole fill from the level: the level then shows exactly the excess
  less than the orders that are live there.\<close>

theorem overfill_steals:
  assumes "book_consistent b" and "live_orders b (orderId_of m) = Some (sd, px, q)"
    and "msgType m = chE" and "q <s exec_execQuantity (wire_exec m)"
    and "sint (exec_execQuantity (wire_exec m)) < agg_qty (sd = chB) px (live_orders b)"
    and "1 < agg_cnt (sd = chB) px (live_orders b)"
  shows "\<exists>lq lc. level_at (side_levels (processMessage b m) sd) px = Some (lq, lc)
    \<and> sint lq = agg_qty (sd = chB) px (live_orders (processMessage b m))
                 - (sint (exec_execQuantity (wire_exec m)) - sint q)"
proof -
  let ?b = "track_seq (b\<lparr>lob_totalMessagesProcessed := lob_totalMessagesProcessed b + 1\<rparr>) (seqNo m)"
  let ?e = "exec_execQuantity (wire_exec m)" and ?M = "live_orders b"
  have inv: "lob_inv b" and M: "live_ok ?M" and shows_M: "book_shows b ?M"
    using assms(1) by (simp_all add: book_consistent_def)
  have q: "0 < sint q" by (rule live_pos [OF M assms(2)])
  have left: "exec_left ?e q = 0" using assms(4) by (auto simp: exec_left_def sless_iff)
  have live: "live_orders (processMessage b m) = ?M(orderId_of m := None)"
    using processMessage_refines [OF inv] assms(2,3) left
    by (simp add: add_dropped_def spec_message_def spec_reduce_def)
  have "live_orders ?b (exec_orderId (wire_exec m)) = Some (sd, px, q)"
    using assms(2) by (simp add: header_views)
  from processExecute_live [OF this] obtain p where
    step: "processMessage b m = set_remaining (apply_side (?b\<lparr>lob_tradesExecutedCount :=
      lob_tradesExecutedCount ?b + 1\<rparr>) sd px (- ?e) (- 1)) p 0 True"
    using assms(3) left by (auto simp: processMessage_def Let_def)
  obtain lq lc where at: "level_at (side_levels b sd) px = Some (lq, lc)"
    using level_of_live [OF shows_M M assms(2)] by blast
  have lq: "sint lq = agg_qty (sd = chB) px ?M" by (rule level_shows [OF shows_M at])
  have lc: "sint lc = agg_cnt (sd = chB) px ?M"
    using shows_M at by (auto simp: book_shows_def side_levels_def side_shows_iff split: if_splits)
  have e: "0 < sint ?e" using assms(4) q by (simp add: sless_iff)
  have sums: "sint (lq - ?e) = sint lq - sint ?e" "sint (lc - 1) = sint lc - 1"
    using e lq lc assms(5,6) sint_diff_exact [of lq ?e] sint_diff_exact [of lc 1]
      sint_i32_range [of lq] sint_i32_range [of lc] by auto
  have "level_at (side_levels (processMessage b m) sd) px = Some (lq - ?e, lc - 1)"
    using level_at_present [OF side_levels_ok [OF inv] at, of "- ?e" "- 1"] sums lq lc assms(5,6)
    by (simp add: step sle_iff)
  moreover have "agg_qty (sd = chB) px (live_orders (processMessage b m)) = sint lq - sint q"
    using agg_upd(1) [OF M] assms(2) lq by (simp add: live contrib_qty_def)
  ultimately show ?thesis using sums by auto
qed

text \<open>Two bids of 5 at one price.\<close>

definition ex_pair :: "WireMessage list" where
  "ex_pair = [ex_add 1 7 chB 100 5, ex_add 2 8 chB 100 5]"

lemma consistent_pair: "book_consistent (processAll (LimitOrderBook_new 3 4) ex_pair)"
proof -
  have "feed_ok (LimitOrderBook_new 3 4) ex_pair" by code_simp
  then show ?thesis using consistent_feed [OF book_consistent_new] by (simp add: cap_ok_def)
qed

theorem overfill_steals_witness:
  "\<exists>lq lc. level_at (side_levels (processMessage (processAll (LimitOrderBook_new 3 4) ex_pair)
       (ex_exec 3 7 8 100)) chB) 100 = Some (lq, lc)
     \<and> sint lq = agg_qty True 100 (live_orders (processMessage (processAll (LimitOrderBook_new 3 4) ex_pair)
       (ex_exec 3 7 8 100))) - 3"
proof -
  let ?b = "processAll (LimitOrderBook_new 3 4) ex_pair"
  have live: "live_orders ?b (orderId_of (ex_exec 3 7 8 100)) = Some (chB, 100, 5)" by code_simp
  have lv: "level_at (lob_bids ?b) 100 = Some (10, 2)" by code_simp
  have "side_shows (lob_bids ?b) (live_orders ?b) True"
    using consistent_pair by (simp add: book_consistent_def book_shows_def)
  note at = side_shows_at [OF this lv]
  have "agg_qty True 100 (live_orders ?b) = 10" "agg_cnt True 100 (live_orders ?b) = 2"
    using at by simp_all
  then show ?thesis
    using overfill_steals [OF consistent_pair live]
    by (simp add: ex_exec_def sless_iff)
qed

text \<open>A level evicted from a full side is not restored when room comes back (the bounded depth of
  ADR-002): order 1 is live, the ladder is short of it.\<close>

lemma evicted_level_not_restored:
  "lob_bids (processAll (LimitOrderBook_new 1 4)
       [ex_add 1 1 chB 99 5, ex_add 2 2 chB 100 5, ex_cancel 3 2 0]) = [PriceLevel_zero]
   \<and> live_orders (processAll (LimitOrderBook_new 1 4)
       [ex_add 1 1 chB 99 5, ex_add 2 2 chB 100 5, ex_cancel 3 2 0]) 1 = Some (chB, 99, 5)"
  by (intro conjI; code_simp)

end
