(* ===== verification/RingBuffer.thy ===== *)
theory RingBuffer
  imports Prelude
begin

text \<open>
  The single-producer single-consumer ring buffer, \<open>include/feed_handler/ring_buffer.hpp\<close>. The
  template parameter \<open>Capacity\<close> is the length of the array, \<open>T\<close> is \<^typ>\<open>'a\<close>; the indices are 64-bit
  words that wrap. First the calls as functions of the state, against a FIFO queue (the locale
  \<open>fifo_queue\<close>); then the two threads as a step relation in which each atomic access, buffer access
  and return of \<open>tryPush\<close> and \<open>tryPop\<close> is a step of its own and the acquire loads may return old
  values of the other thread's index.
\<close>

section \<open>State\<close>

record 'a SPSCRingBuffer =
  rb_head :: u64
  rb_cachedTail :: u64
  rb_tail :: u64
  rb_cachedHead :: u64
  rb_buffer :: "'a list"

abbreviation ring_capacity :: "'a SPSCRingBuffer \<Rightarrow> nat" where
  "ring_capacity rb \<equiv> length (rb_buffer rb)"

text \<open>The constructor; the elements of the array start as \<open>d\<close>.\<close>

definition ring_new :: "nat \<Rightarrow> 'a \<Rightarrow> 'a SPSCRingBuffer" where
  "ring_new Capacity d = \<lparr>rb_head = 0, rb_cachedTail = 0, rb_tail = 0, rb_cachedHead = 0,
     rb_buffer = replicate Capacity d\<rparr>"

section \<open>The accesses and the calls\<close>

text \<open>\<open>index & MASK\<close>.\<close>

definition ring_slot :: "nat \<Rightarrow> u64 \<Rightarrow> nat" where
  "ring_slot Capacity i = unat (i AND of_nat (Capacity - 1))"

text \<open>Producer: the capacity check against the cached tail, its refresh, the write and the release
  store of the head.\<close>

definition push_full :: "'a SPSCRingBuffer \<Rightarrow> bool" where
  "push_full rb \<longleftrightarrow> rb_head rb - rb_cachedTail rb \<ge> of_nat (ring_capacity rb)"

definition push_reload :: "'a SPSCRingBuffer \<Rightarrow> u64 \<Rightarrow> 'a SPSCRingBuffer" where
  "push_reload rb v = rb\<lparr>rb_cachedTail := v\<rparr>"

definition push_write :: "'a SPSCRingBuffer \<Rightarrow> 'a \<Rightarrow> 'a SPSCRingBuffer" where
  "push_write rb item =
     rb\<lparr>rb_buffer := (rb_buffer rb)[ring_slot (ring_capacity rb) (rb_head rb) := item]\<rparr>"

definition push_publish :: "'a SPSCRingBuffer \<Rightarrow> 'a SPSCRingBuffer" where
  "push_publish rb = rb\<lparr>rb_head := rb_head rb + 1\<rparr>"

definition tryPush :: "'a SPSCRingBuffer \<Rightarrow> 'a \<Rightarrow> 'a SPSCRingBuffer \<times> bool" where
  "tryPush rb item =
     (if push_full rb then
        (let rb = push_reload rb (rb_tail rb) in
         if push_full rb then (rb, False) else (push_publish (push_write rb item), True))
      else (push_publish (push_write rb item), True))"

text \<open>\<open>tryEmplace\<close> constructs the element \<open>T{args...}\<close> in the slot; \<open>construct\<close> is the constructor.\<close>

definition tryEmplace :: "('args \<Rightarrow> 'a) \<Rightarrow> 'a SPSCRingBuffer \<Rightarrow> 'args \<Rightarrow> 'a SPSCRingBuffer \<times> bool" where
  "tryEmplace construct rb args =
     (if push_full rb then
        (let rb = push_reload rb (rb_tail rb) in
         if push_full rb then (rb, False)
         else (push_publish (push_write rb (construct args)), True))
      else (push_publish (push_write rb (construct args)), True))"

text \<open>Consumer: the emptiness check against the cached head, its refresh, the read and the release
  store of the tail.\<close>

definition pop_none :: "'a SPSCRingBuffer \<Rightarrow> bool" where
  "pop_none rb \<longleftrightarrow> rb_tail rb = rb_cachedHead rb"

definition pop_reload :: "'a SPSCRingBuffer \<Rightarrow> u64 \<Rightarrow> 'a SPSCRingBuffer" where
  "pop_reload rb v = rb\<lparr>rb_cachedHead := v\<rparr>"

definition pop_read :: "'a SPSCRingBuffer \<Rightarrow> 'a" where
  "pop_read rb = rb_buffer rb ! ring_slot (ring_capacity rb) (rb_tail rb)"

definition pop_release :: "'a SPSCRingBuffer \<Rightarrow> 'a SPSCRingBuffer" where
  "pop_release rb = rb\<lparr>rb_tail := rb_tail rb + 1\<rparr>"

definition tryPop :: "'a SPSCRingBuffer \<Rightarrow> 'a SPSCRingBuffer \<times> 'a option" where
  "tryPop rb =
     (if pop_none rb then
        (let rb = pop_reload rb (rb_head rb) in
         if pop_none rb then (rb, None) else (pop_release rb, Some (pop_read rb)))
      else (pop_release rb, Some (pop_read rb)))"

definition ring_empty :: "'a SPSCRingBuffer \<Rightarrow> bool" where
  "ring_empty rb \<longleftrightarrow> rb_tail rb = rb_head rb"

definition ring_size :: "'a SPSCRingBuffer \<Rightarrow> u64" where
  "ring_size rb = (let h = rb_head rb; t = rb_tail rb in if h \<ge> t then h - t else 0)"

section \<open>The queue interface\<close>

text \<open>What the pipelines rely on: a bounded FIFO. \<open>push_ok\<close> and \<open>pop_ok\<close> say when the calls succeed
  and what they do to the contents.\<close>

locale fifo_queue =
  fixes inv :: "'q \<Rightarrow> bool"
    and items :: "'q \<Rightarrow> 'a list"
    and bound :: "'q \<Rightarrow> nat"
    and push :: "'q \<Rightarrow> 'a \<Rightarrow> 'q \<times> bool"
    and pop :: "'q \<Rightarrow> 'q \<times> 'a option"
  assumes items_bound: "inv q \<Longrightarrow> length (items q) \<le> bound q"
    and push_law: "inv q \<Longrightarrow> push q x = (q', ok) \<Longrightarrow> inv q' \<and> bound q' = bound q
      \<and> (ok \<longleftrightarrow> length (items q) < bound q) \<and> items q' = items q @ (if ok then [x] else [])"
    and pop_law: "inv q \<Longrightarrow> pop q = (q', r) \<Longrightarrow> inv q' \<and> bound q' = bound q
      \<and> (case r of None \<Rightarrow> items q = [] \<and> items q' = [] | Some x \<Rightarrow> items q = x # items q')"

text \<open>A run of calls: \<open>Some x\<close> pushes \<open>x\<close>, \<^const>\<open>None\<close> pops. It returns what was accepted and what
  was popped.\<close>

fun run_calls :: "('q \<Rightarrow> 'a \<Rightarrow> 'q \<times> bool) \<Rightarrow> ('q \<Rightarrow> 'q \<times> 'a option) \<Rightarrow> 'q \<Rightarrow> 'a option list
    \<Rightarrow> 'q \<times> 'a list \<times> 'a list" where
  "run_calls push pop q [] = (q, [], [])"
| "run_calls push pop q (Some x # cs) =
     (case push q x of (q, ok) \<Rightarrow> case run_calls push pop q cs of (q, accepted, popped) \<Rightarrow>
        (q, (if ok then [x] else []) @ accepted, popped))"
| "run_calls push pop q (None # cs) =
     (case pop q of (q, r) \<Rightarrow> case run_calls push pop q cs of (q, accepted, popped) \<Rightarrow>
        (q, accepted, (case r of None \<Rightarrow> [] | Some x \<Rightarrow> [x]) @ popped))"

context fifo_queue
begin

text \<open>Nothing is lost, duplicated or reordered by any run of calls.\<close>

lemma run_fifo:
  assumes "inv q" and "run_calls push pop q cs = (q', accepted, popped)"
  shows "inv q' \<and> bound q' = bound q \<and> items q @ accepted = popped @ items q'"
  using assms
proof (induction cs arbitrary: q accepted popped)
  case (Cons c cs)
  show ?case
  proof (cases c)
    case (Some x)
    obtain q1 ok where p: "push q x = (q1, ok)" by (cases "push q x")
    obtain q2 a p2 where r: "run_calls push pop q1 cs = (q2, a, p2)" by (cases "run_calls push pop q1 cs")
    show ?thesis
      using Cons.IH [of q1 a p2] Cons.prems push_law [OF Cons.prems(1) p] p r Some by auto
  next
    case None
    obtain q1 o1 where p: "pop q = (q1, o1)" by (cases "pop q")
    obtain q2 a p2 where r: "run_calls push pop q1 cs = (q2, a, p2)" by (cases "run_calls push pop q1 cs")
    show ?thesis
      using Cons.IH [of q1 a p2] Cons.prems pop_law [OF Cons.prems(1) p] p r None
      by (auto split: option.splits)
  qed
qed simp

end

section \<open>Invariant\<close>

text \<open>The four indices are natural numbers in the order \<open>cachedTail \<le> tail \<le> cachedHead \<le> head\<close>, at
  most \<open>Capacity\<close> apart, kept modulo \<open>2^64\<close>.\<close>

definition ring_at :: "'a SPSCRingBuffer \<Rightarrow> nat \<Rightarrow> nat \<Rightarrow> nat \<Rightarrow> nat \<Rightarrow> bool" where
  "ring_at rb ct m ch n \<longleftrightarrow> cap_ok (ring_capacity rb)
     \<and> ct \<le> m \<and> m \<le> ch \<and> ch \<le> n \<and> n \<le> ct + ring_capacity rb
     \<and> rb_cachedTail rb = of_nat ct \<and> rb_tail rb = of_nat m
     \<and> rb_cachedHead rb = of_nat ch \<and> rb_head rb = of_nat n"

definition ring_inv :: "'a SPSCRingBuffer \<Rightarrow> bool" where
  "ring_inv rb \<longleftrightarrow> (\<exists>ct m ch n. ring_at rb ct m ch n)"

text \<open>The elements between the tail and the head, oldest first.\<close>

definition ring_items :: "'a SPSCRingBuffer \<Rightarrow> 'a list" where
  "ring_items rb = map (\<lambda>i. rb_buffer rb ! ring_slot (ring_capacity rb) (rb_tail rb + of_nat i))
     [0..<unat (rb_head rb - rb_tail rb)]"

section \<open>Index arithmetic\<close>

lemma unat_of_nat_diff:
  assumes "a \<le> b" and "b - a < 2 ^ 64"
  shows "unat (of_nat b - of_nat a :: u64) = b - a"
proof -
  have "(of_nat b - of_nat a :: u64) = of_nat (b - a)" using assms(1) by (simp add: of_nat_diff)
  then show ?thesis using assms(2) by (simp add: unat_u64)
qed

lemma ring_slot_of_nat:
  assumes "cap_ok n"
  shows "ring_slot n (of_nat k) = k mod n"
proof -
  obtain j where j: "n = 2 ^ j" "j < 63" using cap_okE [OF assms] .
  then have "n dvd 2 ^ 64" using le_imp_power_dvd [of j 64 "2 :: nat"] by simp
  then have "k mod 2 ^ 64 mod n = k mod n" by (rule mod_mod_cancel)
  then show ?thesis
    using word_and_cap [OF assms, of "of_nat k"] by (simp add: ring_slot_def unat_of_nat)
qed

lemma ring_slot_less [simp]: "cap_ok n \<Longrightarrow> ring_slot n i < n"
  by (simp only: ring_slot_def word_and_cap) simp

lemma mod_window_inj:
  assumes "i mod c = j mod c" and "i < b + c" and "j < b + c" and "b \<le> i" and "b \<le> (j :: nat)"
  shows "i = j"
proof -
  have eq: "i = j" if "i mod c = j mod c" "i \<le> j" "j < i + c" for i j :: nat
  proof -
    have "c dvd j - i" using that(1,2) by (metis mod_eq_dvd_iff_nat)
    moreover have "j - i < c" using that by simp
    ultimately have "j - i = 0" using dvd_imp_le by fastforce
    then show ?thesis using that(2) by simp
  qed
  show ?thesis
  proof (cases "i \<le> j")
    case True
    then show ?thesis using eq [OF assms(1)] assms by simp
  next
    case False
    then show ?thesis using eq [OF assms(1) [symmetric]] assms by simp
  qed
qed

lemma ring_atD:
  assumes "ring_at rb ct m ch n"
  shows "cap_ok (ring_capacity rb)" "ct \<le> m" "m \<le> ch" "ch \<le> n" "n \<le> ct + ring_capacity rb"
    "rb_cachedTail rb = of_nat ct" "rb_tail rb = of_nat m" "rb_cachedHead rb = of_nat ch"
    "rb_head rb = of_nat n" "ring_capacity rb < 2 ^ 63"
  using assms by (simp_all add: ring_at_def cap_ok_def)

lemma push_full_iff:
  assumes "ring_at rb ct m ch n"
  shows "push_full rb \<longleftrightarrow> n = ct + ring_capacity rb"
proof -
  note r = ring_atD [OF assms]
  have "unat (rb_head rb - rb_cachedTail rb) = n - ct"
    unfolding r(6,9) using r by (intro unat_of_nat_diff) auto
  moreover have "unat (of_nat (ring_capacity rb) :: u64) = ring_capacity rb"
    using r(10) by (simp add: unat_u64)
  ultimately show ?thesis using r by (auto simp: push_full_def word_le_nat_alt)
qed

lemma pop_none_iff:
  assumes "ring_at rb ct m ch n"
  shows "pop_none rb \<longleftrightarrow> ch = m"
proof -
  note r = ring_atD [OF assms]
  have "unat (rb_cachedHead rb - rb_tail rb) = ch - m"
    unfolding r(7,8) using r by (intro unat_of_nat_diff) auto
  moreover have "pop_none rb \<longleftrightarrow> unat (rb_cachedHead rb - rb_tail rb) = 0"
    by (auto simp: pop_none_def unat_eq_0)
  ultimately show ?thesis using r by auto
qed

lemma ring_items_at:
  assumes "ring_at rb ct m ch n"
  shows "ring_items rb = map (\<lambda>k. rb_buffer rb ! (k mod ring_capacity rb)) [m..<n]"
proof -
  note r = ring_atD [OF assms]
  have "unat (rb_head rb - rb_tail rb) = n - m"
    unfolding r(7,9) using r by (intro unat_of_nat_diff) auto
  moreover have "ring_slot (ring_capacity rb) (rb_tail rb + of_nat i) = (m + i) mod ring_capacity rb" for i
    using ring_slot_of_nat [OF r(1), of "m + i"] by (simp add: r(7))
  moreover have "[m..<n] = map (\<lambda>i. m + i) [0..<n - m]"
    using r map_add_upt [of m "n - m"] by (simp add: add.commute)
  ultimately show ?thesis by (simp add: ring_items_def comp_def)
qed

lemma length_ring_items: "ring_at rb ct m ch n \<Longrightarrow> length (ring_items rb) = n - m"
  by (simp add: ring_items_at)

text \<open>The effect of each access on the indices.\<close>

lemma push_reload_at:
  "ring_at rb ct m ch n \<Longrightarrow> ct \<le> t \<Longrightarrow> t \<le> m \<Longrightarrow> ring_at (push_reload rb (of_nat t)) t m ch n"
  by (simp add: ring_at_def push_reload_def)

lemma pop_reload_at:
  "ring_at rb ct m ch n \<Longrightarrow> ch \<le> h \<Longrightarrow> h \<le> n \<Longrightarrow> ring_at (pop_reload rb (of_nat h)) ct m h n"
  by (simp add: ring_at_def pop_reload_def)

lemma push_write_at [simp]: "ring_at (push_write rb x) ct m ch n = ring_at rb ct m ch n"
  by (simp add: ring_at_def push_write_def)

lemma push_publish_at:
  "ring_at rb ct m ch n \<Longrightarrow> n < ct + ring_capacity rb \<Longrightarrow> ring_at (push_publish rb) ct m ch (Suc n)"
  by (simp add: ring_at_def push_publish_def)

lemma pop_release_at:
  "ring_at rb ct m ch n \<Longrightarrow> m < ch \<Longrightarrow> ring_at (pop_release rb) ct (Suc m) ch n"
  by (simp add: ring_at_def pop_release_def)

lemma ring_access_frame [simp]:
  "rb_buffer (push_reload rb v) = rb_buffer rb" "rb_buffer (pop_reload rb v) = rb_buffer rb"
  "rb_buffer (push_publish rb) = rb_buffer rb" "rb_buffer (pop_release rb) = rb_buffer rb"
  "length (rb_buffer (push_write rb x)) = ring_capacity rb"
  "rb_tail (push_reload rb v) = rb_tail rb" "rb_tail (push_write rb x) = rb_tail rb"
  "rb_tail (push_publish rb) = rb_tail rb" "rb_tail (pop_reload rb v) = rb_tail rb"
  "rb_head (push_reload rb v) = rb_head rb" "rb_head (push_write rb x) = rb_head rb"
  "rb_head (pop_reload rb v) = rb_head rb" "rb_head (pop_release rb) = rb_head rb"
  by (simp_all add: push_reload_def pop_reload_def push_publish_def pop_release_def push_write_def)

lemma ring_items_reload [simp]:
  "ring_items (push_reload rb v) = ring_items rb" "ring_items (pop_reload rb v) = ring_items rb"
  by (simp_all add: ring_items_def)

text \<open>The slot the producer writes is none of the slots the consumer has still to read.\<close>

lemma push_write_slot:
  assumes "ring_at rb ct m ch n" and "n < ct + ring_capacity rb" and "m \<le> k" and "k \<le> n"
  shows "rb_buffer (push_write rb x) ! (k mod ring_capacity rb)
    = (if k = n then x else rb_buffer rb ! (k mod ring_capacity rb))"
proof -
  note r = ring_atD [OF assms(1)]
  have slot: "ring_slot (ring_capacity rb) (rb_head rb) = n mod ring_capacity rb"
    by (simp add: r(9) ring_slot_of_nat [OF r(1)])
  have lt: "n mod ring_capacity rb < ring_capacity rb"
    by (rule mod_less_divisor) (rule cap_ok_pos [OF r(1)])
  have "k mod ring_capacity rb = n mod ring_capacity rb \<longleftrightarrow> k = n"
    using mod_window_inj [of k "ring_capacity rb" n m] assms r by auto
  then show ?thesis using lt by (auto simp: push_write_def slot)
qed

lemma push_items:
  assumes "ring_at rb ct m ch n" and "n < ct + ring_capacity rb"
  shows "ring_items (push_publish (push_write rb x)) = ring_items rb @ [x]"
proof -
  note r = ring_atD [OF assms(1)]
  have at: "ring_at (push_publish (push_write rb x)) ct m ch (Suc n)"
    using push_publish_at [of "push_write rb x"] assms by simp
  have "[m..<Suc n] = [m..<n] @ [n]" using r by simp
  then show ?thesis
    using push_write_slot [OF assms] r
    by (simp add: ring_items_at [OF at] ring_items_at [OF assms(1)])
qed

lemma pop_items:
  assumes "ring_at rb ct m ch n" and "m < ch"
  shows "ring_items rb = pop_read rb # ring_items (pop_release rb)"
proof -
  note r = ring_atD [OF assms(1)]
  have "[m..<n] = m # [Suc m..<n]" using r assms(2) by (simp add: upt_conv_Cons)
  moreover have "pop_read rb = rb_buffer rb ! (m mod ring_capacity rb)"
    by (simp add: pop_read_def r(7) ring_slot_of_nat [OF r(1)])
  ultimately show ?thesis
    by (simp add: ring_items_at [OF assms(1)] ring_items_at [OF pop_release_at [OF assms]])
qed

section \<open>The calls implement the queue\<close>

lemma ring_new_at: "cap_ok Capacity \<Longrightarrow> ring_at (ring_new Capacity d) 0 0 0 0"
  by (simp add: ring_at_def ring_new_def)

lemma tryPush_law:
  assumes inv: "ring_inv rb" and push: "tryPush rb x = (rb', ok)"
  shows "ring_inv rb' \<and> ring_capacity rb' = ring_capacity rb
    \<and> (ok \<longleftrightarrow> length (ring_items rb) < ring_capacity rb)
    \<and> ring_items rb' = ring_items rb @ (if ok then [x] else [])"
proof -
  obtain ct m ch n where at: "ring_at rb ct m ch n" using inv by (auto simp: ring_inv_def)
  note r = ring_atD [OF at]
  have written: ?thesis if "ring_at b c m ch n" "ring_items b = ring_items rb"
    "ring_capacity b = ring_capacity rb" "n < c + ring_capacity rb"
    "rb' = push_publish (push_write b x)" "ok" for b c
  proof -
    have n: "n < c + ring_capacity b" using that(3,4) by simp
    have "ring_inv rb'"
      using push_publish_at [of "push_write b x" c m ch n] that(1,5) n by (auto simp: ring_inv_def)
    moreover have "length (ring_items rb) < ring_capacity rb"
      using that(4) ring_atD(2) [OF that(1)] length_ring_items [OF at] r(3,4) by linarith
    ultimately show ?thesis using push_items [OF that(1) n, of x] that by simp
  qed
  have reloaded: "ring_at (push_reload rb (rb_tail rb)) m m ch n"
    using push_reload_at [OF at r(2) le_refl] by (simp add: r(7))
  show ?thesis
  proof (cases "push_full rb")
    case False
    then show ?thesis using written [OF at] push push_full_iff [OF at] r(5)
      by (auto simp: tryPush_def)
  next
    case full: True
    show ?thesis
    proof (cases "push_full (push_reload rb (rb_tail rb))")
      case False
      then show ?thesis
        using written [OF reloaded] push full push_full_iff [OF reloaded] ring_atD(5) [OF reloaded]
        by (auto simp: tryPush_def Let_def)
    next
      case True
      then have "rb' = push_reload rb (rb_tail rb)" "\<not> ok"
        using push full by (simp_all add: tryPush_def Let_def)
      then show ?thesis
        using reloaded True push_full_iff [OF reloaded] length_ring_items [OF at]
        by (auto simp: ring_inv_def)
    qed
  qed
qed

lemma tryPop_law:
  assumes inv: "ring_inv rb" and pop: "tryPop rb = (rb', r)"
  shows "ring_inv rb' \<and> ring_capacity rb' = ring_capacity rb
    \<and> (case r of None \<Rightarrow> ring_items rb = [] \<and> ring_items rb' = []
       | Some x \<Rightarrow> ring_items rb = x # ring_items rb')"
proof -
  obtain ct m ch n where at: "ring_at rb ct m ch n" using inv by (auto simp: ring_inv_def)
  note r = ring_atD [OF at]
  have reloaded: "ring_at (pop_reload rb (rb_head rb)) ct m n n"
    using pop_reload_at [OF at r(4) le_refl] by (simp add: r(9))
  show ?thesis
  proof (cases "pop_none rb")
    case False
    then have "m < ch" using pop_none_iff [OF at] r(3) by simp
    then show ?thesis
      using pop False pop_items [OF at] pop_release_at [OF at]
      by (auto simp: tryPop_def ring_inv_def)
  next
    case none: True
    show ?thesis
    proof (cases "pop_none (pop_reload rb (rb_head rb))")
      case False
      then have "m < n" using pop_none_iff [OF reloaded] r by simp
      then show ?thesis
        using pop False none pop_items [OF reloaded] pop_release_at [OF reloaded]
        by (auto simp: tryPop_def Let_def ring_inv_def)
    next
      case True
      then have "n = m" using pop_none_iff [OF reloaded] by simp
      then show ?thesis
        using pop True none reloaded ring_items_at [OF at]
        by (auto simp: tryPop_def Let_def ring_inv_def)
    qed
  qed
qed

lemma ring_items_bound: "ring_inv rb \<Longrightarrow> length (ring_items rb) \<le> ring_capacity rb"
  unfolding ring_inv_def using length_ring_items ring_atD(2-5) by fastforce

interpretation ring: fifo_queue ring_inv ring_items ring_capacity tryPush tryPop
proof unfold_locales
  show "ring_inv q \<Longrightarrow> length (ring_items q) \<le> ring_capacity q" for q :: "'a SPSCRingBuffer"
    by (rule ring_items_bound)
qed (rule tryPush_law tryPop_law; assumption)+

section \<open>The two threads\<close>

text \<open>Where a thread is inside its call. \<open>P_check x\<close>: before the capacity check of \<open>tryPush(x)\<close>;
  \<open>P_write x\<close>: room was found, before the write into the array; \<open>P_publish x\<close>: before the release
  store of \<open>head_\<close>. \<open>C_check\<close>, \<open>C_read\<close>, \<open>C_release x\<close> likewise for \<open>tryPop\<close>.\<close>

datatype 'a prod_pc = P_idle | P_check 'a | P_write 'a | P_publish 'a
datatype 'a cons_pc = C_idle | C_check | C_read | C_release 'a

text \<open>The two histories record the elements whose push and pop have taken effect, and how the last
  call of each thread answered.\<close>

record 'a spsc =
  sp_ring :: "'a SPSCRingBuffer"
  sp_prod :: "'a prod_pc"
  sp_cons :: "'a cons_pc"
  sp_pushed :: "'a list"
  sp_popped :: "'a list"

definition spsc_init :: "nat \<Rightarrow> 'a \<Rightarrow> 'a spsc" where
  "spsc_init Capacity d = \<lparr>sp_ring = ring_new Capacity d, sp_prod = P_idle, sp_cons = C_idle,
     sp_pushed = [], sp_popped = []\<rparr>"

text \<open>An acquire load returns some value the other thread has stored, no older than the one this
  thread saw last (coherence); \<open>seen\<close> is the cached copy, \<open>cur\<close> the newest value. Indices only grow,
  so these are the values between the two, modulo \<open>2^64\<close>.\<close>

definition may_load :: "u64 \<Rightarrow> u64 \<Rightarrow> u64 \<Rightarrow> bool" where
  "may_load seen cur v \<longleftrightarrow> v - seen \<le> cur - seen"

inductive spsc_step :: "'a spsc \<Rightarrow> 'a spsc \<Rightarrow> bool" where
  push_call: "sp_prod s = P_idle \<Longrightarrow> spsc_step s (s\<lparr>sp_prod := P_check x\<rparr>)"
| push_cached: "sp_prod s = P_check x \<Longrightarrow> \<not> push_full (sp_ring s)
    \<Longrightarrow> spsc_step s (s\<lparr>sp_prod := P_write x\<rparr>)"
| push_load_room: "sp_prod s = P_check x \<Longrightarrow> push_full (sp_ring s)
    \<Longrightarrow> may_load (rb_cachedTail (sp_ring s)) (rb_tail (sp_ring s)) v
    \<Longrightarrow> \<not> push_full (push_reload (sp_ring s) v)
    \<Longrightarrow> spsc_step s (s\<lparr>sp_ring := push_reload (sp_ring s) v, sp_prod := P_write x\<rparr>)"
| push_load_full: "sp_prod s = P_check x \<Longrightarrow> push_full (sp_ring s)
    \<Longrightarrow> may_load (rb_cachedTail (sp_ring s)) (rb_tail (sp_ring s)) v
    \<Longrightarrow> push_full (push_reload (sp_ring s) v)
    \<Longrightarrow> spsc_step s (s\<lparr>sp_ring := push_reload (sp_ring s) v, sp_prod := P_idle\<rparr>)"
| push_store: "sp_prod s = P_write x
    \<Longrightarrow> spsc_step s (s\<lparr>sp_ring := push_write (sp_ring s) x, sp_prod := P_publish x\<rparr>)"
| push_return: "sp_prod s = P_publish x
    \<Longrightarrow> spsc_step s (s\<lparr>sp_ring := push_publish (sp_ring s), sp_prod := P_idle,
          sp_pushed := sp_pushed s @ [x]\<rparr>)"
| pop_call: "sp_cons s = C_idle \<Longrightarrow> spsc_step s (s\<lparr>sp_cons := C_check\<rparr>)"
| pop_cached: "sp_cons s = C_check \<Longrightarrow> \<not> pop_none (sp_ring s)
    \<Longrightarrow> spsc_step s (s\<lparr>sp_cons := C_read\<rparr>)"
| pop_load_some: "sp_cons s = C_check \<Longrightarrow> pop_none (sp_ring s)
    \<Longrightarrow> may_load (rb_cachedHead (sp_ring s)) (rb_head (sp_ring s)) v
    \<Longrightarrow> \<not> pop_none (pop_reload (sp_ring s) v)
    \<Longrightarrow> spsc_step s (s\<lparr>sp_ring := pop_reload (sp_ring s) v, sp_cons := C_read\<rparr>)"
| pop_load_none: "sp_cons s = C_check \<Longrightarrow> pop_none (sp_ring s)
    \<Longrightarrow> may_load (rb_cachedHead (sp_ring s)) (rb_head (sp_ring s)) v
    \<Longrightarrow> pop_none (pop_reload (sp_ring s) v)
    \<Longrightarrow> spsc_step s (s\<lparr>sp_ring := pop_reload (sp_ring s) v, sp_cons := C_idle\<rparr>)"
| pop_load_item: "sp_cons s = C_read
    \<Longrightarrow> spsc_step s (s\<lparr>sp_cons := C_release (pop_read (sp_ring s))\<rparr>)"
| pop_return: "sp_cons s = C_release x
    \<Longrightarrow> spsc_step s (s\<lparr>sp_ring := pop_release (sp_ring s), sp_cons := C_idle,
          sp_popped := sp_popped s @ [x]\<rparr>)"

inductive spsc_reachable :: "nat \<Rightarrow> 'a \<Rightarrow> 'a spsc \<Rightarrow> bool" for Capacity d where
  init: "spsc_reachable Capacity d (spsc_init Capacity d)"
| step: "spsc_reachable Capacity d s \<Longrightarrow> spsc_step s s' \<Longrightarrow> spsc_reachable Capacity d s'"

text \<open>The invariant: the histories have the lengths the indices count, the array holds the elements
  pushed and not yet popped, and a thread past its check has the room or the element it found.\<close>

fun prod_ok :: "bool \<Rightarrow> 'a \<Rightarrow> 'a prod_pc \<Rightarrow> bool" where
  "prod_ok room cell P_idle = True"
| "prod_ok room cell (P_check x) = True"
| "prod_ok room cell (P_write x) = room"
| "prod_ok room cell (P_publish x) = (room \<and> cell = x)"

fun cons_ok :: "bool \<Rightarrow> 'a \<Rightarrow> 'a cons_pc \<Rightarrow> bool" where
  "cons_ok avail item C_idle = True"
| "cons_ok avail item C_check = True"
| "cons_ok avail item C_read = avail"
| "cons_ok avail item (C_release x) = (avail \<and> x = item)"

lemma prod_ok_mono:
  "prod_ok room cell pc \<Longrightarrow> (room \<Longrightarrow> room') \<Longrightarrow> prod_ok room' cell pc"
  by (cases pc) auto

lemma cons_ok_mono:
  "cons_ok avail item pc \<Longrightarrow> (avail \<Longrightarrow> avail' \<and> item' = item) \<Longrightarrow> cons_ok avail' item' pc"
  by (cases pc) auto

definition spsc_at :: "nat \<Rightarrow> 'a spsc \<Rightarrow> nat \<Rightarrow> nat \<Rightarrow> bool" where
  "spsc_at Capacity s ct ch \<longleftrightarrow>
     (let m = length (sp_popped s); n = length (sp_pushed s) in
      ring_capacity (sp_ring s) = Capacity \<and> ring_at (sp_ring s) ct m ch n
      \<and> sp_popped s = take m (sp_pushed s)
      \<and> (\<forall>k. m \<le> k \<and> k < n \<longrightarrow> rb_buffer (sp_ring s) ! (k mod Capacity) = sp_pushed s ! k)
      \<and> prod_ok (n < ct + Capacity) (rb_buffer (sp_ring s) ! (n mod Capacity)) (sp_prod s)
      \<and> cons_ok (m < ch) (sp_pushed s ! m) (sp_cons s))"

definition spsc_inv :: "nat \<Rightarrow> 'a spsc \<Rightarrow> bool" where
  "spsc_inv Capacity s \<longleftrightarrow> (\<exists>ct ch. spsc_at Capacity s ct ch)"

text \<open>A load between the cached and the current value of an index is an index in between.\<close>

lemma may_load_index:
  assumes "may_load (of_nat a) (of_nat b) v" and "a \<le> b" and "b - a < 2 ^ 64"
  shows "\<exists>t. a \<le> t \<and> t \<le> b \<and> v = of_nat t"
proof (intro exI conjI)
  let ?k = "unat (v - of_nat a)"
  have "?k \<le> unat (of_nat b - of_nat a :: u64)"
    using assms(1) by (simp add: may_load_def word_le_nat_alt)
  then show "a + ?k \<le> b" using unat_of_nat_diff [OF assms(2,3)] assms(2) by simp
  show "v = of_nat (a + ?k)" by simp
qed simp

lemma spsc_inv_init: "cap_ok Capacity \<Longrightarrow> spsc_inv Capacity (spsc_init Capacity d)"
  using ring_new_at [of Capacity d]
  by (auto simp: spsc_inv_def spsc_at_def spsc_init_def ring_new_def)

text \<open>Producer steps.\<close>

lemma at_push_call: "spsc_at N s ct ch \<Longrightarrow> spsc_at N (s\<lparr>sp_prod := P_check x\<rparr>) ct ch"
  by (simp add: spsc_at_def Let_def)

lemma at_push_cached:
  "spsc_at N s ct ch \<Longrightarrow> \<not> push_full (sp_ring s) \<Longrightarrow> spsc_at N (s\<lparr>sp_prod := P_write x\<rparr>) ct ch"
  using push_full_iff by (fastforce simp: spsc_at_def Let_def dest: ring_atD(5))

lemma at_push_load:
  assumes at: "spsc_at N s ct ch"
    and load: "may_load (rb_cachedTail (sp_ring s)) (rb_tail (sp_ring s)) v"
  shows "\<exists>t. spsc_at N (s\<lparr>sp_ring := push_reload (sp_ring s) v, sp_prod :=
      (if push_full (push_reload (sp_ring s) v) then P_idle else P_write x)\<rparr>) t ch"
proof -
  let ?m = "length (sp_popped s)" and ?n = "length (sp_pushed s)"
  have r: "ring_at (sp_ring s) ct ?m ch ?n" using at by (simp add: spsc_at_def Let_def)
  note d = ring_atD [OF r]
  obtain t where t: "ct \<le> t" "t \<le> ?m" "v = of_nat t"
    using may_load_index [of ct ?m v] load d(2-7,10) by fastforce
  have r': "ring_at (push_reload (sp_ring s) v) t ?m ch ?n"
    unfolding t(3) by (rule push_reload_at [OF r t(1,2)])
  show ?thesis
    using at r' push_full_iff [OF r'] ring_atD(5) [OF r']
    by (intro exI [of _ t]) (auto simp: spsc_at_def Let_def)
qed

lemma at_push_store:
  assumes at: "spsc_at N s ct ch" and pc: "sp_prod s = P_write x"
  shows "spsc_at N (s\<lparr>sp_ring := push_write (sp_ring s) x, sp_prod := P_publish x\<rparr>) ct ch"
proof -
  let ?m = "length (sp_popped s)" and ?n = "length (sp_pushed s)"
  have r: "ring_at (sp_ring s) ct ?m ch ?n" and n: "?n < ct + N" and N: "ring_capacity (sp_ring s) = N"
    using at pc by (simp_all add: spsc_at_def Let_def)
  note slot = push_write_slot [OF r, unfolded N, OF n, of _ x]
  show ?thesis
    using at n slot ring_atD(3,4) [OF r] by (simp add: spsc_at_def Let_def)
qed

lemma at_push_return:
  assumes at: "spsc_at N s ct ch" and pc: "sp_prod s = P_publish x"
  shows "spsc_at N (s\<lparr>sp_ring := push_publish (sp_ring s), sp_prod := P_idle,
      sp_pushed := sp_pushed s @ [x]\<rparr>) ct ch"
proof -
  let ?m = "length (sp_popped s)" and ?n = "length (sp_pushed s)"
  have r: "ring_at (sp_ring s) ct ?m ch ?n" and n: "?n < ct + N" and N: "ring_capacity (sp_ring s) = N"
    using at pc by (simp_all add: spsc_at_def Let_def)
  have "ring_at (push_publish (sp_ring s)) ct ?m ch (Suc ?n)"
    by (rule push_publish_at [OF r]) (simp add: N n)
  then show ?thesis
    using at pc ring_atD(3,4) [OF r]
    by (cases "sp_cons s") (auto simp: spsc_at_def Let_def nth_append less_Suc_eq)
qed

text \<open>Consumer steps.\<close>

lemma at_pop_call: "spsc_at N s ct ch \<Longrightarrow> spsc_at N (s\<lparr>sp_cons := C_check\<rparr>) ct ch"
  by (simp add: spsc_at_def Let_def)

lemma at_pop_cached:
  "spsc_at N s ct ch \<Longrightarrow> \<not> pop_none (sp_ring s) \<Longrightarrow> spsc_at N (s\<lparr>sp_cons := C_read\<rparr>) ct ch"
  using pop_none_iff by (fastforce simp: spsc_at_def Let_def dest: ring_atD(3))

lemma at_pop_load:
  assumes at: "spsc_at N s ct ch"
    and load: "may_load (rb_cachedHead (sp_ring s)) (rb_head (sp_ring s)) v"
  shows "\<exists>h. spsc_at N (s\<lparr>sp_ring := pop_reload (sp_ring s) v, sp_cons :=
      (if pop_none (pop_reload (sp_ring s) v) then C_idle else C_read)\<rparr>) ct h"
proof -
  let ?m = "length (sp_popped s)" and ?n = "length (sp_pushed s)"
  have r: "ring_at (sp_ring s) ct ?m ch ?n" using at by (simp add: spsc_at_def Let_def)
  note d = ring_atD [OF r]
  obtain h where h: "ch \<le> h" "h \<le> ?n" "v = of_nat h"
    using may_load_index [of ch ?n v] load d(2-5,8-10) by fastforce
  have r': "ring_at (pop_reload (sp_ring s) v) ct ?m h ?n"
    unfolding h(3) by (rule pop_reload_at [OF r h(1,2)])
  show ?thesis
    using at r' pop_none_iff [OF r'] ring_atD(3) [OF r']
    by (intro exI [of _ h]) (auto simp: spsc_at_def Let_def)
qed

lemma at_pop_item:
  assumes at: "spsc_at N s ct ch" and pc: "sp_cons s = C_read"
  shows "spsc_at N (s\<lparr>sp_cons := C_release (pop_read (sp_ring s))\<rparr>) ct ch"
proof -
  let ?m = "length (sp_popped s)" and ?n = "length (sp_pushed s)"
  have r: "ring_at (sp_ring s) ct ?m ch ?n" and m: "?m < ch"
    using at pc by (simp_all add: spsc_at_def Let_def)
  have "pop_read (sp_ring s) = rb_buffer (sp_ring s) ! (?m mod ring_capacity (sp_ring s))"
    by (simp add: pop_read_def ring_atD(7) [OF r] ring_slot_of_nat [OF ring_atD(1) [OF r]])
  then show ?thesis
    using at m ring_atD(4) [OF r] by (simp add: spsc_at_def Let_def)
qed

lemma at_pop_return:
  assumes at: "spsc_at N s ct ch" and pc: "sp_cons s = C_release x"
  shows "spsc_at N (s\<lparr>sp_ring := pop_release (sp_ring s), sp_cons := C_idle,
      sp_popped := sp_popped s @ [x]\<rparr>) ct ch"
proof -
  let ?m = "length (sp_popped s)" and ?n = "length (sp_pushed s)"
  have r: "ring_at (sp_ring s) ct ?m ch ?n" and m: "?m < ch" and x: "x = sp_pushed s ! ?m"
    using at pc by (simp_all add: spsc_at_def Let_def)
  have r': "ring_at (pop_release (sp_ring s)) ct (Suc ?m) ch ?n" by (rule pop_release_at [OF r m])
  have "take (Suc ?m) (sp_pushed s) = sp_popped s @ [x]"
    using at m x ring_atD(4) [OF r] by (simp add: spsc_at_def Let_def take_Suc_conv_app_nth)
  then show ?thesis
    using at r' by (cases "sp_prod s") (simp_all add: spsc_at_def Let_def)
qed

lemmas at_quiet_steps = at_push_call at_push_cached at_push_store at_push_return at_pop_call
  at_pop_cached at_pop_item at_pop_return

lemma spsc_inv_step [inv_intros]:
  assumes "spsc_step s s'" and "spsc_inv N s"
  shows "spsc_inv N s'"
proof -
  obtain ct ch where at: "spsc_at N s ct ch" using assms(2) by (auto simp: spsc_inv_def)
  have "\<exists>ct ch. spsc_at N s' ct ch"
    using assms(1)
  proof cases
    case (push_load_room x v)
    then show ?thesis using at_push_load [OF at, of v x] by auto
  next
    case (push_load_full x v)
    then show ?thesis using at_push_load [OF at, of v x] by auto
  next
    case (pop_load_some v)
    then show ?thesis using at_pop_load [OF at, of v] by auto
  next
    case (pop_load_none v)
    then show ?thesis using at_pop_load [OF at, of v] by auto
  qed (use at_quiet_steps [OF at] in \<open>auto intro: exI\<close>)
  then show ?thesis by (simp add: spsc_inv_def)
qed

lemma spsc_inv_reachable: "spsc_reachable N d s \<Longrightarrow> cap_ok N \<Longrightarrow> spsc_inv N s"
  by (induction rule: spsc_reachable.induct) (auto intro: spsc_inv_init spsc_inv_step)

text \<open>A call that is not interrupted is the sequential function.\<close>

lemma may_load_fresh [simp]: "may_load seen cur cur"
  by (simp add: may_load_def)

lemma push_uninterrupted:
  assumes "sp_prod s = P_idle" and "tryPush (sp_ring s) x = (rb, ok)"
  shows "spsc_step\<^sup>*\<^sup>* s (s\<lparr>sp_ring := rb, sp_pushed := sp_pushed s @ (if ok then [x] else [])\<rparr>)"
proof -
  let ?check = "s\<lparr>sp_prod := P_check x\<rparr>"
  have call: "spsc_step\<^sup>*\<^sup>* s ?check" using push_call [OF assms(1)] by blast
  have idle: "s\<lparr>sp_ring := b, sp_prod := P_idle\<rparr> = s\<lparr>sp_ring := b\<rparr>" for b
    using assms(1) by (cases s) simp
  have stored: "spsc_step\<^sup>*\<^sup>* (s\<lparr>sp_ring := b, sp_prod := P_write x\<rparr>)
      (s\<lparr>sp_ring := push_publish (push_write b x), sp_pushed := sp_pushed s @ [x]\<rparr>)" for b
    using push_store [of "s\<lparr>sp_ring := b, sp_prod := P_write x\<rparr>" x]
      push_return [of "s\<lparr>sp_ring := push_write b x, sp_prod := P_publish x\<rparr>" x] assms(1)
    by (cases s) (auto intro: converse_rtranclp_into_rtranclp)
  show ?thesis
  proof (cases "push_full (sp_ring s)")
    case False
    have "spsc_step ?check (s\<lparr>sp_ring := sp_ring s, sp_prod := P_write x\<rparr>)"
      using push_cached [of ?check x] False by simp
    then show ?thesis
      using call stored [of "sp_ring s"] assms(2) False
      by (auto simp: tryPush_def intro: rtranclp_trans rtranclp.rtrancl_into_rtrancl)
  next
    case full: True
    let ?b = "push_reload (sp_ring s) (rb_tail (sp_ring s))"
    show ?thesis
    proof (cases "push_full ?b")
      case False
      have "spsc_step ?check (s\<lparr>sp_ring := ?b, sp_prod := P_write x\<rparr>)"
        using push_load_room [of ?check x "rb_tail (sp_ring s)"] full False by simp
      then show ?thesis
        using call stored [of ?b] assms(2) full False
        by (auto simp: tryPush_def Let_def intro: rtranclp_trans rtranclp.rtrancl_into_rtrancl)
    next
      case True
      have "spsc_step ?check (s\<lparr>sp_ring := ?b\<rparr>)"
        using push_load_full [of ?check x "rb_tail (sp_ring s)"] full True idle [of ?b] by simp
      then show ?thesis
        using call assms(2) full True
        by (auto simp: tryPush_def Let_def intro: rtranclp.rtrancl_into_rtrancl)
    qed
  qed
qed

lemma pop_uninterrupted:
  assumes "sp_cons s = C_idle" and "tryPop (sp_ring s) = (rb, r)"
  shows "spsc_step\<^sup>*\<^sup>* s (s\<lparr>sp_ring := rb,
    sp_popped := sp_popped s @ (case r of None \<Rightarrow> [] | Some x \<Rightarrow> [x])\<rparr>)"
proof -
  let ?check = "s\<lparr>sp_cons := C_check\<rparr>"
  have call: "spsc_step\<^sup>*\<^sup>* s ?check" using pop_call [OF assms(1)] by blast
  have idle: "s\<lparr>sp_ring := b, sp_cons := C_idle\<rparr> = s\<lparr>sp_ring := b\<rparr>" for b
    using assms(1) by (cases s) simp
  have taken: "spsc_step\<^sup>*\<^sup>* (s\<lparr>sp_ring := b, sp_cons := C_read\<rparr>)
      (s\<lparr>sp_ring := pop_release b, sp_popped := sp_popped s @ [pop_read b]\<rparr>)" for b
    using pop_load_item [of "s\<lparr>sp_ring := b, sp_cons := C_read\<rparr>"]
      pop_return [of "s\<lparr>sp_ring := b, sp_cons := C_release (pop_read b)\<rparr>" "pop_read b"] assms(1)
    by (cases s) (auto intro: converse_rtranclp_into_rtranclp)
  show ?thesis
  proof (cases "pop_none (sp_ring s)")
    case False
    have "spsc_step ?check (s\<lparr>sp_ring := sp_ring s, sp_cons := C_read\<rparr>)"
      using pop_cached [of ?check] False by simp
    then show ?thesis
      using call taken [of "sp_ring s"] assms(2) False
      by (auto simp: tryPop_def intro: rtranclp_trans rtranclp.rtrancl_into_rtrancl)
  next
    case none: True
    let ?b = "pop_reload (sp_ring s) (rb_head (sp_ring s))"
    show ?thesis
    proof (cases "pop_none ?b")
      case False
      have "spsc_step ?check (s\<lparr>sp_ring := ?b, sp_cons := C_read\<rparr>)"
        using pop_load_some [of ?check "rb_head (sp_ring s)"] none False by simp
      moreover have "pop_read (sp_ring s) = pop_read ?b" by (simp add: pop_read_def pop_reload_def)
      ultimately show ?thesis
        using call taken [of ?b] assms(2) none False
        by (auto simp: tryPop_def Let_def intro: rtranclp_trans rtranclp.rtrancl_into_rtrancl)
    next
      case True
      have "spsc_step ?check (s\<lparr>sp_ring := ?b\<rparr>)"
        using pop_load_none [of ?check "rb_head (sp_ring s)"] none True idle [of ?b] by simp
      then show ?thesis
        using call assms(2) none True
        by (auto simp: tryPop_def Let_def intro: rtranclp.rtrancl_into_rtrancl)
    qed
  qed
qed

lemma spsc_reachable_steps: "spsc_step\<^sup>*\<^sup>* s s' \<Longrightarrow> spsc_reachable N d s \<Longrightarrow> spsc_reachable N d s'"
  by (induction rule: rtranclp_induct) (auto intro: spsc_reachable.step)

lemma reachable_push:
  "spsc_reachable N d s \<Longrightarrow> sp_prod s = P_idle \<Longrightarrow> tryPush (sp_ring s) x = (rb, ok)
   \<Longrightarrow> spsc_reachable N d (s\<lparr>sp_ring := rb, sp_pushed := sp_pushed s @ (if ok then [x] else [])\<rparr>)"
  by (rule spsc_reachable_steps [OF push_uninterrupted])

lemma reachable_pop:
  "spsc_reachable N d s \<Longrightarrow> sp_cons s = C_idle \<Longrightarrow> tryPop (sp_ring s) = (rb, r)
   \<Longrightarrow> spsc_reachable N d (s\<lparr>sp_ring := rb,
         sp_popped := sp_popped s @ (case r of None \<Rightarrow> [] | Some x \<Rightarrow> [x])\<rparr>)"
  by (rule spsc_reachable_steps [OF pop_uninterrupted])

section \<open>Properties\<close>

text \<open>Any run of \<open>tryPush\<close> and \<open>tryPop\<close> calls on a fresh ring is a FIFO of \<open>Capacity\<close> elements: the
  elements accepted are the elements popped followed by those still inside, in the same order; none
  is lost or duplicated, and the indices may wrap around \<open>2^64\<close>.\<close>

theorem ring_calls_fifo:
  assumes "cap_ok Capacity"
  shows "case run_calls tryPush tryPop (ring_new Capacity d) calls of (rb, accepted, popped) \<Rightarrow>
    accepted = popped @ ring_items rb \<and> length (ring_items rb) \<le> Capacity"
proof -
  obtain rb a p where run: "run_calls tryPush tryPop (ring_new Capacity d) calls = (rb, a, p)"
    by (cases "run_calls tryPush tryPop (ring_new Capacity d) calls")
  have at: "ring_at (ring_new Capacity d) 0 0 0 0" by (rule ring_new_at [OF assms])
  then have "ring_inv (ring_new Capacity d)" by (auto simp: ring_inv_def)
  from ring.run_fifo [OF this run] ring_items_at [OF at]
  show ?thesis
    using ring.items_bound [of rb] run by (simp add: ring_new_def)
qed

definition ex_calls :: "nat option list" where
  "ex_calls = [Some 5, Some 6, Some 7, None, Some 8, None, None, None]"

theorem ring_calls_fifo_witness:
  "\<exists>rb. run_calls tryPush tryPop (ring_new 2 0) ex_calls = (rb, [5, 6, 8], [5, 6, 8])
     \<and> ring_items rb = []"
proof -
  let ?r = "run_calls tryPush tryPop (ring_new 2 0) ex_calls"
  have "snd ?r = ([5, 6, 8], [5, 6, 8])" by code_simp
  then obtain rb where run: "?r = (rb, [5, 6, 8], [5, 6, 8])" by (metis prod.collapse)
  have "cap_ok 2" by (simp add: cap_ok_def)
  from ring_calls_fifo [OF this, of 0 ex_calls] run show ?thesis by simp
qed

text \<open>Each call does exactly what it promises. On a well-formed ring \<open>tryPush\<close> succeeds exactly
  when fewer than \<open>Capacity\<close> elements are inside, and then appends; \<open>tryPop\<close> fails exactly when the
  ring is empty, and otherwise returns and removes the oldest element; \<open>tryEmplace\<close> is \<open>tryPush\<close> of the
  constructed element; \<open>empty\<close> is exact.\<close>

theorem ring_calls_exact:
  assumes "ring_inv rb"
  shows "(case tryPush rb x of (rb', ok) \<Rightarrow> ring_inv rb'
        \<and> (ok \<longleftrightarrow> length (ring_items rb) < ring_capacity rb)
        \<and> ring_items rb' = ring_items rb @ (if ok then [x] else []))
    \<and> (case tryPop rb of (rb', r) \<Rightarrow> ring_inv rb'
        \<and> (r = None \<longleftrightarrow> ring_items rb = []) \<and> (\<forall>y. r = Some y \<longrightarrow> ring_items rb = y # ring_items rb'))
    \<and> tryEmplace construct rb args = tryPush rb (construct args)
    \<and> (ring_empty rb \<longleftrightarrow> ring_items rb = [])"
proof (intro conjI)
  obtain ct m ch n where at: "ring_at rb ct m ch n" using assms by (auto simp: ring_inv_def)
  show "case tryPush rb x of (rb', ok) \<Rightarrow> ring_inv rb'
        \<and> (ok \<longleftrightarrow> length (ring_items rb) < ring_capacity rb)
        \<and> ring_items rb' = ring_items rb @ (if ok then [x] else [])"
    using tryPush_law [OF assms] by (cases "tryPush rb x") blast
  show "case tryPop rb of (rb', r) \<Rightarrow> ring_inv rb'
        \<and> (r = None \<longleftrightarrow> ring_items rb = []) \<and> (\<forall>y. r = Some y \<longrightarrow> ring_items rb = y # ring_items rb')"
    using tryPop_law [OF assms] by (cases "tryPop rb") (auto split: option.splits)
  show "tryEmplace construct rb args = tryPush rb (construct args)"
    by (simp add: tryEmplace_def tryPush_def)
  show "ring_empty rb \<longleftrightarrow> ring_items rb = []"
    by (simp add: ring_empty_def ring_items_def unat_eq_0 eq_commute [of "rb_tail rb"])
qed

lemma ring_inv_new: "cap_ok n \<Longrightarrow> ring_inv (ring_new n d)"
  unfolding ring_inv_def by (blast intro: ring_new_at)

theorem ring_calls_exact_witness:
  "snd (tryPush (ring_new 4 (0 :: nat)) 9) \<and> snd (tryPop (ring_new 4 (0 :: nat))) = None"
proof -
  have inv: "ring_inv (ring_new 4 (0 :: nat))" by (rule ring_inv_new) (simp add: cap_ok_def)
  have "ring_items (ring_new 4 (0 :: nat)) = []" "ring_capacity (ring_new 4 (0 :: nat)) = 4"
    by (simp_all add: ring_items_def ring_new_def)
  then show ?thesis
    using ring_calls_exact [OF inv, where x = 9 and construct = id and args = 9]
    by (auto split: prod.splits)
qed

text \<open>C7: Two threads, every interleaving. In every reachable state of one producer and one consumer
  running \<open>tryPush\<close> and \<open>tryPop\<close>, with acquire loads that may return stale indices, the elements
  popped are a prefix of the elements pushed, at most \<open>Capacity\<close> elements are in flight, and these
  are exactly the ones in the ring, in order.\<close>

theorem spsc_fifo:
  assumes "spsc_reachable Capacity d s" and "cap_ok Capacity"
  shows "sp_popped s = take (length (sp_popped s)) (sp_pushed s)
    \<and> length (sp_pushed s) - length (sp_popped s) \<le> Capacity
    \<and> sp_pushed s = sp_popped s @ ring_items (sp_ring s)"
proof -
  let ?m = "length (sp_popped s)" and ?n = "length (sp_pushed s)"
  obtain ct ch where at: "spsc_at Capacity s ct ch"
    using spsc_inv_reachable [OF assms] by (auto simp: spsc_inv_def)
  then have r: "ring_at (sp_ring s) ct ?m ch ?n" and N: "ring_capacity (sp_ring s) = Capacity"
    and pre: "sp_popped s = take ?m (sp_pushed s)"
    and mem: "\<forall>k. ?m \<le> k \<and> k < ?n \<longrightarrow> rb_buffer (sp_ring s) ! (k mod Capacity) = sp_pushed s ! k"
    by (simp_all add: spsc_at_def Let_def)
  have "ring_items (sp_ring s) = map (\<lambda>k. sp_pushed s ! k) [?m..<?n]"
    using mem by (simp add: ring_items_at [OF r] N)
  also have "\<dots> = drop ?m (sp_pushed s)" by (metis add_0 drop_map drop_upt map_nth)
  finally have "sp_pushed s = sp_popped s @ ring_items (sp_ring s)"
    using pre by (metis append_take_drop_id)
  then show ?thesis using pre ring_atD(2-5) [OF r] N by linarith
qed

text \<open>One element sent and received, a second one sent.\<close>

definition ex_ring :: "nat SPSCRingBuffer" where
  "ex_ring = fst (tryPush (fst (tryPop (fst (tryPush (ring_new 2 0) 5)))) 6)"

lemma ex_spsc_reachable:
  "spsc_reachable 2 0 \<lparr>sp_ring = ex_ring, sp_prod = P_idle, sp_cons = C_idle, sp_pushed = [5, 6],
     sp_popped = [5]\<rparr>"
proof -
  let ?rb1 = "fst (tryPush (ring_new 2 (0 :: nat)) 5)" and ?rb2 = "fst (tryPop (fst (tryPush (ring_new 2 (0 :: nat)) 5)))"
  have ok: "snd (tryPush (ring_new 2 (0 :: nat)) 5)" "snd (tryPop ?rb1) = Some 5" "snd (tryPush ?rb2 6)"
    by code_simp+
  have "tryPush (ring_new 2 0) 5 = (?rb1, True)" "tryPop ?rb1 = (?rb2, Some 5)"
    "tryPush ?rb2 6 = (ex_ring, True)"
    using ok unfolding ex_ring_def by (metis prod.collapse)+
  note calls = this
  have s1: "spsc_reachable 2 0 \<lparr>sp_ring = ?rb1, sp_prod = P_idle, sp_cons = C_idle,
      sp_pushed = [5], sp_popped = []\<rparr>"
    using reachable_push [OF spsc_reachable.init [of 2 "0 :: nat"], of 5 ?rb1 True] calls(1)
    by (simp add: spsc_init_def)
  have s2: "spsc_reachable 2 0 \<lparr>sp_ring = ?rb2, sp_prod = P_idle, sp_cons = C_idle,
      sp_pushed = [5], sp_popped = [5]\<rparr>"
    using reachable_pop [OF s1, of ?rb2 "Some 5"] calls(2) by simp
  show ?thesis
    using reachable_push [OF s2, of 6 ex_ring True] calls(3) by simp
qed

theorem spsc_fifo_witness: "ring_items ex_ring = [6]"
  using spsc_fifo [OF ex_spsc_reachable] by (simp add: cap_ok_def)

text \<open>C8: No slot is accessed by both threads at once. Whenever the producer is about to write its
  slot and the consumer about to read its own, in any reachable state, the two slots differ; so the
  non-atomic buffer accesses never race, also under stale index loads.\<close>

theorem spsc_race_free:
  assumes "spsc_reachable Capacity d s" and "cap_ok Capacity"
    and "sp_prod s = P_write x" and "sp_cons s = C_read"
  shows "ring_slot Capacity (rb_head (sp_ring s)) \<noteq> ring_slot Capacity (rb_tail (sp_ring s))"
proof -
  let ?m = "length (sp_popped s)" and ?n = "length (sp_pushed s)"
  obtain ct ch where at: "spsc_at Capacity s ct ch"
    using spsc_inv_reachable [OF assms(1,2)] by (auto simp: spsc_inv_def)
  then have r: "ring_at (sp_ring s) ct ?m ch ?n" and "?m < ch" and "?n < ct + Capacity"
    using assms(3,4) by (simp_all add: spsc_at_def Let_def)
  moreover note d = ring_atD [OF r]
  ultimately have "?n mod Capacity \<noteq> ?m mod Capacity"
    using mod_window_inj [of ?n Capacity ?m ?m] by linarith
  then show ?thesis by (simp add: d(7,9) ring_slot_of_nat [OF assms(2)])
qed

text \<open>Both threads refresh their caches and pass their checks.\<close>

definition ex_race :: "nat spsc" where
  "ex_race = \<lparr>sp_ring = push_reload (pop_reload ex_ring 2) 1, sp_prod = P_write 7, sp_cons = C_read,
     sp_pushed = [5, 6], sp_popped = [5]\<rparr>"

lemma ex_race_reachable: "spsc_reachable 2 0 ex_race"
proof -
  let ?s = "\<lparr>sp_ring = ex_ring, sp_prod = P_idle, sp_cons = C_idle, sp_pushed = [5, 6],
     sp_popped = [5]\<rparr>"
  have ring: "push_full (pop_reload ex_ring 2)" "\<not> push_full (push_reload (pop_reload ex_ring 2) 1)"
    "pop_none ex_ring" "\<not> pop_none (pop_reload ex_ring 2)"
    "rb_head ex_ring = 2" "rb_cachedHead ex_ring = 1"
    "rb_tail (pop_reload ex_ring 2) = 1" "rb_cachedTail (pop_reload ex_ring 2) = 0"
    by code_simp+
  let ?s1 = "?s\<lparr>sp_cons := C_check\<rparr>"
  let ?s2 = "?s\<lparr>sp_ring := pop_reload ex_ring 2, sp_cons := C_read\<rparr>"
  let ?s3 = "?s2\<lparr>sp_prod := P_check 7\<rparr>"
  have "spsc_reachable 2 0 ?s1"
    using spsc_reachable.step [OF ex_spsc_reachable pop_call] by simp
  then have "spsc_reachable 2 0 ?s2"
    using spsc_reachable.step [OF _ pop_load_some [of ?s1 2]] ring by (simp add: may_load_def)
  then have "spsc_reachable 2 0 ?s3"
    using spsc_reachable.step [OF _ push_call [of ?s2 7]] by simp
  then show ?thesis
    using spsc_reachable.step [OF _ push_load_room [of ?s3 7 1]] ring
    by (simp add: may_load_def ex_race_def)
qed

theorem spsc_race_free_witness:
  "ring_slot 2 (rb_head (sp_ring ex_race)) \<noteq> ring_slot 2 (rb_tail (sp_ring ex_race))"
  using spsc_race_free [OF ex_race_reachable, of 7] by (simp add: cap_ok_def ex_race_def)

text \<open>The functions are the threads. A call of \<open>tryPush\<close> or \<open>tryPop\<close> that runs without
  interruption takes the steps of its thread to the state the sequential function computes, and
  records exactly the elements it accepted or returned.\<close>

theorem calls_are_steps:
  shows "(sp_prod s = P_idle \<longrightarrow> (case tryPush (sp_ring s) x of (rb, ok) \<Rightarrow>
      spsc_step\<^sup>*\<^sup>* s (s\<lparr>sp_ring := rb, sp_pushed := sp_pushed s @ (if ok then [x] else [])\<rparr>)))
    \<and> (sp_cons s = C_idle \<longrightarrow> (case tryPop (sp_ring s) of (rb, r) \<Rightarrow>
      spsc_step\<^sup>*\<^sup>* s (s\<lparr>sp_ring := rb,
        sp_popped := sp_popped s @ (case r of None \<Rightarrow> [] | Some x \<Rightarrow> [x])\<rparr>)))"
  using push_uninterrupted [of s x] pop_uninterrupted [of s] by (auto split: prod.splits)

theorem calls_are_steps_witness:
  "spsc_step\<^sup>*\<^sup>* (spsc_init 2 0) ((spsc_init 2 0)\<lparr>sp_ring := fst (tryPush (ring_new 2 0) 5),
      sp_pushed := [5 :: nat]\<rparr>)"
proof -
  have "snd (tryPush (ring_new 2 0) (5 :: nat))" by code_simp
  then show ?thesis
    using calls_are_steps [of "spsc_init 2 0" "5 :: nat"]
    by (simp add: spsc_init_def split: prod.splits)
qed

text \<open>A full or empty answer is a fact about the histories. When the producer's load of \<open>tail_\<close>
  returns the current value and \<open>tryPush\<close> still answers \<open>false\<close>, exactly \<open>Capacity\<close> elements are in
  flight; when the consumer's load of \<open>head_\<close> is current and \<open>tryPop\<close> answers \<open>false\<close>, every pushed
  element has been popped.\<close>

theorem spsc_answers:
  assumes "spsc_reachable Capacity d s" and "cap_ok Capacity"
  shows "(push_full (push_reload (sp_ring s) (rb_tail (sp_ring s)))
      \<longleftrightarrow> length (sp_pushed s) = length (sp_popped s) + Capacity)
    \<and> (pop_none (pop_reload (sp_ring s) (rb_head (sp_ring s))) \<longleftrightarrow> sp_popped s = sp_pushed s)"
proof -
  let ?m = "length (sp_popped s)" and ?n = "length (sp_pushed s)"
  obtain ct ch where at: "spsc_at Capacity s ct ch"
    using spsc_inv_reachable [OF assms] by (auto simp: spsc_inv_def)
  then have r: "ring_at (sp_ring s) ct ?m ch ?n" and N: "ring_capacity (sp_ring s) = Capacity"
    and pre: "sp_popped s = take ?m (sp_pushed s)"
    by (simp_all add: spsc_at_def Let_def)
  note d = ring_atD [OF r]
  have "ring_at (push_reload (sp_ring s) (rb_tail (sp_ring s))) ?m ?m ch ?n"
    unfolding d(7) by (rule push_reload_at [OF r d(2) le_refl])
  moreover have "ring_at (pop_reload (sp_ring s) (rb_head (sp_ring s))) ct ?m ?n ?n"
    unfolding d(9) by (rule pop_reload_at [OF r d(4) le_refl])
  moreover have "?n = ?m \<longleftrightarrow> sp_popped s = sp_pushed s" using pre by (metis take_all_iff order_refl)
  ultimately show ?thesis using push_full_iff pop_none_iff N by (metis ring_access_frame(1))
qed

theorem spsc_answers_witness:
  "\<not> push_full (push_reload ex_ring (rb_tail ex_ring)) \<and> \<not> pop_none (pop_reload ex_ring (rb_head ex_ring))"
  using spsc_answers [OF ex_spsc_reachable] by (simp add: cap_ok_def)

section \<open>Behaviour outside the specification\<close>

text \<open>\<open>size()\<close> compares the indices before subtracting: once \<open>head_\<close> has wrapped past \<open>2^64\<close> and
  \<open>tail_\<close> has not, it reports an empty queue although \<open>tryPop\<close> still returns elements.\<close>

lemma ring_size_after_wrap:
  "ring_size \<lparr>rb_head = 1, rb_cachedTail = - 1, rb_tail = - 1, rb_cachedHead = - 1, rb_buffer = [8, 9 :: nat]\<rparr> = 0
   \<and> ring_items \<lparr>rb_head = 1, rb_cachedTail = - 1, rb_tail = - 1, rb_cachedHead = - 1, rb_buffer = [8, 9 :: nat]\<rparr>
       = [9, 8]"
  by (intro conjI; code_simp)

end
