(* ===== verification/Arbitrator.thy ===== *)
theory Arbitrator
  imports Protocol
begin

text \<open>
  The A/B feed arbitrator, \<open>include/feed_handler/feed_arbitrator.hpp\<close>: duplicates are dropped,
  in-sequence messages pass, early messages wait in a direct-mapped buffer of \<open>MaxBufferedGaps\<close>
  slots (the length of \<open>gapBuffer_\<close>) until \<open>tryDrainBuffered\<close> releases them. The lemmas show that the
  output is consecutively numbered whatever arrives, and that within the window of the buffer it is
  exactly the longest complete prefix of what the two feeds have delivered.
\<close>

section \<open>State\<close>

datatype FeedSource = FeedA | FeedB

record GapBufferEntry =
  gap_msg :: WireMessage
  gap_active :: bool

record DualFeedArbitrator =
  fa_expectedSeqNo :: u64
  fa_duplicatesDropped :: u64
  fa_sequenceGapsDetected :: u64
  fa_retransmitRequests :: u64
  fa_gapBuffer :: "GapBufferEntry list"

abbreviation MaxBufferedGaps :: "DualFeedArbitrator \<Rightarrow> nat" where
  "MaxBufferedGaps a \<equiv> length (fa_gapBuffer a)"

definition GapBufferEntry_zero :: GapBufferEntry where
  "GapBufferEntry_zero = \<lparr>gap_msg = WireMessage_zero, gap_active = False\<rparr>"

definition arb_reset :: "DualFeedArbitrator \<Rightarrow> DualFeedArbitrator" where
  "arb_reset a = \<lparr>fa_expectedSeqNo = 1, fa_duplicatesDropped = 0, fa_sequenceGapsDetected = 0,
     fa_retransmitRequests = 0,
     fa_gapBuffer = map (\<lambda>_. GapBufferEntry_zero) (fa_gapBuffer a)\<rparr>"

definition arb_new :: "nat \<Rightarrow> DualFeedArbitrator" where
  "arb_new n = arb_reset \<lparr>fa_expectedSeqNo = 1, fa_duplicatesDropped = 0,
     fa_sequenceGapsDetected = 0, fa_retransmitRequests = 0,
     fa_gapBuffer = replicate n GapBufferEntry_zero\<rparr>"

section \<open>Operations\<close>

text \<open>The result is \<open>Some outMsg\<close> for \<open>true\<close> and \<^const>\<open>None\<close> for \<open>false\<close>.\<close>

definition ingest ::
  "DualFeedArbitrator \<Rightarrow> FeedSource \<Rightarrow> WireMessage \<Rightarrow> DualFeedArbitrator \<times> WireMessage option" where
  "ingest a source msg =
     (let s = seqNo msg in
      if s < fa_expectedSeqNo a then
        (a\<lparr>fa_duplicatesDropped := fa_duplicatesDropped a + 1\<rparr>, None)
      else if s = fa_expectedSeqNo a then
        (a\<lparr>fa_expectedSeqNo := fa_expectedSeqNo a + 1\<rparr>, Some msg)
      else
        let gap = s - fa_expectedSeqNo a;
            slot = unat s mod MaxBufferedGaps a
        in (a\<lparr>fa_sequenceGapsDetected := fa_sequenceGapsDetected a + gap,
              fa_retransmitRequests := fa_retransmitRequests a + 1,
              fa_gapBuffer := (fa_gapBuffer a)[slot := \<lparr>gap_msg = msg, gap_active = True\<rparr>]\<rparr>, None))"

definition tryDrainBuffered :: "DualFeedArbitrator \<Rightarrow> DualFeedArbitrator \<times> WireMessage option" where
  "tryDrainBuffered a =
     (let slot = unat (fa_expectedSeqNo a) mod MaxBufferedGaps a; entry = fa_gapBuffer a ! slot in
      if gap_active entry \<and> seqNo (gap_msg entry) = fa_expectedSeqNo a then
        (a\<lparr>fa_gapBuffer := (fa_gapBuffer a)[slot := entry\<lparr>gap_active := False\<rparr>],
           fa_expectedSeqNo := fa_expectedSeqNo a + 1\<rparr>, Some (gap_msg entry))
      else (a, None))"

section \<open>Runs\<close>

text \<open>Any sequence of calls, and its output.\<close>

datatype arb_call = Ingest FeedSource WireMessage | Drain

fun arb_do :: "DualFeedArbitrator \<Rightarrow> arb_call \<Rightarrow> DualFeedArbitrator \<times> WireMessage option" where
  "arb_do a (Ingest source msg) = ingest a source msg"
| "arb_do a Drain = tryDrainBuffered a"

fun arb_run :: "DualFeedArbitrator \<Rightarrow> arb_call list \<Rightarrow> DualFeedArbitrator \<times> WireMessage list" where
  "arb_run a [] = (a, [])"
| "arb_run a (c # cs) =
     (case arb_do a c of (a, r) \<Rightarrow> case arb_run a cs of (a, out) \<Rightarrow>
        (a, (case r of None \<Rightarrow> [] | Some m \<Rightarrow> [m]) @ out))"

text \<open>The intended client: after every arrival, \<open>tryDrainBuffered\<close> until it answers \<open>false\<close>. The
  number of slots is fuel enough.\<close>

fun drain_calls :: "nat \<Rightarrow> DualFeedArbitrator \<Rightarrow> DualFeedArbitrator \<times> WireMessage list" where
  "drain_calls 0 a = (a, [])"
| "drain_calls (Suc k) a =
     (case tryDrainBuffered a of
        (a, None) \<Rightarrow> (a, [])
      | (a, Some m) \<Rightarrow> (case drain_calls k a of (a, out) \<Rightarrow> (a, m # out)))"

fun arb_arrive :: "DualFeedArbitrator \<Rightarrow> FeedSource \<times> WireMessage
    \<Rightarrow> DualFeedArbitrator \<times> WireMessage list" where
  "arb_arrive a (source, msg) =
     (case ingest a source msg of (a, r) \<Rightarrow> case drain_calls (MaxBufferedGaps a) a of (a, out) \<Rightarrow>
        (a, (case r of None \<Rightarrow> [] | Some m \<Rightarrow> [m]) @ out))"

fun arb_feed :: "DualFeedArbitrator \<Rightarrow> (FeedSource \<times> WireMessage) list
    \<Rightarrow> DualFeedArbitrator \<times> WireMessage list" where
  "arb_feed a [] = (a, [])"
| "arb_feed a (x # xs) =
     (case arb_arrive a x of (a, out) \<Rightarrow> case arb_feed a xs of (a, out') \<Rightarrow> (a, out @ out'))"

section \<open>The output is consecutively numbered\<close>

text \<open>One call returns at most the expected message, and then expects the next.\<close>

lemma arb_do_next:
  assumes "arb_do a c = (a', r)"
  shows "case r of None \<Rightarrow> fa_expectedSeqNo a' = fa_expectedSeqNo a
    | Some m \<Rightarrow> seqNo m = fa_expectedSeqNo a \<and> fa_expectedSeqNo a' = fa_expectedSeqNo a + 1"
  using assms
  by (cases c) (auto simp: ingest_def tryDrainBuffered_def Let_def split: if_splits)

fun numbered :: "u64 \<Rightarrow> WireMessage list \<Rightarrow> bool" where
  "numbered e [] = True"
| "numbered e (m # ms) = (seqNo m = e \<and> numbered (e + 1) ms)"

lemma arb_run_numbered:
  "arb_run a cs = (a', out) \<Longrightarrow> numbered (fa_expectedSeqNo a) out
     \<and> fa_expectedSeqNo a' = fa_expectedSeqNo a + of_nat (length out)"
proof (induction cs arbitrary: a a' out)
  case (Cons c cs)
  obtain a1 r where c: "arb_do a c = (a1, r)" by (cases "arb_do a c")
  obtain a2 o2 where cs: "arb_run a1 cs = (a2, o2)" by (cases "arb_run a1 cs")
  show ?case
    using Cons.IH [OF cs] Cons.prems c cs arb_do_next [OF c] by (cases r) auto
qed simp

text \<open>Every output was an input: the buffer holds only messages that arrived.\<close>

definition buffer_within :: "WireMessage set \<Rightarrow> DualFeedArbitrator \<Rightarrow> bool" where
  "buffer_within M a \<longleftrightarrow> MaxBufferedGaps a > 0
     \<and> (\<forall>g \<in> set (fa_gapBuffer a). gap_active g \<longrightarrow> gap_msg g \<in> M)"

definition call_msgs :: "arb_call list \<Rightarrow> WireMessage set" where
  "call_msgs cs = {m. \<exists>src. Ingest src m \<in> set cs}"

lemma ingest_within:
  assumes "buffer_within M a" and "msg \<in> M" and "ingest a src msg = (a', r)"
  shows "buffer_within M a'" and "\<forall>m. r = Some m \<longrightarrow> m = msg"
  using assms by (auto simp: ingest_def Let_def buffer_within_def split: if_splits
      dest!: set_update_subset_insert [THEN subsetD])

lemma drain_within:
  assumes "buffer_within M a" and "tryDrainBuffered a = (a', r)"
  shows "buffer_within M a'" and "\<forall>m. r = Some m \<longrightarrow> m \<in> M"
  using assms by (auto simp: tryDrainBuffered_def Let_def buffer_within_def split: if_splits
      dest!: set_update_subset_insert [THEN subsetD])

lemma arb_run_within:
  "buffer_within M a \<Longrightarrow> call_msgs cs \<subseteq> M \<Longrightarrow> arb_run a cs = (a', out) \<Longrightarrow> set out \<subseteq> M"
proof (induction cs arbitrary: a a' out)
  case (Cons c cs)
  obtain a1 r where c: "arb_do a c = (a1, r)" by (cases "arb_do a c")
  obtain a2 o2 where cs: "arb_run a1 cs = (a2, o2)" by (cases "arb_run a1 cs")
  have sub: "call_msgs cs \<subseteq> M" using Cons.prems(2) by (auto simp: call_msgs_def)
  have "buffer_within M a1 \<and> (\<forall>m. r = Some m \<longrightarrow> m \<in> M)"
  proof (cases c)
    case (Ingest src m)
    then have "m \<in> M" using Cons.prems(2) by (auto simp: call_msgs_def)
    with Ingest show ?thesis using ingest_within [OF Cons.prems(1)] c by fastforce
  next
    case Drain
    then show ?thesis using drain_within [OF Cons.prems(1)] c by auto
  qed
  with Cons.IH [OF _ sub cs] Cons.prems(3) c cs show ?case by (cases r) auto
qed simp

section \<open>Within the window, nothing is lost\<close>

text \<open>\<open>f s\<close> is the message with sequence number \<open>s\<close>, \<open>R\<close> the numbers that have arrived, \<open>E\<close> the expected
  number. All numbers below \<open>E\<close> have arrived, those above are in their slots, the window holds.\<close>

definition arb_ok :: "(nat \<Rightarrow> WireMessage) \<Rightarrow> nat set \<Rightarrow> nat \<Rightarrow> DualFeedArbitrator \<Rightarrow> bool" where
  "arb_ok f R E a \<longleftrightarrow> 0 < MaxBufferedGaps a \<and> fa_expectedSeqNo a = of_nat E
     \<and> 1 \<le> E \<and> E < 2 ^ 64
     \<and> (\<forall>s. 1 \<le> s \<and> s < E \<longrightarrow> s \<in> R)
     \<and> (\<forall>s \<in> R. s < 2 ^ 64 - 1 \<and> s < E + MaxBufferedGaps a \<and> seqNo (f s) = of_nat s)
     \<and> (\<forall>s \<in> R. E \<le> s \<longrightarrow>
          fa_gapBuffer a ! (s mod MaxBufferedGaps a) = \<lparr>gap_msg = f s, gap_active = True\<rparr>)
     \<and> (\<forall>g \<in> set (fa_gapBuffer a). gap_active g \<longrightarrow> (\<exists>s \<in> R. gap_msg g = f s))"

lemma window_slot:
  assumes "s mod n = t mod n" and "E \<le> s" and "s < E + n" and "E \<le> t" and "t < E + (n :: nat)"
  shows "s = t"
proof -
  have eq: "i = j" if "i mod n = j mod n" "i \<le> j" "j < i + n" for i j :: nat
  proof -
    have "n dvd j - i" using that(1,2) by (metis mod_eq_dvd_iff_nat)
    then show ?thesis using that dvd_imp_le [of n "j - i"] by fastforce
  qed
  show ?thesis using eq [of s t] eq [of t s] assms by (cases "s \<le> t") auto
qed

lemma arb_okD:
  assumes "arb_ok f R E a"
  shows "0 < MaxBufferedGaps a" "fa_expectedSeqNo a = of_nat E" "1 \<le> E" "E < 2 ^ 64"
    "unat (fa_expectedSeqNo a) = E"
    "1 \<le> s \<Longrightarrow> s < E \<Longrightarrow> s \<in> R"
    "s \<in> R \<Longrightarrow> s < 2 ^ 64 - 1" "s \<in> R \<Longrightarrow> s < E + MaxBufferedGaps a"
    "s \<in> R \<Longrightarrow> seqNo (f s) = of_nat s"
    "s \<in> R \<Longrightarrow> E \<le> s \<Longrightarrow>
       fa_gapBuffer a ! (s mod MaxBufferedGaps a) = \<lparr>gap_msg = f s, gap_active = True\<rparr>"
    "g \<in> set (fa_gapBuffer a) \<Longrightarrow> gap_active g \<Longrightarrow> \<exists>s \<in> R. gap_msg g = f s"
  using assms unat_u64 [of E] by (simp_all add: arb_ok_def)

text \<open>Accepting the expected message.\<close>

lemma arb_ok_advance:
  assumes ok: "arb_ok f R E a" and E: "E \<in> R \<or> (E < 2 ^ 64 - 1 \<and> seqNo (f E) = of_nat E)"
    and buf: "fa_gapBuffer a' = fa_gapBuffer a \<or>
       fa_gapBuffer a' = (fa_gapBuffer a)[E mod MaxBufferedGaps a := \<lparr>gap_msg = m, gap_active = False\<rparr>]"
    and exp: "fa_expectedSeqNo a' = fa_expectedSeqNo a + 1"
  shows "arb_ok f (insert E R) (Suc E) a'"
proof -
  note d = arb_okD [OF ok]
  have len: "MaxBufferedGaps a' = MaxBufferedGaps a" using buf by auto
  have slot: "E mod MaxBufferedGaps a \<noteq> s mod MaxBufferedGaps a" if "s \<in> R" "Suc E \<le> s" for s
    using window_slot [of E "MaxBufferedGaps a" s E] d(1) d(8) [OF that(1)] that(2) by auto
  have E': "E < 2 ^ 64 - 1" "seqNo (f E) = of_nat E" using E d(7,9) by auto
  have kept: "fa_gapBuffer a' ! (s mod MaxBufferedGaps a) = \<lparr>gap_msg = f s, gap_active = True\<rparr>"
    if "s \<in> R" "Suc E \<le> s" for s
    using buf slot [OF that] d(10) [OF that(1)] that(2) by auto
  have act: "gap_active g \<Longrightarrow> \<exists>s \<in> R. gap_msg g = f s" if "g \<in> set (fa_gapBuffer a')" for g
    using buf d(11) that by (auto dest!: set_update_subset_insert [THEN subsetD])
  show ?thesis
    unfolding arb_ok_def len
  proof (intro conjI ballI allI impI)
    show "fa_expectedSeqNo a' = of_nat (Suc E)" using exp d(2) by simp
    show "s \<in> insert E R" if "1 \<le> s \<and> s < Suc E" for s using d(6) that by (auto simp: less_Suc_eq)
    show "s < 2 ^ 64 - 1" if "s \<in> insert E R" for s using that E' d(7) by auto
    show "s < Suc E + MaxBufferedGaps a" if "s \<in> insert E R" for s using that d(8) by force
    show "seqNo (f s) = of_nat s" if "s \<in> insert E R" for s using that E' d(9) by auto
    show "\<exists>s \<in> insert E R. gap_msg g = f s" if "g \<in> set (fa_gapBuffer a')" "gap_active g" for g
      using act that by blast
  qed (use d E' kept in auto)
qed

lemma drain_ok:
  assumes ok: "arb_ok f R E a" and dr: "tryDrainBuffered a = (a', r)"
  shows "if E \<in> R then r = Some (f E) \<and> arb_ok f R (Suc E) a' else r = None \<and> a' = a"
proof -
  note d = arb_okD [OF ok]
  let ?i = "E mod MaxBufferedGaps a" and ?g = "fa_gapBuffer a ! (E mod MaxBufferedGaps a)"
  have dr: "(a', r) = (if gap_active ?g \<and> seqNo (gap_msg ?g) = fa_expectedSeqNo a
      then (a\<lparr>fa_gapBuffer := (fa_gapBuffer a)[?i := ?g\<lparr>gap_active := False\<rparr>],
           fa_expectedSeqNo := fa_expectedSeqNo a + 1\<rparr>, Some (gap_msg ?g)) else (a, None))"
    using dr d(5) by (simp add: tryDrainBuffered_def Let_def split: if_splits)
  show ?thesis
  proof (cases "E \<in> R")
    case True
    have g: "?g = \<lparr>gap_msg = f E, gap_active = True\<rparr>" by (rule d(10) [OF True]) simp
    then have a': "a' = a\<lparr>fa_gapBuffer := (fa_gapBuffer a)[?i := \<lparr>gap_msg = f E, gap_active = False\<rparr>],
           fa_expectedSeqNo := fa_expectedSeqNo a + 1\<rparr>" and r: "r = Some (f E)"
      using dr d(2) d(9) [OF True] by simp_all
    have "arb_ok f (insert E R) (Suc E) a'"
      by (rule arb_ok_advance [OF ok, where m = "f E"]) (simp_all add: True a')
    with True r show ?thesis by (simp add: insert_absorb)
  next
    case False
    have idle: "\<not> (gap_active ?g \<and> seqNo (gap_msg ?g) = fa_expectedSeqNo a)"
    proof
      assume g: "gap_active ?g \<and> seqNo (gap_msg ?g) = fa_expectedSeqNo a"
      have "?g \<in> set (fa_gapBuffer a)" using d(1) by (intro nth_mem mod_less_divisor)
      then obtain s where s: "s \<in> R" "gap_msg ?g = f s" using d(11) g by blast
      then have "(of_nat s :: u64) = of_nat E" using d(2) d(9) [OF s(1)] g by simp
      then have "s = E" using u64_eq_iff [of s E] d(4) d(7) [OF s(1)] by simp
      with s False show False by simp
    qed
    show ?thesis using dr False unfolding if_not_P [OF idle] by simp
  qed
qed

lemma map_upt_split: "i \<le> j \<Longrightarrow> j \<le> k \<Longrightarrow> map f [i..<j] @ map f [j..<k] = map f [i..<k]"
  by (metis le_Suc_ex map_append upt_add_eq_append)

lemma drain_calls_ok:
  assumes "arb_ok f R E a" and "drain_calls k a = (a', out)"
  shows "\<exists>E' \<ge> E. arb_ok f R E' a' \<and> out = map f [E..<E'] \<and> (E' \<notin> R \<or> E' = E + k)"
  using assms
proof (induction k arbitrary: E a a' out)
  case (Suc k)
  obtain a1 r where dr: "tryDrainBuffered a = (a1, r)" by (cases "tryDrainBuffered a")
  note step = drain_ok [OF Suc.prems(1) dr]
  show ?case
  proof (cases "E \<in> R")
    case False
    then show ?thesis using Suc.prems step dr by (intro exI [of _ E]) simp
  next
    case True
    then have r: "r = Some (f E)" and ok: "arb_ok f R (Suc E) a1" using step by auto
    obtain a2 o2 where dc: "drain_calls k a1 = (a2, o2)" by (cases "drain_calls k a1")
    obtain E' where E': "Suc E \<le> E'" "arb_ok f R E' a2" "o2 = map f [Suc E..<E']" "E' \<notin> R \<or> E' = Suc E + k"
      using Suc.IH [OF ok dc] by blast
    then have "f E # o2 = map f [E..<E']" by (simp add: upt_conv_Cons)
    then show ?thesis using E' Suc.prems(2) dr r dc by (intro exI [of _ E']) auto
  qed
qed auto

lemma ingest_ok:
  assumes ok: "arb_ok f R E a" and s: "s < 2 ^ 64 - 1" "seqNo (f s) = of_nat s" "s < E + MaxBufferedGaps a"
    and ing: "ingest a src (f s) = (a', r)"
  shows "if s = E then r = Some (f E) \<and> arb_ok f (insert s R) (Suc E) a'
    else r = None \<and> arb_ok f (insert s R) E a'"
proof -
  note d = arb_okD [OF ok]
  have us: "unat (seqNo (f s)) = s" using s by (simp add: unat_u64)
  have less: "seqNo (f s) < fa_expectedSeqNo a \<longleftrightarrow> s < E" and eq: "seqNo (f s) = fa_expectedSeqNo a \<longleftrightarrow> s = E"
    using us d(5) by (auto simp: word_less_nat_alt word_unat_eq_iff)
  consider (dup) "s < E" | (now) "s = E" | (early) "E < s" by linarith
  then show ?thesis
  proof cases
    case dup
    then have "a' = a\<lparr>fa_duplicatesDropped := fa_duplicatesDropped a + 1\<rparr>" "r = None"
      using ing less by (simp_all add: ingest_def Let_def)
    moreover have "s \<in> R \<or> s = 0" using d(6) [of s] dup by (cases "s = 0") auto
    ultimately show ?thesis using ok dup s by (auto simp: arb_ok_def)
  next
    case now
    then have a': "a' = a\<lparr>fa_expectedSeqNo := fa_expectedSeqNo a + 1\<rparr>" and r: "r = Some (f s)"
      using ing less eq by (simp_all add: ingest_def Let_def)
    have "arb_ok f (insert E R) (Suc E) a'"
      by (rule arb_ok_advance [OF ok, where m = "f E"]) (use s now a' in auto)
    then show ?thesis using now r by simp
  next
    case early
    let ?i = "s mod MaxBufferedGaps a"
    have buf: "fa_gapBuffer a' = (fa_gapBuffer a)[?i := \<lparr>gap_msg = f s, gap_active = True\<rparr>]"
      and exp: "fa_expectedSeqNo a' = fa_expectedSeqNo a" and r: "r = None"
      using ing less eq early us by (auto simp: ingest_def Let_def)
    have i: "?i < MaxBufferedGaps a" using d(1) by (rule mod_less_divisor)
    have other: "?i \<noteq> t mod MaxBufferedGaps a" if "t \<in> R" "E \<le> t" "t \<noteq> s" for t
      using window_slot [of s "MaxBufferedGaps a" t E] early s(3) d(8) [OF that(1)] that by auto
    have kept: "fa_gapBuffer a' ! (t mod MaxBufferedGaps a) = \<lparr>gap_msg = f t, gap_active = True\<rparr>"
      if "t \<in> insert s R" "E \<le> t" for t
      using that other [of t] d(10) [of t] i buf by (cases "t = s") auto
    have act: "\<exists>t \<in> insert s R. gap_msg g = f t" if "g \<in> set (fa_gapBuffer a')" "gap_active g" for g
      using that d(11) [of g] buf by (auto dest!: set_update_subset_insert [THEN subsetD])
    have len: "MaxBufferedGaps a' = MaxBufferedGaps a" using buf by simp
    have "arb_ok f (insert s R) E a'"
      unfolding arb_ok_def len exp using d(1-4,6-9) s kept act by simp
    then show ?thesis using early r by simp
  qed
qed

lemma arrive_ok:
  assumes ok: "arb_ok f R E a" and s: "s < 2 ^ 64 - 1" "seqNo (f s) = of_nat s" "s < E + MaxBufferedGaps a"
    and arr: "arb_arrive a (src, f s) = (a', out)"
  shows "\<exists>E' \<ge> E. arb_ok f (insert s R) E' a' \<and> out = map f [E..<E'] \<and> E' \<notin> insert s R"
proof -
  obtain a1 r where ing: "ingest a src (f s) = (a1, r)" by (cases "ingest a src (f s)")
  obtain o2 where dc: "drain_calls (MaxBufferedGaps a1) a1 = (a', o2)"
    and out: "out = (case r of None \<Rightarrow> [] | Some m \<Rightarrow> [m]) @ o2"
    using arr ing by (auto split: prod.splits)
  define E1 where "E1 = (if s = E then Suc E else E)"
  have ok1: "arb_ok f (insert s R) E1 a1" and r: "(case r of None \<Rightarrow> [] | Some m \<Rightarrow> [m]) = map f [E..<E1]"
    using ingest_ok [OF ok s ing] by (auto simp: E1_def split: if_splits)
  obtain E' where E': "E1 \<le> E'" "arb_ok f (insert s R) E' a'" "o2 = map f [E1..<E']"
    "E' \<notin> insert s R \<or> E' = E1 + MaxBufferedGaps a1"
    using drain_calls_ok [OF ok1 dc] by blast
  have "E' \<notin> insert s R" using E'(4) arb_okD(8) [OF ok1, of E'] by auto
  moreover have "E \<le> E1" by (simp add: E1_def)
  moreover have "map f [E..<E1] @ map f [E1..<E'] = map f [E..<E']"
    by (rule map_upt_split [OF \<open>E \<le> E1\<close> E'(1)])
  ultimately show ?thesis using E' out r by (intro exI [of _ E']) auto
qed

text \<open>The window: when a number arrives, every number \<open>n\<close> or more before it has arrived.\<close>

fun window_ok :: "nat \<Rightarrow> nat set \<Rightarrow> nat list \<Rightarrow> bool" where
  "window_ok n R [] = True"
| "window_ok n R (s # ss) = ((\<forall>t \<in> {1..s - n}. t \<in> R) \<and> window_ok n (insert s R) ss)"

lemma length_ingest: "ingest a src m = (a', r) \<Longrightarrow> MaxBufferedGaps a' = MaxBufferedGaps a"
  by (auto simp: ingest_def Let_def split: if_splits)

lemma length_drain: "tryDrainBuffered a = (a', r) \<Longrightarrow> MaxBufferedGaps a' = MaxBufferedGaps a"
  by (auto simp: tryDrainBuffered_def Let_def split: if_splits)

lemma length_drain_calls: "drain_calls k a = (a', out) \<Longrightarrow> MaxBufferedGaps a' = MaxBufferedGaps a"
proof (induction k arbitrary: a a' out)
  case (Suc k)
  then show ?case using length_drain by (fastforce split: prod.splits option.splits)
qed simp

lemma length_arrive: "arb_arrive a x = (a', out) \<Longrightarrow> MaxBufferedGaps a' = MaxBufferedGaps a"
  using length_ingest length_drain_calls by (cases x) (fastforce split: prod.splits)

lemma feed_window:
  assumes "arb_ok f R E a" and "E \<notin> R" and "MaxBufferedGaps a = n"
    and "\<forall>(src, s) \<in> set xs. s < 2 ^ 64 - 1 \<and> seqNo (f s) = of_nat s"
    and "window_ok n R (map snd xs)" and "arb_feed a (map (\<lambda>(src, s). (src, f s)) xs) = (a', out)"
  shows "\<exists>E' \<ge> E. arb_ok f (R \<union> snd ` set xs) E' a' \<and> out = map f [E..<E'] \<and> E' \<notin> R \<union> snd ` set xs"
  using assms
proof (induction xs arbitrary: R E a a' out)
  case (Cons x xs)
  obtain src s where x: "x = (src, s)" by (cases x)
  obtain a1 o1 where arr: "arb_arrive a (src, f s) = (a1, o1)" by (cases "arb_arrive a (src, f s)")
  obtain o2 where rest: "arb_feed a1 (map (\<lambda>(src, s). (src, f s)) xs) = (a', o2)" and out: "out = o1 @ o2"
    using Cons.prems(6) arr x by (auto split: prod.splits)
  have s: "s < 2 ^ 64 - 1" "seqNo (f s) = of_nat s" using Cons.prems(4) x by auto
  have win: "s < E + MaxBufferedGaps a"
  proof (rule ccontr)
    assume "\<not> s < E + MaxBufferedGaps a"
    then have "E \<in> {1..s - n}" using Cons.prems(3) arb_okD(3) [OF Cons.prems(1)] by auto
    with Cons.prems(2,5) x show False by auto
  qed
  obtain E1 where E1: "E \<le> E1" "arb_ok f (insert s R) E1 a1" "o1 = map f [E..<E1]" "E1 \<notin> insert s R"
    using arrive_ok [OF Cons.prems(1) s win arr] by blast
  obtain E' where E': "E1 \<le> E'" "arb_ok f (insert s R \<union> snd ` set xs) E' a'" "o2 = map f [E1..<E']"
    "E' \<notin> insert s R \<union> snd ` set xs"
    using Cons.IH [OF E1(2,4) _ _ _ rest] Cons.prems x length_arrive [OF arr] by auto
  have "o1 @ o2 = map f [E..<E']"
    by (simp only: E1(3) E'(3) map_upt_split [OF E1(1) E'(1)])
  then show ?case using E1(1) E' out x by (intro exI [of _ E']) auto
qed auto

lemma arb_ok_new: "0 < n \<Longrightarrow> arb_ok f {} 1 (arb_new n)"
  by (simp add: arb_ok_def arb_new_def arb_reset_def GapBufferEntry_zero_def)

section \<open>Properties\<close>

text \<open>C10: The arbitrated output is numbered 1, 2, 3, ... without gap, repetition or reordering, and
  consists of messages that arrived, for any sequence of \<open>ingest\<close> and \<open>tryDrainBuffered\<close> calls, from
  either feed and with any sequence numbers, and any buffer size.\<close>

theorem arbitrated_in_order:
  assumes "0 < n" and "arb_run (arb_new n) calls = (a, out)"
  shows "numbered 1 out \<and> fa_expectedSeqNo a = 1 + of_nat (length out) \<and> set out \<subseteq> call_msgs calls"
proof -
  have "buffer_within (call_msgs calls) (arb_new n)"
    using assms(1) by (simp add: buffer_within_def arb_new_def arb_reset_def GapBufferEntry_zero_def)
  from arb_run_within [OF this subset_refl assms(2)] arb_run_numbered [OF assms(2)]
  show ?thesis by (simp add: arb_new_def arb_reset_def)
qed

text \<open>Messages for the examples: \<open>ex_msg s\<close> carries the sequence number \<open>s\<close>.\<close>

definition ex_msg :: "nat \<Rightarrow> WireMessage" where
  "ex_msg s = set_cancel WireMessage_zero \<lparr>cancel_msgType = chX, cancel_seqNo = of_nat s,
     cancel_timestampNs = 0, cancel_orderId = 1, cancel_quantity = 0\<rparr>"

lemma seqNo_ex_msg [simp]: "seqNo (ex_msg s) = of_nat s"
  by (simp add: ex_msg_def)

definition ex_arb_calls :: "arb_call list" where
  "ex_arb_calls = [Ingest FeedA (ex_msg 1), Ingest FeedB (ex_msg 1), Ingest FeedA (ex_msg 3), Drain,
     Ingest FeedB (ex_msg 2), Drain, Drain]"

theorem arbitrated_in_order_witness:
  "\<exists>a out. arb_run (arb_new 4) ex_arb_calls = (a, out) \<and> map seqNo out = [1, 2, 3]
     \<and> set out \<subseteq> call_msgs ex_arb_calls \<and> fa_expectedSeqNo a = 4"
proof -
  obtain a out where run: "arb_run (arb_new 4) ex_arb_calls = (a, out)"
    by (cases "arb_run (arb_new 4) ex_arb_calls")
  have "map seqNo (snd (arb_run (arb_new 4) ex_arb_calls)) = [1, 2, 3]" by code_simp
  then have out: "map seqNo out = [1, 2, 3]" by (simp add: run)
  then have "length out = 3" by (metis length_map list.size(3,4) numeral_3_eq_3 One_nat_def add_Suc_right add_0_right)
  then show ?thesis using arbitrated_in_order [OF _ run] run out by auto
qed

text \<open>C9: Within the window nothing is lost. Two feeds deliver the messages \<open>f 1\<close>, \<open>f 2\<close>, ... in any
  order, with any duplicates, such that when a number arrives all numbers at least
  \<open>MaxBufferedGaps\<close> before it have arrived. If the client drains after each arrival, the output is
  \<open>f 1, ..., f (k - 1)\<close> where \<open>k\<close> is the first number that has not arrived.\<close>

theorem arbitrated_complete:
  assumes "0 < n"
    and "\<forall>(src, s) \<in> set arrivals. s < 2 ^ 64 - 1 \<and> seqNo (f s) = of_nat s"
    and "window_ok n {} (map snd arrivals)"
    and "arb_feed (arb_new n) (map (\<lambda>(src, s). (src, f s)) arrivals) = (a, out)"
  shows "\<exists>k. out = map f [1..<k] \<and> {1..<k} \<subseteq> snd ` set arrivals \<and> k \<notin> snd ` set arrivals
    \<and> fa_expectedSeqNo a = of_nat k"
proof -
  have "MaxBufferedGaps (arb_new n) = n" by (simp add: arb_new_def arb_reset_def)
  from feed_window [OF arb_ok_new [OF assms(1)] empty_iff [THEN iffD1, THEN notI] this assms(2-4)]
  obtain k where "arb_ok f (snd ` set arrivals) k a" "out = map f [1..<k]" "k \<notin> snd ` set arrivals"
    by auto
  then show ?thesis using arb_okD(2,6) [of f "snd ` set arrivals" k a] by (intro exI [of _ k]) auto
qed

definition ex_arrivals :: "(FeedSource \<times> nat) list" where
  "ex_arrivals = [(FeedA, 1), (FeedB, 1), (FeedA, 3), (FeedB, 4), (FeedA, 4), (FeedB, 2), (FeedA, 6)]"

theorem arbitrated_complete_witness:
  "\<exists>a. arb_feed (arb_new 4) (map (\<lambda>(src, s). (src, ex_msg s)) ex_arrivals)
     = (a, map ex_msg [1, 2, 3, 4]) \<and> fa_expectedSeqNo a = 5"
proof -
  obtain a out where run: "arb_feed (arb_new 4) (map (\<lambda>(src, s). (src, ex_msg s)) ex_arrivals) = (a, out)"
    by (cases "arb_feed (arb_new 4) (map (\<lambda>(src, s). (src, ex_msg s)) ex_arrivals)")
  have win: "window_ok 4 {} (map snd ex_arrivals)" by code_simp
  have "\<forall>(src, s) \<in> set ex_arrivals. s < 2 ^ 64 - 1 \<and> seqNo (ex_msg s) = of_nat s"
    by (simp add: ex_arrivals_def)
  from arbitrated_complete [OF _ this win run] obtain k where
    k: "out = map ex_msg [1..<k]" "fa_expectedSeqNo a = of_nat k" by auto
  have "length (snd (arb_feed (arb_new 4) (map (\<lambda>(src, s). (src, ex_msg s)) ex_arrivals))) = 4"
    by code_simp
  then have "k = 5" using k(1) by (simp add: run)
  moreover have "[1..<5] = [1, 2, 3, 4]" by (simp add: upt_rec)
  ultimately show ?thesis using k run by simp
qed

section \<open>Behaviour outside the specification\<close>

text \<open>One missing message, number 1, while 2, 3 and 4 arrive: the gap counter reports 6 missing and
  three retransmissions are requested.\<close>

lemma gap_counted_per_packet:
  "fa_sequenceGapsDetected (fst (arb_run (arb_new 8)
       [Ingest FeedA (ex_msg 2), Ingest FeedA (ex_msg 3), Ingest FeedA (ex_msg 4)])) = 6
   \<and> fa_retransmitRequests (fst (arb_run (arb_new 8)
       [Ingest FeedA (ex_msg 2), Ingest FeedA (ex_msg 3), Ingest FeedA (ex_msg 4)])) = 3"
  by (intro conjI; code_simp)

text \<open>Outside the window a buffered message is silently replaced: number 6 takes the slot of number 2,
  which is not delivered when 1 arrives.\<close>

lemma window_overflow_loses:
  "map seqNo (snd (arb_feed (arb_new 4)
     [(FeedA, ex_msg 2), (FeedA, ex_msg 6), (FeedA, ex_msg 1)])) = [1]"
  by code_simp

end
