(* ===== verification/Validator.thy ===== *)
theory Validator
  imports Protocol
begin

text \<open>
  The wire validator, \<open>WireParserValidator\<close> of \<open>include/feed_handler/parser_validator.hpp\<close>:
  \<open>validateAndParse\<close> copies a datagram into the \<open>WireMessage\<close> union after checking its length, and
  checks the fields. A \<open>const char*\<close> is \<^const>\<open>None\<close> (\<open>nullptr\<close>) or the bytes that follow it in
  memory, of which \<open>bytesReceived\<close> belong to the packet.
\<close>

section \<open>Results\<close>

datatype ValidationResult =
    Valid | TruncatedHeader | UnknownMessageType | LengthMismatch | InvalidSide | InvalidPrice
  | InvalidQuantity | SequenceOutOfOrder

text \<open>The underlying \<open>uint8_t\<close>, which orders the enumerators.\<close>

fun result_code :: "ValidationResult \<Rightarrow> nat" where
  "result_code Valid = 0" | "result_code TruncatedHeader = 1" | "result_code UnknownMessageType = 2"
| "result_code LengthMismatch = 3" | "result_code InvalidSide = 4" | "result_code InvalidPrice = 5"
| "result_code InvalidQuantity = 6" | "result_code SequenceOutOfOrder = 7"

lemma result_code_inj: "result_code a = result_code b \<longleftrightarrow> a = b"
  by (cases a; cases b) simp_all

instantiation ValidationResult :: linorder
begin

definition less_eq_ValidationResult :: "ValidationResult \<Rightarrow> ValidationResult \<Rightarrow> bool" where
  "less_eq_ValidationResult a b \<longleftrightarrow> result_code a \<le> result_code b"

definition less_ValidationResult :: "ValidationResult \<Rightarrow> ValidationResult \<Rightarrow> bool" where
  "less_ValidationResult a b \<longleftrightarrow> result_code a < result_code b"

instance
  by standard (auto simp: less_eq_ValidationResult_def less_ValidationResult_def result_code_inj
      simp flip: result_code_inj)

end

fun resultToString :: "ValidationResult \<Rightarrow> string" where
  "resultToString Valid = ''Valid''"
| "resultToString TruncatedHeader = ''TruncatedHeader''"
| "resultToString UnknownMessageType = ''UnknownMessageType''"
| "resultToString LengthMismatch = ''LengthMismatch''"
| "resultToString InvalidSide = ''InvalidSide''"
| "resultToString InvalidPrice = ''InvalidPrice''"
| "resultToString InvalidQuantity = ''InvalidQuantity''"
| "resultToString SequenceOutOfOrder = ''SequenceOutOfOrder''"

section \<open>Validation\<close>

text \<open>The field checks after the copy, by message type.\<close>

definition check_fields :: "byte \<Rightarrow> WireMessage \<Rightarrow> ValidationResult" where
  "check_fields t m =
     (if t = chA then
        (if add_side (wire_add m) \<noteq> chB \<and> add_side (wire_add m) \<noteq> chS then InvalidSide
         else if add_price (wire_add m) <=s 0 then InvalidPrice
         else if add_quantity (wire_add m) <=s 0 then InvalidQuantity
         else Valid)
      else if t = chX then
        (if cancel_quantity (wire_cancel m) <s 0 then InvalidQuantity else Valid)
      else if t = chE then
        (if exec_execQuantity (wire_exec m) <=s 0 then InvalidQuantity
         else if exec_matchPrice (wire_exec m) <=s 0 then InvalidPrice
         else Valid)
      else UnknownMessageType)"

definition validateAndParse ::
  "byte list option \<Rightarrow> nat \<Rightarrow> WireMessage \<Rightarrow> ValidationResult \<times> WireMessage" where
  "validateAndParse buffer bytesReceived outMsg =
     (case buffer of
        None \<Rightarrow> (TruncatedHeader, outMsg)
      | Some buf \<Rightarrow>
          if bytesReceived < 1 then (TruncatedHeader, outMsg)
          else
            let t = buf ! 0; reqSize = expectedSize t in
            if reqSize = 0 then (UnknownMessageType, outMsg)
            else if bytesReceived < reqSize then (LengthMismatch, outMsg)
            else
              let outMsg = take reqSize buf @ drop reqSize outMsg in
              (check_fields t outMsg, outMsg))"

section \<open>Lemmas\<close>

lemma expectedSize_cases:
  "expectedSize t = (if t = chA then 34 else if t = chX then 29 else if t = chE then 33 else 0)"
  by (simp add: expectedSize_def layout_simps)

lemma expectedSize_le: "expectedSize t \<le> 34"
  by (simp add: expectedSize_cases)

lemma expectedSize_known: "0 < expectedSize t \<longleftrightarrow> t \<in> {chA, chX, chE}"
  by (simp add: expectedSize_cases)

lemma check_fields_valid: "msgType m = t \<Longrightarrow> check_fields t m = Valid \<longleftrightarrow> isValid m"
  by (auto simp: check_fields_def isValid_def sle_iff sless_iff)

lemma check_fields_range: "check_fields t m \<noteq> SequenceOutOfOrder \<and> check_fields t m \<noteq> TruncatedHeader
  \<and> check_fields t m \<noteq> LengthMismatch"
  by (simp add: check_fields_def)

lemma msgType_copied: "0 < n \<Longrightarrow> n \<le> length buf \<Longrightarrow> msgType (take n buf @ rest) = buf ! 0"
  by (simp add: msgType_def nth_append)

text \<open>The two outcomes: an early return that leaves \<open>outMsg\<close> alone, or a copy of the message.\<close>

lemma validate_rejected:
  assumes "b = None \<or> n < 1 \<or> expectedSize (the b ! 0) = 0 \<or> n < expectedSize (the b ! 0)"
  shows "snd (validateAndParse b n m) = m \<and> fst (validateAndParse b n m) \<noteq> Valid"
  using assms by (auto simp: validateAndParse_def Let_def split: option.splits)

lemma validate_copied:
  fixes m :: WireMessage
  assumes "0 < expectedSize (buf ! 0)" and "expectedSize (buf ! 0) \<le> n" and "n \<le> length buf"
  defines "out \<equiv> take (expectedSize (buf ! 0)) buf @ drop (expectedSize (buf ! 0)) m"
  shows "validateAndParse (Some buf) n m = (check_fields (buf ! 0) out, out)"
    and "msgType out = buf ! 0"
  using assms msgType_copied [of "expectedSize (buf ! 0)" buf]
  by (simp_all add: validateAndParse_def Let_def)

text \<open>The views of a message depend on its first bytes only.\<close>

lemma field_at_prefix: "off + n \<le> k \<Longrightarrow> take k m = take k m' \<Longrightarrow> field_at off n m = field_at off n m'"
  by (metis (no_types, lifting) add.commute drop_take field_at_def min.absorb1 take_drop take_take)

lemma wire_cancel_prefix:
  assumes "take 29 m = take 29 m'"
  shows "wire_cancel m = wire_cancel m'"
proof -
  have "m ! 0 = m' ! 0" using assms by (metis nth_take zero_less_numeral)
  then show ?thesis using assms by (simp add: wire_cancel_def field_at_prefix [of _ _ 29 m m'])
qed

lemma wire_exec_prefix:
  assumes "take 33 m = take 33 m'"
  shows "wire_exec m = wire_exec m'"
proof -
  have "m ! 0 = m' ! 0" using assms by (metis nth_take zero_less_numeral)
  then show ?thesis using assms by (simp add: wire_exec_def field_at_prefix [of _ _ 33 m m'])
qed

lemma validate_own_bytes:
  assumes "wire_ok msg" and "wire_ok m" and "isValid msg"
  shows "case validateAndParse (Some (take (expectedSize (msgType msg)) msg)) (expectedSize (msgType msg)) m of
      (r, out) \<Rightarrow> r = Valid \<and> take (expectedSize (msgType msg)) out = take (expectedSize (msgType msg)) msg
        \<and> (msgType msg = chA \<longrightarrow> wire_add out = wire_add msg)
        \<and> (msgType msg = chX \<longrightarrow> wire_cancel out = wire_cancel msg)
        \<and> (msgType msg = chE \<longrightarrow> wire_exec out = wire_exec msg)"
proof -
  let ?k = "expectedSize (msgType msg)"
  let ?buf = "take ?k msg"
  have len: "length msg = 34" "length m = 34" using assms by (simp_all add: wire_ok_def layout_simps)
  have known: "msgType msg \<in> {chA, chX, chE}" using assms(3) by (auto simp: isValid_def split: if_splits)
  then have k: "0 < ?k" by (simp add: expectedSize_known)
  have hd: "?buf ! 0 = msgType msg" using k by (simp add: msgType_def)
  have "length ?buf = ?k" using len expectedSize_le [of "msgType msg"] by simp
  then have v: "validateAndParse (Some ?buf) ?k m = (check_fields (msgType msg) (?buf @ drop ?k m), ?buf @ drop ?k m)"
    using validate_copied(1) [of ?buf ?k m] k hd by simp
  let ?out = "?buf @ drop ?k m"
  have same: "take ?k ?out = take ?k msg" using len expectedSize_le [of "msgType msg"] by simp
  have views: "wire_add ?out = wire_add msg" if "msgType msg = chA"
    using that len by (simp add: expectedSize_cases)
  have viewx: "wire_cancel ?out = wire_cancel msg" if "msgType msg = chX"
    using wire_cancel_prefix [of msg ?out] same that len by (simp add: expectedSize_cases)
  have viewe: "wire_exec ?out = wire_exec msg" if "msgType msg = chE"
    using wire_exec_prefix [of msg ?out] same that len by (simp add: expectedSize_cases)
  have "check_fields (msgType msg) ?out = check_fields (msgType msg) msg"
    using known views viewx viewe by (auto simp: check_fields_def)
  also have "\<dots> = Valid" using assms(3) check_fields_valid [of msg] by simp
  finally show ?thesis using v same views viewx viewe by simp
qed

section \<open>Properties\<close>

text \<open>C21: A packet is accepted exactly when it starts with a known type, is long enough for it, and
  the message it holds satisfies \<open>isValid\<close>; the union then starts with the packet's bytes. A packet
  rejected before the copy leaves the output message untouched, and the output is 34 bytes in
  every case.\<close>

theorem validate_sound_complete:
  assumes "wire_ok m" and "n \<le> length buf"
  shows "case validateAndParse (Some buf) n m of (r, out) \<Rightarrow>
      wire_ok out
      \<and> (r = Valid \<longleftrightarrow> 1 \<le> n \<and> buf ! 0 \<in> {chA, chX, chE} \<and> expectedSize (buf ! 0) \<le> n \<and> isValid out)
      \<and> (r = Valid \<longrightarrow> take (expectedSize (buf ! 0)) out = take (expectedSize (buf ! 0)) buf)
      \<and> (r \<in> {TruncatedHeader, LengthMismatch} \<longrightarrow> out = m)"
proof (cases "1 \<le> n \<and> 0 < expectedSize (buf ! 0) \<and> expectedSize (buf ! 0) \<le> n")
  case True
  let ?k = "expectedSize (buf ! 0)"
  define out where "out = take ?k buf @ drop ?k m"
  have v: "validateAndParse (Some buf) n m = (check_fields (buf ! 0) out, out)"
    and t: "msgType out = buf ! 0"
    using validate_copied [of buf n m] True assms(2) by (simp_all add: out_def)
  have "wire_ok out" "take ?k out = take ?k buf"
    using True assms expectedSize_le [of "buf ! 0"] by (simp_all add: out_def wire_ok_def layout_simps)
  then show ?thesis
    using v check_fields_valid [OF t] True expectedSize_known check_fields_range by auto
next
  case False
  then have early: "n < 1 \<or> expectedSize (buf ! 0) = 0 \<or> n < expectedSize (buf ! 0)" by auto
  have unknown: "buf ! 0 \<notin> {chA, chX, chE}" if "expectedSize (buf ! 0) = 0"
    using expectedSize_known [of "buf ! 0"] that by simp
  show ?thesis
    using validate_rejected [of "Some buf" n m] assms(1) early unknown
    by (cases "validateAndParse (Some buf) n m") auto
qed

definition ex_packet :: "byte list" where
  "ex_packet = add_bytes \<lparr>add_msgType = chA, add_seqNo = 100, add_timestampNs = 1234567,
     add_orderId = 9999, add_side = chB, add_price = 10500, add_quantity = 50\<rparr>"

theorem validate_sound_complete_witness:
  "isValid (snd (validateAndParse (Some ex_packet) 34 WireMessage_zero))
   \<and> wire_ok (snd (validateAndParse (Some ex_packet) 29 WireMessage_zero))"
proof -
  have len: "length ex_packet = 34" by (simp add: ex_packet_def)
  have ok: "fst (validateAndParse (Some ex_packet) 34 WireMessage_zero) = Valid" by code_simp
  from validate_sound_complete [of WireMessage_zero 34 ex_packet]
    validate_sound_complete [of WireMessage_zero 29 ex_packet] show ?thesis
    using ok len by (auto split: prod.splits)
qed

text \<open>The validator never looks past the packet. Its result and its output depend only on the
  first \<open>bytesReceived\<close> bytes of the buffer, whatever the memory behind them holds, and of the
  output union only the \<open>expectedSize\<close> bytes of the announced type are ever written.\<close>

theorem validate_in_bounds:
  assumes "take n buf = take n buf'"
  shows "validateAndParse (Some buf) n m = validateAndParse (Some buf') n m
    \<and> (n \<le> length buf \<longrightarrow>
          drop (expectedSize (buf ! 0)) (snd (validateAndParse (Some buf) n m)) = drop (expectedSize (buf ! 0)) m)"
proof -
  have prefix: "take k buf = take k buf'" if "k \<le> n" for k
    using assms that by (metis min.absorb1 take_take)
  have hd: "buf ! 0 = buf' ! 0" if "0 < n"
    using assms that by (metis nth_take)
  have "validateAndParse (Some buf) n m = validateAndParse (Some buf') n m"
    using prefix hd by (auto simp: validateAndParse_def Let_def)
  moreover have "drop (expectedSize (buf ! 0)) (snd (validateAndParse (Some buf) n m))
      = drop (expectedSize (buf ! 0)) m" if "n \<le> length buf"
    using that by (simp add: validateAndParse_def Let_def)
  ultimately show ?thesis by simp
qed

theorem validate_in_bounds_witness:
  "validateAndParse (Some (ex_packet @ [1, 2])) 34 WireMessage_zero
     = validateAndParse (Some (ex_packet @ [9])) 34 WireMessage_zero"
  using validate_in_bounds [of 34 "ex_packet @ [1, 2]" "ex_packet @ [9]" WireMessage_zero]
  by (simp add: ex_packet_def)

text \<open>C36: Encode, send, validate. The first \<open>expectedSize\<close> bytes of any valid message are accepted
  and decode to the same message view, whatever the output union held before.\<close>

theorem validate_roundtrip:
  assumes "wire_ok msg" and "wire_ok m" and "isValid msg"
  shows "case validateAndParse (Some (take (expectedSize (msgType msg)) msg)) (expectedSize (msgType msg)) m of
      (r, out) \<Rightarrow> r = Valid \<and> take (expectedSize (msgType msg)) out = take (expectedSize (msgType msg)) msg
        \<and> (msgType msg = chA \<longrightarrow> wire_add out = wire_add msg)
        \<and> (msgType msg = chX \<longrightarrow> wire_cancel out = wire_cancel msg)
        \<and> (msgType msg = chE \<longrightarrow> wire_exec out = wire_exec msg)"
  by (rule validate_own_bytes [OF assms])

theorem validate_roundtrip_witness:
  "fst (validateAndParse (Some (take (expectedSize (msgType ex_packet)) ex_packet))
     (expectedSize (msgType ex_packet)) WireMessage_zero) = Valid"
proof -
  have "wire_ok ex_packet" by (simp add: wire_ok_def ex_packet_def layout_simps)
  moreover have "isValid ex_packet" by code_simp
  ultimately show ?thesis
    using validate_roundtrip [of ex_packet WireMessage_zero] by (auto split: prod.splits)
qed

end
