(* ===== verification/LineParser.thy ===== *)
theory LineParser
  imports Validator
begin

text \<open>
  The text front end, \<open>WireParserValidator::parseUserLine\<close> of
  \<open>include/feed_handler/parser_validator.hpp\<close>: one CSV or blank-separated line to a \<open>WireMessage\<close>.
  \<open>strtol\<close> and \<open>strtoull\<close> are modelled for base 10 on a platform with 64-bit \<open>long\<close>; the conversion of
  a price with a decimal point (\<open>strtod\<close>, \<open>llround\<close>) is the parameter \<open>ticks_of_decimal\<close>, the clock
  reading the argument \<open>nowNs\<close>.
\<close>

section \<open>Characters\<close>

definition char_byte :: "char \<Rightarrow> byte" where
  "char_byte c = of_nat (of_char c)"

definition to_upper :: "char \<Rightarrow> char" where
  "to_upper c = (if 97 \<le> (of_char c :: nat) \<and> (of_char c :: nat) \<le> 122 then char_of (of_char c - 32 :: nat) else c)"

definition is_digit :: "char \<Rightarrow> bool" where
  "is_digit c \<longleftrightarrow> 48 \<le> (of_char c :: nat) \<and> (of_char c :: nat) \<le> 57"

definition is_space :: "char \<Rightarrow> bool" where      \<comment> \<open>\<open>isspace\<close> in the C locale\<close>
  "is_space c \<longleftrightarrow> (of_char c :: nat) = 32 \<or> (9 \<le> (of_char c :: nat) \<and> (of_char c :: nat) \<le> 13)"

definition is_sep :: "char \<Rightarrow> bool" where
  "is_sep c \<longleftrightarrow> (of_char c :: nat) \<in> {44, 32, 9, 13, 10}"

section \<open>Numbers\<close>

fun digits_val :: "int \<Rightarrow> string \<Rightarrow> int" where
  "digits_val acc [] = acc"
| "digits_val acc (c # cs) =
     (if is_digit c then digits_val (10 * acc + int (of_char c - 48)) cs else acc)"

text \<open>The optional sign after leading white space.\<close>

definition sign_of :: "string \<Rightarrow> bool \<times> string" where
  "sign_of s =
     (case dropWhile is_space s of
        [] \<Rightarrow> (False, [])
      | c # cs \<Rightarrow> if (of_char c :: nat) = 45 then (True, cs)
                 else if (of_char c :: nat) = 43 then (False, cs) else (False, c # cs))"

definition strtol10 :: "string \<Rightarrow> int" where
  "strtol10 s = (case sign_of s of (neg, ds) \<Rightarrow>
     if neg then max (- digits_val 0 ds) (- (2 ^ 63)) else min (digits_val 0 ds) (2 ^ 63 - 1))"

definition strtoull10 :: "string \<Rightarrow> u64" where
  "strtoull10 s = (case sign_of s of (neg, ds) \<Rightarrow>
     if digits_val 0 ds \<ge> 2 ^ 64 then - 1
     else if neg then of_int (- digits_val 0 ds) else of_int (digits_val 0 ds))"

definition strtol_i32 :: "string \<Rightarrow> i32" where      \<comment> \<open>\<open>static_cast<int32_t>(strtol(s, nullptr, 10))\<close>\<close>
  "strtol_i32 s = of_int (strtol10 s)"

definition parsePriceTicks :: "(string \<Rightarrow> i32) \<Rightarrow> string \<Rightarrow> i32" where
  "parsePriceTicks ticks_of_decimal s =
     (if CHR ''.'' \<in> set s then ticks_of_decimal s else strtol_i32 s)"

section \<open>The line\<close>

fun tokenize :: "string \<Rightarrow> string \<Rightarrow> string list" where
  "tokenize current [] = (if current = [] then [] else [current])"
| "tokenize current (c # cs) =
     (if is_sep c then (if current = [] then tokenize [] cs else current # tokenize [] cs)
      else tokenize (current @ [c]) cs)"

definition comment_line :: "string \<Rightarrow> bool" where
  "comment_line line \<longleftrightarrow> line = [] \<or> line ! 0 = CHR ''#''
     \<or> (length line \<ge> 2 \<and> line ! 0 = CHR ''/'' \<and> line ! 1 = CHR ''/'')"

text \<open>The three message forms, on the tokens after the type; the message starts zeroed.\<close>

definition parse_add :: "(string \<Rightarrow> i32) \<Rightarrow> u64 \<Rightarrow> string list \<Rightarrow> u64 \<Rightarrow> bool \<times> WireMessage" where
  "parse_add ticks_of_decimal nowNs args seq =
     (if length args < 4 then (False, WireMessage_zero)
      else
        let orderId = strtoull10 (args ! 0);
            side = char_byte (to_upper (args ! 1 ! 0));
            price = parsePriceTicks ticks_of_decimal (args ! 2);
            qty = strtol_i32 (args ! 3)
        in if side \<noteq> chB \<and> side \<noteq> chS then (False, WireMessage_zero)
           else if price <=s 0 \<or> qty <=s 0 then (False, WireMessage_zero)
           else (True, set_add WireMessage_zero \<lparr>add_msgType = chA, add_seqNo = seq,
                   add_timestampNs = nowNs, add_orderId = orderId, add_side = side,
                   add_price = price, add_quantity = qty\<rparr>))"

definition parse_cancel :: "u64 \<Rightarrow> string list \<Rightarrow> u64 \<Rightarrow> bool \<times> WireMessage" where
  "parse_cancel nowNs args seq =
     (if length args < 1 then (False, WireMessage_zero)
      else
        let orderId = strtoull10 (args ! 0);
            rest = drop 1 args;
            newQty = (if rest = [] then 0
                      else if length rest \<ge> 3 then strtol_i32 (rest ! 2) else strtol_i32 (rest ! 0))
        in (True, set_cancel WireMessage_zero \<lparr>cancel_msgType = chX, cancel_seqNo = seq,
              cancel_timestampNs = nowNs, cancel_orderId = orderId, cancel_quantity = newQty\<rparr>))"

definition parse_exec :: "(string \<Rightarrow> i32) \<Rightarrow> u64 \<Rightarrow> string list \<Rightarrow> u64 \<Rightarrow> bool \<times> WireMessage" where
  "parse_exec ticks_of_decimal nowNs args seq =
     (if length args < 2 then (False, WireMessage_zero)
      else
        let orderId = strtoull10 (args ! 0);
            rest = drop 1 args;
            fields = (if length rest \<ge> 3 then drop 1 rest else rest)
        in if length fields < 2 then (False, WireMessage_zero)
           else
             let matchPrice = parsePriceTicks ticks_of_decimal (fields ! 0);
                 execQty = strtol_i32 (fields ! 1)
             in if execQty <=s 0 then (False, WireMessage_zero)
                else (True, set_exec WireMessage_zero \<lparr>exec_msgType = chE, exec_seqNo = seq,
                        exec_timestampNs = nowNs, exec_orderId = orderId,
                        exec_execQuantity = execQty, exec_matchPrice = matchPrice\<rparr>))"

definition parseUserLine ::
  "(string \<Rightarrow> i32) \<Rightarrow> u64 \<Rightarrow> string \<Rightarrow> u64 \<Rightarrow> WireMessage \<Rightarrow> bool \<times> WireMessage" where
  "parseUserLine ticks_of_decimal nowNs line seq outMsg =
     (if comment_line line then (False, outMsg)
      else
        let tokens = tokenize [] line in
        if tokens = [] then (False, outMsg)
        else
          let tokens = (if hd tokens = ''ORDER'' \<or> hd tokens = ''order'' then tl tokens else tokens) in
          if tokens = [] then (False, outMsg)
          else
            let t = to_upper (hd tokens ! 0); args = tl tokens in
            if t = CHR ''A'' then parse_add ticks_of_decimal nowNs args seq
            else if t = CHR ''X'' \<or> t = CHR ''C'' then parse_cancel nowNs args seq
            else if t = CHR ''E'' then parse_exec ticks_of_decimal nowNs args seq
            else (False, WireMessage_zero))"

section \<open>What a parsed message looks like\<close>

lemma not_sle_zero: "\<not> (q :: i32) <=s 0 \<longleftrightarrow> 0 <s q"
  by (rule not_sle_iff)

lemma parse_add_sound:
  assumes "parse_add f now args seq = (True, m)"
  shows "wire_ok m \<and> msgType m = chA \<and> seqNo m = seq \<and> timestampNs m = now \<and> isValid m"
  using assms by (auto simp: parse_add_def Let_def isValid_def not_sle_zero timestampNs_def split: if_splits)

lemma parse_cancel_sound:
  assumes "parse_cancel now args seq = (True, m)"
  shows "wire_ok m \<and> msgType m = chX \<and> seqNo m = seq \<and> timestampNs m = now
    \<and> (isValid m \<longleftrightarrow> 0 <=s cancel_quantity (wire_cancel m))"
proof -
  obtain k q where m: "m = set_cancel WireMessage_zero \<lparr>cancel_msgType = chX, cancel_seqNo = seq,
      cancel_timestampNs = now, cancel_orderId = k, cancel_quantity = q\<rparr>"
    using assms by (auto simp: parse_cancel_def Let_def split: if_splits)
  have "timestampNs m = cancel_timestampNs (wire_cancel m)" by (simp add: header_views)
  then show ?thesis by (simp add: m isValid_def)
qed

lemma parse_exec_sound:
  assumes "parse_exec f now args seq = (True, m)"
  shows "wire_ok m \<and> msgType m = chE \<and> seqNo m = seq \<and> timestampNs m = now
    \<and> 0 <s exec_execQuantity (wire_exec m)
    \<and> (isValid m \<longleftrightarrow> 0 <s exec_matchPrice (wire_exec m))"
proof -
  obtain k q px where m: "m = set_exec WireMessage_zero \<lparr>exec_msgType = chE, exec_seqNo = seq,
      exec_timestampNs = now, exec_orderId = k, exec_execQuantity = q, exec_matchPrice = px\<rparr>"
    and q: "0 <s q"
    using assms by (auto simp: parse_exec_def Let_def not_sle_zero split: if_splits)
  have "timestampNs m = exec_timestampNs (wire_exec m)" by (simp add: header_views)
  then show ?thesis using q by (simp add: m isValid_def)
qed

lemma parseUserLine_cases:
  assumes "parseUserLine f now line seq out = (True, m)"
  shows "\<exists>args. parse_add f now args seq = (True, m) \<or> parse_cancel now args seq = (True, m)
    \<or> parse_exec f now args seq = (True, m)"
  using assms by (auto simp: parseUserLine_def Let_def split: if_splits)

lemma parseUserLine_seq: "parseUserLine f now line seq out = (True, m) \<Longrightarrow> seqNo m = seq"
  using parseUserLine_cases parse_add_sound parse_cancel_sound parse_exec_sound by blast

section \<open>Decimal text\<close>

fun dec :: "nat \<Rightarrow> string" where
  "dec n = (if n < 10 then [char_of (48 + n)] else dec (n div 10) @ [char_of (48 + n mod 10)])"

declare dec.simps [simp del]

lemma of_char_digit: "(d :: nat) < 10 \<Longrightarrow> (of_char (char_of (48 + d) :: char) :: nat) = 48 + d"
  by (simp add: of_char_of)

lemma digit_char: "(d :: nat) < 10 \<Longrightarrow> is_digit (char_of (48 + d))"
  by (simp add: is_digit_def of_char_digit)

lemma dec_digits: "list_all is_digit (dec n) \<and> dec n \<noteq> []"
proof (induction n rule: dec.induct)
  case (1 n)
  show ?case
    using "1.IH" digit_char [of n] digit_char [of "n mod 10"] by (simp add: dec.simps [of n])
qed

lemma digits_val_append: "list_all is_digit xs \<Longrightarrow> digits_val acc (xs @ ys) = digits_val (digits_val acc xs) ys"
  by (induction xs arbitrary: acc) auto

lemma digits_val_dec: "digits_val 0 (dec n) = int n"
proof (induction n rule: dec.induct)
  case (1 n)
  show ?case
  proof (cases "n < 10")
    case True
    then show ?thesis using digit_char [of n] by (simp add: dec.simps [of n] of_char_digit)
  next
    case False
    have "digits_val 0 (dec n) = digits_val (int (n div 10)) [char_of (48 + n mod 10)]"
      using False "1.IH" dec_digits by (simp add: dec.simps [of n] digits_val_append)
    also have "\<dots> = 10 * int (n div 10) + int (n mod 10)"
      using digit_char [of "n mod 10"] by (simp add: of_char_digit)
    also have "\<dots> = int n" by presburger
    finally show ?thesis .
  qed
qed

lemma digit_not_space: "is_digit c \<Longrightarrow> \<not> is_space c"
  by (auto simp: is_digit_def is_space_def)

lemma sign_of_dec: "sign_of (dec n) = (False, dec n)"
proof (cases "dec n")
  case Nil
  then show ?thesis using dec_digits [of n] by simp
next
  case (Cons c cs)
  then have c: "is_digit c" using dec_digits [of n] by simp
  then show ?thesis
    using digit_not_space [OF c] by (simp add: sign_of_def Cons) (auto simp: is_digit_def)
qed

lemma strtoull_dec: "n < 2 ^ 64 \<Longrightarrow> strtoull10 (dec n) = of_nat n"
  by (simp add: strtoull10_def sign_of_dec digits_val_dec)

lemma strtol_dec: "n < 2 ^ 31 \<Longrightarrow> strtol_i32 (dec n) = of_nat n"
  by (simp add: strtol_i32_def strtol10_def sign_of_dec digits_val_dec)

lemma dec_no_dot: "CHR ''.'' \<notin> set (dec n)"
  using dec_digits [of n] by (auto simp: list_all_iff is_digit_def)

lemma dec_no_sep: "list_all (\<lambda>c. \<not> is_sep c) (dec n)"
  using dec_digits [of n] by (auto simp: list_all_iff is_digit_def is_sep_def)

text \<open>Tokens come back as they were written.\<close>

lemma tokenize_word:
  "list_all (\<lambda>c. \<not> is_sep c) w \<Longrightarrow> tokenize cur (w @ rest) = tokenize (cur @ w) rest"
  by (induction w arbitrary: cur) auto

fun join_tokens :: "char \<Rightarrow> string list \<Rightarrow> string" where
  "join_tokens sep [] = []"
| "join_tokens sep [w] = w"
| "join_tokens sep (w # v # ws) = w @ [sep] @ join_tokens sep (v # ws)"

lemma tokenize_join:
  assumes "is_sep sep" and "\<forall>w \<in> set ws. w \<noteq> [] \<and> list_all (\<lambda>c. \<not> is_sep c) w"
  shows "tokenize [] (join_tokens sep ws) = ws"
  using assms
proof (induction sep ws rule: join_tokens.induct)
  case (2 sep w)
  then show ?case using tokenize_word [of w "[]" "[]"] by simp
next
  case (3 sep w v ws)
  then show ?case using tokenize_word [of w "[]"] by simp
qed simp

lemma parse_add_line:
  assumes "\<not> comment_line line" and "tokenize [] line = prefix @ ''A'' # args"
    and "prefix \<in> {[], [''ORDER''], [''order'']}"
  shows "parseUserLine f now line seq out = parse_add f now args seq"
  using assms by (auto simp: parseUserLine_def to_upper_def)

section \<open>Properties\<close>

text \<open>What a parsed line gives. If the parser answers \<open>true\<close>, the message is 34 bytes, carries the
  given sequence number and time, and is an Add, Cancel or Execute. A parsed Add satisfies
  \<open>isValid\<close>; a parsed Execute has a positive quantity.\<close>

theorem parse_line_sound:
  assumes "parseUserLine ticks_of_decimal nowNs line seq out = (True, m)"
  shows "wire_ok m \<and> seqNo m = seq \<and> timestampNs m = nowNs \<and> msgType m \<in> {chA, chX, chE}
    \<and> (msgType m = chA \<longrightarrow> isValid m)
    \<and> (msgType m = chE \<longrightarrow> 0 <s exec_execQuantity (wire_exec m))"
  using parseUserLine_cases [OF assms] parse_add_sound parse_cancel_sound parse_exec_sound by fastforce

definition ex_line :: string where
  "ex_line = ''A,1001,B,22495,500''"

theorem parse_line_sound_witness:
  "fst (parseUserLine (\<lambda>_. 0) 5 ex_line 3 WireMessage_zero)
   \<and> isValid (snd (parseUserLine (\<lambda>_. 0) 5 ex_line 3 WireMessage_zero))"
proof -
  obtain ok m where p: "parseUserLine (\<lambda>_. 0) 5 ex_line 3 WireMessage_zero = (ok, m)"
    by (cases "parseUserLine (\<lambda>_. 0) 5 ex_line 3 WireMessage_zero")
  have ok: "fst (parseUserLine (\<lambda>_. 0) 5 ex_line 3 WireMessage_zero)"
    "msgType (snd (parseUserLine (\<lambda>_. 0) 5 ex_line 3 WireMessage_zero)) = chA"
    by code_simp+
  then show ?thesis
    using parse_line_sound [of "\<lambda>_. 0" 5 ex_line 3 WireMessage_zero m] p by simp
qed

text \<open>C29: Print and parse. An Add line written with any of the separators (comma, blank, tab, carriage
  return, newline), decimal id, side letter, integer price in ticks and quantity, with or without
  the \<open>ORDER\<close> prefix, parses to exactly that order, for every 64-bit id and every positive 32-bit
  price and quantity.\<close>

theorem parse_line_roundtrip:
  assumes "is_sep sep" and "k < 2 ^ 64" and "0 < px" and "px < 2 ^ 31" and "0 < q" and "q < 2 ^ 31"
    and "side \<in> {CHR ''B'', CHR ''S''}" and "prefix \<in> {[], [''ORDER''], [''order'']}"
  shows "parseUserLine ticks_of_decimal nowNs
      (join_tokens sep (prefix @ [''A'', dec k, [side], dec px, dec q])) seq out
    = (True, set_add WireMessage_zero \<lparr>add_msgType = chA, add_seqNo = seq, add_timestampNs = nowNs,
        add_orderId = of_nat k, add_side = char_byte side, add_price = of_nat px,
        add_quantity = of_nat q\<rparr>)"
proof -
  let ?args = "[dec k, [side], dec px, dec q]"
  let ?ts = "prefix @ ''A'' # ?args"
  have "\<forall>w \<in> set ?ts. w \<noteq> [] \<and> list_all (\<lambda>c. \<not> is_sep c) w"
    using assms(7,8) dec_no_sep dec_digits by (auto simp: is_sep_def)
  then have toks: "tokenize [] (join_tokens sep ?ts) = ?ts" by (rule tokenize_join [OF assms(1)])
  have nc: "\<not> comment_line (join_tokens sep ?ts)"
    using assms(8) by (auto simp: comment_line_def)
  have pos: "0 <s (of_nat n :: i32)" if "0 < n" "n < 2 ^ 31" for n :: nat
    using that sint_of_int_i32 [of "int n"] by (simp add: sless_iff)
  have side: "char_byte (to_upper side) = char_byte side \<and> (char_byte side = chB \<or> char_byte side = chS)"
    using assms(7) by (auto simp: to_upper_def char_byte_def)
  have "parse_add ticks_of_decimal nowNs ?args seq = (True, set_add WireMessage_zero
      \<lparr>add_msgType = chA, add_seqNo = seq, add_timestampNs = nowNs,
        add_orderId = of_nat k, add_side = char_byte side, add_price = of_nat px,
        add_quantity = of_nat q\<rparr>)"
    using side pos [OF assms(3,4)] pos [OF assms(5,6)] assms(2,4,6)
    by (simp add: parse_add_def Let_def strtoull_dec strtol_dec parsePriceTicks_def dec_no_dot not_sle_zero)
  then show ?thesis by (simp only: parse_add_line [OF nc toks assms(8)])
qed

theorem parse_line_roundtrip_witness:
  "fst (parseUserLine (\<lambda>_. 0) 5 (join_tokens CHR '','' [''ORDER'', ''A'', dec 1001, ''B'', dec 22495, dec 500])
     3 WireMessage_zero)"
  using parse_line_roundtrip [of "CHR '',''" 1001 22495 500 "CHR ''B''" "[''ORDER'']"]
  by (simp add: is_sep_def)

section \<open>Behaviour outside the specification\<close>

text \<open>The documentation promises \<open>true\<close> only for a valid message. A negative new quantity of a Cancel
  and a price of an Execute that is not positive are accepted, although \<open>isValid\<close> rejects them.\<close>

lemma parse_accepts_invalid:
  "fst (parseUserLine f 5 ''X 1001 -7'' 3 WireMessage_zero)
   \<and> \<not> isValid (snd (parseUserLine f 5 ''X 1001 -7'' 3 WireMessage_zero))
   \<and> fst (parseUserLine f 5 ''E 1001 0 20'' 3 WireMessage_zero)
   \<and> \<not> isValid (snd (parseUserLine f 5 ''E 1001 0 20'' 3 WireMessage_zero))"
  by (intro conjI; code_simp)

text \<open>The 64-bit result of \<open>strtol\<close> is cut to 32 bits before the sign check: a quantity of
  \<open>2^32 + 1\<close> is accepted as 1.\<close>

lemma parse_truncates_quantity:
  "parseUserLine f 5 ''A 1001 B 100 4294967297'' 3 WireMessage_zero
   = parseUserLine f 5 ''A 1001 B 100 1'' 3 WireMessage_zero"
  by code_simp

end
