(* ===== verification/Ingest.thy ===== *)
theory Ingest
  imports LineParser OrderBook
begin

text \<open>
  The two text modes of \<open>src/main.cpp\<close>: \<open>runUserFile\<close>, which parses a file and then runs the book over
  the parsed messages, and \<open>runInteractiveCLI\<close>, the console loop. A file is the list of its lines,
  \<^const>\<open>None\<close> when it cannot be opened; \<open>now i\<close> is the clock reading of the \<open>i\<close>-th call of the parser.
  What the modes print is the subject of theory \<open>Reports\<close>.
\<close>

section \<open>File mode\<close>

text \<open>The \<open>getline\<close> loop: every line takes a sequence number, parsed lines are kept.\<close>

fun parse_lines :: "(string \<Rightarrow> i32) \<Rightarrow> (nat \<Rightarrow> u64) \<Rightarrow> nat \<Rightarrow> u64 \<Rightarrow> string list \<Rightarrow> WireMessage list" where
  "parse_lines f now i seq [] = []"
| "parse_lines f now i seq (line # lines) =
     (case parseUserLine f (now i) line seq WireMessage_zero of
        (True, msg) \<Rightarrow> msg # parse_lines f now (Suc i) (seq + 1) lines
      | (False, _) \<Rightarrow> parse_lines f now (Suc i) (seq + 1) lines)"

definition runUserFile ::
  "(string \<Rightarrow> i32) \<Rightarrow> (nat \<Rightarrow> u64) \<Rightarrow> LimitOrderBook \<Rightarrow> string list option \<Rightarrow> LimitOrderBook" where
  "runUserFile f now book file =
     (case file of
        None \<Rightarrow> book
      | Some lines \<Rightarrow>
          let book = lob_reset book; messages = parse_lines f now 0 1 lines in
          if messages = [] then book else processAll book messages)"

section \<open>Console mode\<close>

record cli =
  cli_book :: LimitOrderBook
  cli_seqNo :: u64
  cli_calls :: nat            \<comment> \<open>calls of the parser so far, for the clock\<close>

definition cli_quit :: "string \<Rightarrow> bool" where
  "cli_quit line \<longleftrightarrow> line = ''QUIT'' \<or> line = ''quit'' \<or> line = ''exit''"

definition cli_reset :: "string \<Rightarrow> bool" where
  "cli_reset line \<longleftrightarrow> line = ''RESET'' \<or> line = ''reset''"

definition cli_show :: "string \<Rightarrow> bool" where
  "cli_show line \<longleftrightarrow> line = ''BOOK'' \<or> line = ''book''"

definition cli_order :: "(string \<Rightarrow> i32) \<Rightarrow> (nat \<Rightarrow> u64) \<Rightarrow> cli \<Rightarrow> string \<Rightarrow> cli" where
  "cli_order f now c line =
     (case parseUserLine f (now (cli_calls c)) line (cli_seqNo c) WireMessage_zero of (ok, msg) \<Rightarrow>
        let c = c\<lparr>cli_seqNo := cli_seqNo c + 1, cli_calls := Suc (cli_calls c)\<rparr> in
        if ok then c\<lparr>cli_book := processMessage (cli_book c) msg\<rparr> else c)"

fun cli_loop :: "(string \<Rightarrow> i32) \<Rightarrow> (nat \<Rightarrow> u64) \<Rightarrow> cli \<Rightarrow> string list \<Rightarrow> cli" where
  "cli_loop f now c [] = c"
| "cli_loop f now c (line # lines) =
     (if line = [] then cli_loop f now c lines
      else if cli_quit line then c
      else if cli_reset line then cli_loop f now (c\<lparr>cli_book := lob_reset (cli_book c)\<rparr>) lines
      else if cli_show line then cli_loop f now c lines
      else cli_loop f now (cli_order f now c line) lines)"

definition runInteractiveCLI ::
  "(string \<Rightarrow> i32) \<Rightarrow> (nat \<Rightarrow> u64) \<Rightarrow> LimitOrderBook \<Rightarrow> string list \<Rightarrow> cli" where
  "runInteractiveCLI f now book lines =
     cli_loop f now \<lparr>cli_book = lob_reset book, cli_seqNo = 1, cli_calls = 0\<rparr> lines"

section \<open>Lemmas\<close>

text \<open>The numbers of the parsed messages increase and stay within the lines read.\<close>

lemma parse_lines_seqs:
  assumes "unat seq + length lines < 2 ^ 64"
  shows "sorted_wrt (<) (map seqNo (parse_lines f now i seq lines))
    \<and> (\<forall>m \<in> set (parse_lines f now i seq lines).
         seq \<le> seqNo m \<and> unat (seqNo m) < unat seq + length lines)"
  using assms
proof (induction lines arbitrary: i seq)
  case (Cons line lines)
  have nxt: "unat (seq + 1) = Suc (unat seq)"
    using Cons.prems by (simp add: unat_word_ariths)
  have IH: "sorted_wrt (<) (map seqNo (parse_lines f now (Suc i) (seq + 1) lines))"
    "\<forall>m \<in> set (parse_lines f now (Suc i) (seq + 1) lines).
       seq + 1 \<le> seqNo m \<and> unat (seqNo m) < Suc (unat seq) + length lines"
    using Cons.IH [of "seq + 1" "Suc i"] Cons.prems nxt by auto
  have later: "seq < seqNo m \<and> unat (seqNo m) < unat seq + length (line # lines)"
    if "m \<in> set (parse_lines f now (Suc i) (seq + 1) lines)" for m
    using IH(2) that nxt by (auto simp: word_less_nat_alt word_le_nat_alt)
  obtain ok msg where p: "parseUserLine f (now i) line seq WireMessage_zero = (ok, msg)" by fastforce
  show ?case
  proof (cases ok)
    case True
    then have "seqNo msg = seq" using parseUserLine_seq [of f "now i" line seq] p by simp
    then show ?thesis using True p IH(1) later by (auto simp: less_imp_le)
  next
    case False
    then show ?thesis using p IH(1) later by (auto simp: less_imp_le)
  qed
qed simp

text \<open>The console and the file agree on lines that are neither empty nor commands.\<close>

definition plain_line :: "string \<Rightarrow> bool" where
  "plain_line line \<longleftrightarrow> line \<noteq> [] \<and> \<not> cli_quit line \<and> \<not> cli_reset line \<and> \<not> cli_show line"

lemma cli_loop_plain:
  "list_all plain_line lines \<Longrightarrow>
   cli_loop f now c lines = \<lparr>cli_book = processAll (cli_book c)
        (parse_lines f now (cli_calls c) (cli_seqNo c) lines),
     cli_seqNo = cli_seqNo c + of_nat (length lines), cli_calls = cli_calls c + length lines\<rparr>"
proof (induction lines arbitrary: c)
  case (Cons line lines)
  then show ?case
    by (cases "parseUserLine f (now (cli_calls c)) line (cli_seqNo c) WireMessage_zero")
      (simp add: plain_line_def cli_order_def Let_def)
qed simp

lemma lob_reset_fields [simp]:
  "lob_expectedSeqNo (lob_reset b) = 1" "lob_sequenceGapsDetected (lob_reset b) = 0"
  "lob_totalMessagesProcessed (lob_reset b) = 0" "lob_tradesExecutedCount (lob_reset b) = 0"
  by (simp_all add: lob_reset_def)

section \<open>Properties\<close>

text \<open>File ingestion counts. After a file with at least one parsed line, the book has counted
  exactly the parsed lines as messages and the parsed Execute lines as trades, expects the number
  after the last parsed line, and reports as sequence gaps exactly the lines up to the last parsed
  one that did not parse: comments, headers and blank lines take sequence numbers too.\<close>

theorem file_counters:
  assumes "length lines < 2 ^ 63" and "parse_lines f now 0 1 lines \<noteq> []"
  shows "let ms = parse_lines f now 0 1 lines; b = runUserFile f now book (Some lines) in
    lob_totalMessagesProcessed b = of_nat (length ms)
    \<and> lob_expectedSeqNo b = seqNo (last ms) + 1
    \<and> lob_sequenceGapsDetected b = seqNo (last ms) - of_nat (length ms)
    \<and> lob_tradesExecutedCount b = of_nat (length (filter (\<lambda>m. msgType m = chE) ms))"
proof -
  define ms where "ms = parse_lines f now 0 1 lines"
  define b where "b = runUserFile f now book (Some lines)"
  have seqs: "sorted_wrt (<) (map seqNo ms)"
    "\<forall>m \<in> set ms. 1 \<le> seqNo m \<and> unat (seqNo m) < 1 + length lines"
    using parse_lines_seqs [of 1 lines f now 0] assms(1) by (simp_all add: ms_def)
  have top: "seqNo m < - 1" if "unat (seqNo m) < 1 + length lines" for m
    using that assms(1) by (simp add: word_less_nat_alt unsigned_minus_1_eq_mask mask_eq_exp_minus_1)
  have b: "b = processAll (lob_reset book) ms"
    using assms(2) by (simp add: b_def runUserFile_def ms_def Let_def)
  have "ms \<noteq> []" using assms(2) by (simp add: ms_def)
  moreover have "\<forall>m \<in> set ms. lob_expectedSeqNo (lob_reset book) \<le> seqNo m \<and> seqNo m < - 1"
    using seqs(2) top by simp
  ultimately have "lob_expectedSeqNo b = seqNo (last ms) + 1 \<and>
      lob_sequenceGapsDetected b = seqNo (last ms) + 1 - 1 - of_nat (length ms)"
    using gaps_in_order [of "lob_reset book" ms] seqs(1) b by simp
  then show ?thesis
    using counters_all [of "lob_reset book" ms] b by (simp add: Let_def flip: ms_def b_def)
qed

text \<open>A comment, an order, a broken line and a fill.\<close>

definition ex_lines :: "string list" where
  "ex_lines = [''# type,id,side,price,qty'', ''A 7 B 100 50'', ''A 8 B'', ''E 7 100 20'']"

theorem file_counters_witness:
  "lob_sequenceGapsDetected (runUserFile (\<lambda>_. 0) (\<lambda>_. 0) ex_book (Some ex_lines)) = 2"
proof -
  have seqs: "map seqNo (parse_lines (\<lambda>_. 0) (\<lambda>_. 0) 0 1 ex_lines) = [2, 4]" by code_simp
  then have ne: "parse_lines (\<lambda>_. 0) (\<lambda>_. 0) 0 1 ex_lines \<noteq> []" by auto
  have len: "length (parse_lines (\<lambda>_. 0) (\<lambda>_. 0) 0 1 ex_lines) = 2"
    using arg_cong [OF seqs, of length] by simp
  have "seqNo (last (parse_lines (\<lambda>_. 0) (\<lambda>_. 0) 0 1 ex_lines)) = 4"
    using last_map [OF ne, of seqNo] seqs by simp
  moreover have "length ex_lines < 2 ^ 63" by (simp add: ex_lines_def)
  ultimately show ?thesis using file_counters [OF _ ne, of ex_book] len by (simp add: Let_def)
qed

text \<open>The two modes agree. Typing the lines of a file into the console, where none is empty or a
  command, gives the book that the file mode computes, message for message and counter for
  counter, and the console has used one sequence number per line.\<close>

theorem console_equals_file:
  assumes "list_all plain_line lines"
  shows "cli_book (runInteractiveCLI f now book lines) = runUserFile f now book (Some lines)
    \<and> cli_seqNo (runInteractiveCLI f now book lines) = 1 + of_nat (length lines)"
  using cli_loop_plain [OF assms] by (simp add: runInteractiveCLI_def runUserFile_def Let_def)

theorem console_equals_file_witness:
  "cli_seqNo (runInteractiveCLI (\<lambda>_. 0) (\<lambda>_. 0) ex_book ex_lines) = 5"
proof -
  have "list_all plain_line ex_lines"
    by (simp add: ex_lines_def plain_line_def cli_quit_def cli_reset_def cli_show_def)
  from console_equals_file [OF this, of "\<lambda>_. 0" "\<lambda>_. 0" ex_book] show ?thesis
    by (simp add: ex_lines_def)
qed

section \<open>Behaviour outside the specification\<close>

text \<open>\<open>RESET\<close> resets the book, which expects number 1 again, but not the console's counter: the next
  order, the second line typed, is counted as one missing message.\<close>

lemma console_reset_counts_gap:
  "lob_sequenceGapsDetected (cli_book (runInteractiveCLI (\<lambda>_. 0) (\<lambda>_. 0) ex_book
     [''A 7 B 100 50'', ''RESET'', ''A 8 B 100 50''])) = 1"
  by code_simp

end
