(* ===== verification/Wal.thy ===== *)
theory Wal
  imports OrderBook
begin

text \<open>
  The write-ahead log, \<open>include/feed_handler/wal_journal.hpp\<close>, on its POSIX path. The file system is a
  map from paths to bytes. A \<open>MAP_SHARED\<close> mapping is the file itself: what \<open>append\<close> stores is in the
  file, whether or not the process lives on, and \<open>msync\<close> and \<open>munmap\<close> do not change it. The outcomes
  of the system calls (\<open>open\<close>, \<open>ftruncate\<close>, \<open>mmap\<close>) are arguments. Sizes are natural numbers: a mapping
  that exists is far below \<open>2^64\<close> bytes.
\<close>

section \<open>State\<close>

type_synonym files = "string \<rightharpoonup> byte list"

record WALJournal =
  wal_filepath :: string
  wal_maxSizeBytes :: nat
  wal_writeOffsetBytes :: nat
  wal_mapped :: bool              \<comment> \<open>\<open>mappedPtr_ != nullptr\<close>\<close>
  wal_fd :: int

definition WALJournal_new :: WALJournal where
  "WALJournal_new = \<lparr>wal_filepath = '''', wal_maxSizeBytes = 0, wal_writeOffsetBytes = 0,
     wal_mapped = False, wal_fd = - 1\<rparr>"

text \<open>What the system calls of one \<open>open\<close> answer: the descriptor (negative on failure), and whether
  \<open>ftruncate\<close> and \<open>mmap\<close> succeed.\<close>

record open_env =
  env_fd :: int
  env_ftruncate :: bool
  env_mmap :: bool

section \<open>File contents\<close>

definition file_of :: "files \<Rightarrow> string \<Rightarrow> byte list" where
  "file_of fs path = (case fs path of None \<Rightarrow> [] | Some bytes \<Rightarrow> bytes)"

text \<open>\<open>ftruncate\<close>: cut, or extend with zero bytes.\<close>

definition resize :: "nat \<Rightarrow> byte list \<Rightarrow> byte list" where
  "resize n bytes = take n bytes @ replicate (n - length bytes) 0"

text \<open>\<open>records[i]\<close>, and \<open>memcpy(mappedPtr_ + off, &msg, sizeof(WireMessage))\<close>.\<close>

definition record_at :: "byte list \<Rightarrow> nat \<Rightarrow> WireMessage" where
  "record_at bytes i = take sizeof_WireMessage (drop (i * sizeof_WireMessage) bytes)"

definition store_at :: "byte list \<Rightarrow> nat \<Rightarrow> WireMessage \<Rightarrow> byte list" where
  "store_at bytes off msg = take off bytes @ msg @ drop (off + length msg) bytes"

section \<open>Operations\<close>

definition wal_recordCount :: "WALJournal \<Rightarrow> nat" where
  "wal_recordCount w = wal_writeOffsetBytes w div sizeof_WireMessage"

text \<open>Flushing asks the kernel to write the shared pages back; the contents do not change.\<close>

definition wal_flushAsync :: "WALJournal \<Rightarrow> files \<Rightarrow> files" where
  "wal_flushAsync w fs = fs"

definition wal_close :: "WALJournal \<Rightarrow> files \<Rightarrow> WALJournal \<times> files" where
  "wal_close w fs =
     (if wal_mapped w then (w\<lparr>wal_fd := - 1, wal_mapped := False\<rparr>, wal_flushAsync w fs) else (w, fs))"

text \<open>The loop that looks for the first record of type 0, from record \<open>i\<close> with \<open>k\<close> records to go; the
  offset stays 0 when there is none.\<close>

fun scan_offset :: "byte list \<Rightarrow> nat \<Rightarrow> nat \<Rightarrow> nat" where
  "scan_offset bytes i 0 = 0"
| "scan_offset bytes i (Suc k) =
     (if msgType (record_at bytes i) = 0 then i * sizeof_WireMessage
      else scan_offset bytes (Suc i) k)"

definition wal_open ::
  "open_env \<Rightarrow> WALJournal \<Rightarrow> files \<Rightarrow> string \<Rightarrow> nat \<Rightarrow> WALJournal \<times> files \<times> bool" where
  "wal_open env w fs filepath maxSizeBytes =
     (case wal_close w fs of (w, fs) \<Rightarrow>
        let w = w\<lparr>wal_filepath := filepath, wal_maxSizeBytes := maxSizeBytes\<rparr>;
            w = w\<lparr>wal_fd := env_fd env\<rparr>
        in if env_fd env < 0 then (w, fs, False)
           else
             let fs = fs(filepath \<mapsto> file_of fs filepath) in
             if \<not> env_ftruncate env then (w\<lparr>wal_fd := - 1\<rparr>, fs, False)
             else
               let fs = fs(filepath \<mapsto> resize maxSizeBytes (file_of fs filepath)) in
               if \<not> env_mmap env then (w\<lparr>wal_fd := - 1, wal_mapped := False\<rparr>, fs, False)
               else
                 let recordsInFile = maxSizeBytes div sizeof_WireMessage in
                 (w\<lparr>wal_mapped := True,
                    wal_writeOffsetBytes := scan_offset (file_of fs filepath) 0 recordsInFile\<rparr>,
                  fs, True))"

definition wal_append :: "WALJournal \<Rightarrow> files \<Rightarrow> WireMessage \<Rightarrow> WALJournal \<times> files \<times> bool" where
  "wal_append w fs msg =
     (if \<not> wal_mapped w \<or> wal_writeOffsetBytes w + sizeof_WireMessage > wal_maxSizeBytes w
      then (w, fs, False)
      else (w\<lparr>wal_writeOffsetBytes := wal_writeOffsetBytes w + sizeof_WireMessage\<rparr>,
            fs(wal_filepath w \<mapsto> store_at (file_of fs (wal_filepath w)) (wal_writeOffsetBytes w) msg),
            True))"

text \<open>The replay loop: record \<open>i\<close> with \<open>k\<close> to go.\<close>

fun replay :: "byte list \<Rightarrow> nat \<Rightarrow> nat \<Rightarrow> LimitOrderBook \<Rightarrow> nat \<Rightarrow> LimitOrderBook \<times> nat" where
  "replay bytes i 0 book replayed = (book, replayed)"
| "replay bytes i (Suc k) book replayed =
     (let r = record_at bytes i in
      if msgType r = chA \<or> msgType r = chX \<or> msgType r = chE
      then replay bytes (Suc i) k (processMessage book r) (Suc replayed)
      else replay bytes (Suc i) k book replayed)"

definition wal_recover :: "WALJournal \<Rightarrow> files \<Rightarrow> LimitOrderBook \<Rightarrow> LimitOrderBook \<times> nat" where
  "wal_recover w fs book =
     (if \<not> wal_mapped w then (book, 0)
      else replay (file_of fs (wal_filepath w)) 0 (wal_recordCount w) book 0)"

section \<open>A journal file\<close>

text \<open>The file holds the messages \<open>ms\<close>, then zero bytes up to its size.\<close>

definition journal_file :: "nat \<Rightarrow> WireMessage list \<Rightarrow> byte list" where
  "journal_file sz ms = concat ms @ replicate (sz - 34 * length ms) 0"

definition loggable :: "WireMessage \<Rightarrow> bool" where
  "loggable m \<longleftrightarrow> wire_ok m \<and> msgType m \<noteq> 0"

definition wal_holds :: "WALJournal \<Rightarrow> files \<Rightarrow> nat \<Rightarrow> WireMessage list \<Rightarrow> bool" where
  "wal_holds w fs sz ms \<longleftrightarrow> wal_mapped w \<and> wal_maxSizeBytes w = sz
     \<and> wal_writeOffsetBytes w = 34 * length ms \<and> 34 * length ms \<le> sz
     \<and> fs (wal_filepath w) = Some (journal_file sz ms)
     \<and> list_all loggable ms"

lemma sizeof_wire [simp]: "sizeof_WireMessage = 34"
  by (simp add: layout_simps)

lemma loggable_length: "loggable m \<Longrightarrow> length m = 34"
  by (simp add: loggable_def wire_ok_def)

lemma length_concat_log: "list_all loggable ms \<Longrightarrow> length (concat ms) = 34 * length ms"
  by (induction ms) (simp_all add: loggable_length)

lemma length_journal_file:
  "list_all loggable ms \<Longrightarrow> 34 * length ms \<le> sz \<Longrightarrow> length (journal_file sz ms) = sz"
  by (simp add: journal_file_def length_concat_log)

lemma record_at_log:
  assumes "list_all loggable ms" and "i < length ms"
  shows "record_at (concat ms @ rest) i = ms ! i"
  using assms
proof (induction ms arbitrary: i)
  case (Cons m ms)
  then show ?case
    using loggable_length [of m] by (cases i) (simp_all add: record_at_def)
qed simp

lemma record_at_zero:
  assumes "list_all loggable ms" and "34 * (length ms + 1) \<le> sz"
  shows "msgType (record_at (journal_file sz ms) (length ms)) = 0"
  using assms length_concat_log [OF assms(1)]
  by (simp add: record_at_def journal_file_def msgType_def mult.commute)

lemma scan_log:
  assumes "list_all loggable ms" and "i \<le> length ms"
  shows "scan_offset (journal_file sz ms) i (length ms - i + k) =
    (case k of 0 \<Rightarrow> 0 | Suc _ \<Rightarrow> if 34 * (length ms + 1) \<le> sz then 34 * length ms
       else scan_offset (journal_file sz ms) (length ms) k)"
  using assms
proof (induction "length ms - i" arbitrary: i)
  case 0
  then have "i = length ms" by simp
  then show ?case using record_at_zero [OF assms(1)] by (auto split: nat.split)
next
  case (Suc d)
  then have i: "i < length ms" by simp
  have "msgType (record_at (journal_file sz ms) i) \<noteq> 0"
    using record_at_log [OF assms(1) i] assms(1) i
    by (simp add: journal_file_def list_all_length loggable_def)
  moreover have "length ms - i + k = Suc (length ms - Suc i + k)" using i by simp
  ultimately show ?case using Suc.hyps(1) [of "Suc i"] Suc.hyps(2) i assms(1) by simp
qed

section \<open>Each operation on a journal\<close>

lemma store_at_log:
  assumes "list_all loggable ms" and "34 * (length ms + 1) \<le> sz" and "length m = 34"
  shows "store_at (journal_file sz ms) (34 * length ms) m = journal_file sz (ms @ [m])"
  using assms length_concat_log [OF assms(1)] by (simp add: store_at_def journal_file_def)

lemma append_holds:
  assumes "wal_holds w fs sz ms" and "loggable m"
  shows "case wal_append w fs m of (w', fs', ok) \<Rightarrow>
    ok = (34 * (length ms + 1) \<le> sz) \<and> wal_holds w' fs' sz (if ok then ms @ [m] else ms)"
  using assms store_at_log [of ms sz m] loggable_length [OF assms(2)]
  by (auto simp: wal_holds_def wal_append_def file_of_def)

text \<open>Appending a batch, and the number of messages accepted.\<close>

fun wal_append_all :: "WALJournal \<Rightarrow> files \<Rightarrow> WireMessage list \<Rightarrow> WALJournal \<times> files \<times> nat" where
  "wal_append_all w fs [] = (w, fs, 0)"
| "wal_append_all w fs (m # ms) =
     (case wal_append w fs m of (w, fs, ok) \<Rightarrow> case wal_append_all w fs ms of (w, fs, n) \<Rightarrow>
        (w, fs, (if ok then Suc n else n)))"

lemma append_all_holds:
  assumes "wal_holds w fs sz ms" and "list_all loggable ms'" and "34 * (length ms + length ms') \<le> sz"
  shows "case wal_append_all w fs ms' of (w', fs', n) \<Rightarrow>
    n = length ms' \<and> wal_filepath w' = wal_filepath w \<and> wal_holds w' fs' sz (ms @ ms')"
  using assms
proof (induction ms' arbitrary: w fs ms)
  case (Cons m ms')
  obtain w1 fs1 ok where ap: "wal_append w fs m = (w1, fs1, ok)" by (metis prod.exhaust)
  have "wal_filepath w1 = wal_filepath w" using ap by (auto simp: wal_append_def split: if_splits)
  moreover have "ok" "wal_holds w1 fs1 sz (ms @ [m])"
    using append_holds [OF Cons.prems(1), of m] ap Cons.prems(2,3) by (auto split: if_splits)
  ultimately show ?case
    using Cons.IH [of w1 fs1 "ms @ [m]"] Cons.prems(2,3) ap by (auto split: prod.splits)
qed simp

definition good_env :: "open_env \<Rightarrow> bool" where
  "good_env env \<longleftrightarrow> 0 \<le> env_fd env \<and> env_ftruncate env \<and> env_mmap env"

lemma open_good:
  assumes "good_env env"
  shows "\<exists>w'. wal_open env w fs path sz = (w', fs(path \<mapsto> resize sz (file_of fs path)), True)
    \<and> wal_mapped w' \<and> wal_filepath w' = path \<and> wal_maxSizeBytes w' = sz
    \<and> wal_writeOffsetBytes w' = scan_offset (resize sz (file_of fs path)) 0 (sz div 34)"
proof -
  obtain w1 where "wal_close w fs = (w1, fs)"
    by (cases "wal_mapped w") (simp_all add: wal_close_def wal_flushAsync_def)
  then show ?thesis using assms by (simp add: wal_open_def good_env_def Let_def file_of_def)
qed

lemma resize_journal:
  "list_all loggable ms \<Longrightarrow> 34 * length ms \<le> sz \<Longrightarrow> resize sz (journal_file sz ms) = journal_file sz ms"
  by (simp add: resize_def length_journal_file)

lemma scan_room:
  assumes "list_all loggable ms" and "34 * (length ms + 1) \<le> sz"
  shows "scan_offset (journal_file sz ms) 0 (sz div 34) = 34 * length ms"
proof -
  have "Suc (length ms) \<le> sz div 34" using assms(2) by (simp add: less_eq_div_iff_mult_less_eq)
  then obtain j where "sz div 34 = Suc (length ms) + j" by (rule le_Suc_ex [THEN exE])
  then have k: "sz div 34 = length ms + Suc j" by simp
  have "scan_offset (journal_file sz ms) 0 (length ms + Suc j) = 34 * length ms"
    using scan_log [OF assms(1), where i = 0 and k = "Suc j" and sz = sz] assms(2)
    by (simp del: scan_offset.simps add_Suc_right)
  then show ?thesis unfolding k .
qed

lemma scan_full:
  assumes "list_all loggable ms" and "sz div 34 = length ms"
  shows "scan_offset (journal_file sz ms) 0 (sz div 34) = 0"
  using scan_log [OF assms(1), where i = 0 and k = 0 and sz = sz] assms(2) by simp

text \<open>Opening a file that does not exist, and reopening a journal with room left.\<close>

lemma open_fresh_holds:
  assumes "good_env env" and "fs path = None"
  shows "case wal_open env w fs path sz of (w', fs', ok) \<Rightarrow>
    ok \<and> wal_filepath w' = path \<and> wal_holds w' fs' sz []"
proof -
  have empty: "resize sz (file_of fs path) = journal_file sz []"
    by (simp add: resize_def journal_file_def file_of_def assms(2))
  have "scan_offset (journal_file sz []) 0 (sz div 34) = 0"
  proof (cases "sz div 34")
    case (Suc k)
    then show ?thesis using scan_room [of "[]" sz] by (cases "34 \<le> sz") auto
  qed simp
  then show ?thesis
    using open_good [OF assms(1), of w fs path sz] unfolding empty by (auto simp: wal_holds_def)
qed

lemma reopen_holds:
  assumes "good_env env" and "fs path = Some (journal_file sz ms)" and "list_all loggable ms"
    and "34 * (length ms + 1) \<le> sz"
  shows "case wal_open env w fs path sz of (w', fs', ok) \<Rightarrow>
    ok \<and> wal_filepath w' = path \<and> wal_holds w' fs' sz ms"
proof -
  have same: "resize sz (file_of fs path) = journal_file sz ms"
    using resize_journal [OF assms(3)] assms(2,4) by (simp add: file_of_def)
  show ?thesis
    using open_good [OF assms(1), of w fs path sz] scan_room [OF assms(3,4)] assms(3,4)
    unfolding same by (auto simp: wal_holds_def)
qed

definition known :: "WireMessage \<Rightarrow> bool" where
  "known m \<longleftrightarrow> msgType m = chA \<or> msgType m = chX \<or> msgType m = chE"

lemma replay_log:
  assumes "list_all loggable ms"
  shows "i \<le> length ms \<Longrightarrow> replay (concat ms @ rest) i (length ms - i) book n =
    (processAll book (filter known (drop i ms)), n + length (filter known (drop i ms)))"
proof (induction "length ms - i" arbitrary: i book n)
  case (Suc d)
  then have i: "i < length ms" by simp
  then have k: "length ms - i = Suc (length ms - Suc i)" and dr: "drop i ms = ms ! i # drop (Suc i) ms"
    by (simp_all add: Cons_nth_drop_Suc)
  have "d = length ms - Suc i" "Suc i \<le> length ms" using Suc.hyps(2) i by simp_all
  note IH = Suc.hyps(1) [OF this]
  show ?case
    unfolding k by (simp add: record_at_log [OF assms i] dr Let_def known_def IH)
qed (simp add: Suc_diff_le)

lemma recover_holds:
  assumes "wal_holds w fs sz ms"
  shows "wal_recordCount w = length ms"
    and "wal_recover w fs book = (processAll book (filter known ms), length (filter known ms))"
proof -
  show n: "wal_recordCount w = length ms" using assms by (simp add: wal_recordCount_def wal_holds_def)
  have ms: "list_all loggable ms" using assms by (simp add: wal_holds_def)
  show "wal_recover w fs book = (processAll book (filter known ms), length (filter known ms))"
    using assms replay_log [OF ms, of 0] n
    by (simp add: wal_recover_def wal_holds_def file_of_def journal_file_def)
qed

section \<open>The contract of a journal\<close>

text \<open>What a process relies on, whichever platform keeps the file: opening finds the messages on disk,
  an append adds one while there is room, what is held is on disk at any moment, and \<open>recover\<close> replays
  it. \<open>good\<close> are the environments in which the system calls succeed.\<close>

locale journal_medium =
  fixes opn :: "'e \<Rightarrow> 'w \<Rightarrow> 'd \<Rightarrow> string \<Rightarrow> nat \<Rightarrow> 'w \<times> 'd \<times> bool"
    and app :: "'w \<Rightarrow> 'd \<Rightarrow> WireMessage \<Rightarrow> 'w \<times> 'd \<times> bool"
    and rec :: "'w \<Rightarrow> 'd \<Rightarrow> LimitOrderBook \<Rightarrow> LimitOrderBook \<times> nat"
    and good :: "'e \<Rightarrow> bool"
    and on_disk :: "'d \<Rightarrow> string \<Rightarrow> nat \<Rightarrow> WireMessage list \<Rightarrow> bool"
    and holds :: "'w \<Rightarrow> 'd \<Rightarrow> string \<Rightarrow> nat \<Rightarrow> WireMessage list \<Rightarrow> bool"
  assumes open_law: "good e \<Longrightarrow> on_disk d path sz ms \<Longrightarrow> 34 * (length ms + 1) \<le> sz
      \<Longrightarrow> opn e w d path sz = (w', d', ok) \<Longrightarrow> ok \<and> holds w' d' path sz ms"
    and append_law: "holds w d path sz ms \<Longrightarrow> loggable m \<Longrightarrow> app w d m = (w', d', ok)
      \<Longrightarrow> ok = (34 * (length ms + 1) \<le> sz) \<and> holds w' d' path sz (if ok then ms @ [m] else ms)"
    and disk_law: "holds w d path sz ms \<Longrightarrow> on_disk d path sz ms"
    and recover_law: "holds w d path sz ms
      \<Longrightarrow> rec w d book = (processAll book (filter known ms), length (filter known ms))"

text \<open>A process appends a batch and dies without closing; processes follow one another.\<close>

fun append_batch :: "('w \<Rightarrow> 'd \<Rightarrow> WireMessage \<Rightarrow> 'w \<times> 'd \<times> bool) \<Rightarrow> 'w \<Rightarrow> 'd \<Rightarrow> WireMessage list \<Rightarrow> 'w \<times> 'd" where
  "append_batch app w d [] = (w, d)"
| "append_batch app w d (m # ms) = (case app w d m of (w, d, ok) \<Rightarrow> append_batch app w d ms)"

definition journal_session ::
  "('e \<Rightarrow> 'w \<Rightarrow> 'd \<Rightarrow> string \<Rightarrow> nat \<Rightarrow> 'w \<times> 'd \<times> bool) \<Rightarrow> ('w \<Rightarrow> 'd \<Rightarrow> WireMessage \<Rightarrow> 'w \<times> 'd \<times> bool) \<Rightarrow> 'w
     \<Rightarrow> string \<Rightarrow> nat \<Rightarrow> 'd \<Rightarrow> 'e \<times> WireMessage list \<Rightarrow> 'd" where
  "journal_session opn app new path sz d ems =
     (case opn (fst ems) new d path sz of (w, d, ok) \<Rightarrow> snd (append_batch app w d (snd ems)))"

context journal_medium
begin

lemma batch_holds:
  assumes "holds w d path sz ms" and "list_all loggable ms'" and "34 * (length ms + length ms') \<le> sz"
  shows "case append_batch app w d ms' of (w', d') \<Rightarrow> holds w' d' path sz (ms @ ms')"
  using assms
proof (induction ms' arbitrary: w d ms)
  case (Cons m ms')
  obtain w1 d1 ok where ap: "app w d m = (w1, d1, ok)" by (metis prod.exhaust)
  have "holds w1 d1 path sz (ms @ [m])"
    using append_law [OF Cons.prems(1) _ ap] Cons.prems(2,3) by (auto split: if_splits)
  from Cons.IH [OF this] Cons.prems(2,3) ap show ?case by simp
qed simp

lemma session_on_disk:
  assumes "on_disk d path sz ms" and "good e" and "list_all loggable ms'"
    and "34 * (length ms + length ms' + 1) \<le> sz"
  shows "on_disk (journal_session opn app new path sz d (e, ms')) path sz (ms @ ms')"
proof -
  obtain w1 d1 ok where op: "opn e new d path sz = (w1, d1, ok)" by (metis prod.exhaust)
  obtain w2 d2 where ap: "append_batch app w1 d1 ms' = (w2, d2)" by (metis prod.exhaust)
  have "holds w1 d1 path sz ms" using open_law [OF assms(2,1) _ op] assms(4) by simp
  then have "holds w2 d2 path sz (ms @ ms')" using batch_holds [OF _ assms(3)] assms(4) ap by fastforce
  then show ?thesis using disk_law op ap by (simp add: journal_session_def)
qed

lemma sessions_on_disk:
  assumes "on_disk d path sz ms" and "list_all (\<lambda>(e, ms). good e \<and> list_all loggable ms) ss"
    and "34 * (length ms + length (concat (map snd ss)) + 1) \<le> sz"
  shows "on_disk (foldl (journal_session opn app new path sz) d ss) path sz (ms @ concat (map snd ss))"
  using assms
proof (induction ss arbitrary: d ms)
  case (Cons s ss)
  obtain e ms' where s: "s = (e, ms')" by (cases s)
  have "on_disk (journal_session opn app new path sz d (e, ms')) path sz (ms @ ms')"
    using Cons.prems s by (intro session_on_disk) auto
  from Cons.IH [OF this] Cons.prems(2,3) s show ?case by simp
qed simp

lemma sessions_recovered:
  assumes "on_disk d path sz ms" and "list_all (\<lambda>(e, ms). good e \<and> list_all loggable ms) ss" and "good e"
    and "34 * (length ms + length (concat (map snd ss)) + 1) \<le> sz"
  shows "case opn e w (foldl (journal_session opn app new path sz) d ss) path sz of (w', d', ok) \<Rightarrow>
    ok \<and> rec w' d' book = (let all = filter known (ms @ concat (map snd ss)) in (processAll book all, length all))"
proof -
  obtain w' d' ok where op: "opn e w (foldl (journal_session opn app new path sz) d ss) path sz = (w', d', ok)"
    by (metis prod.exhaust)
  note disk = sessions_on_disk [OF assms(1,2,4), where new = new]
  from open_law [OF assms(3) disk _ op] assms(4) have "ok" "holds w' d' path sz (ms @ concat (map snd ss))" by auto
  then show ?thesis using recover_law op by (simp add: Let_def)
qed

end

text \<open>The POSIX branch keeps it.\<close>

definition wal_on_disk :: "files \<Rightarrow> string \<Rightarrow> nat \<Rightarrow> WireMessage list \<Rightarrow> bool" where
  "wal_on_disk fs path sz ms \<longleftrightarrow> list_all loggable ms
     \<and> (fs path = None \<and> ms = [] \<or> fs path = Some (journal_file sz ms))"

definition wal_holds_at :: "WALJournal \<Rightarrow> files \<Rightarrow> string \<Rightarrow> nat \<Rightarrow> WireMessage list \<Rightarrow> bool" where
  "wal_holds_at w fs path sz ms \<longleftrightarrow> wal_filepath w = path \<and> wal_holds w fs sz ms"

lemma append_path: "wal_append w fs m = (w', fs', ok) \<Longrightarrow> wal_filepath w' = wal_filepath w"
  by (auto simp: wal_append_def split: if_splits)

interpretation posix: journal_medium wal_open wal_append wal_recover good_env wal_on_disk wal_holds_at
proof
  show "ok \<and> wal_holds_at w' d' path sz ms"
    if "good_env e" "wal_on_disk d path sz ms" "34 * (length ms + 1) \<le> sz" "wal_open e w d path sz = (w', d', ok)"
    for e d path sz ms w w' d' ok
    using that open_fresh_holds [where w = w and fs = d and path = path and sz = sz, OF that(1)]
      reopen_holds [where w = w and fs = d and path = path and sz = sz and ms = ms, OF that(1)]
    by (auto simp: wal_on_disk_def wal_holds_at_def)
  show "ok = (34 * (length ms + 1) \<le> sz) \<and> wal_holds_at w' d' path sz (if ok then ms @ [m] else ms)"
    if "wal_holds_at w d path sz ms" "loggable m" "wal_append w d m = (w', d', ok)" for w d path sz ms m w' d' ok
    using that append_holds [of w d sz ms m] append_path [OF that(3)] by (auto simp: wal_holds_at_def)
  show "wal_on_disk d path sz ms" if "wal_holds_at w d path sz ms" for w d path sz ms
    using that by (auto simp: wal_holds_at_def wal_holds_def wal_on_disk_def)
  show "wal_recover w d book = (processAll book (filter known ms), length (filter known ms))"
    if "wal_holds_at w d path sz ms" for w d path sz ms book
    using that unfolding wal_holds_at_def by (intro recover_holds(2)) blast
qed

section \<open>Properties\<close>

text \<open>Crash recovery. A journal is created at a path that does not exist, any messages with a
  nonzero type are appended while at least one record of room remains, and the process may die at
  any point after (no flush or close is needed). A new journal object opened on the path with the
  same size counts all the records, and \<open>recover\<close> takes any book through exactly the logged Add,
  Cancel and Execute messages in order, returning their number.\<close>

theorem wal_crash_recovery:
  assumes "good_env env" and "good_env env'" and "fs path = None"
    and "list_all loggable ms" and "34 * (length ms + 1) \<le> sz"
  shows "case wal_open env w fs path sz of (w1, fs1, opened) \<Rightarrow>
     case wal_append_all w1 fs1 ms of (w2, fs2, appended) \<Rightarrow>
     case wal_open env' w' fs2 path sz of (w3, fs3, reopened) \<Rightarrow>
       opened \<and> reopened \<and> appended = length ms \<and> wal_recordCount w3 = length ms
       \<and> wal_recover w3 fs3 book = (processAll book (filter known ms), length (filter known ms))"
proof -
  obtain w1 fs1 opened where 1: "wal_open env w fs path sz = (w1, fs1, opened)" by (metis prod.exhaust)
  obtain w2 fs2 n where 2: "wal_append_all w1 fs1 ms = (w2, fs2, n)" by (metis prod.exhaust)
  obtain w3 fs3 reopened where 3: "wal_open env' w' fs2 path sz = (w3, fs3, reopened)"
    by (metis prod.exhaust)
  have a: "opened" "wal_filepath w1 = path" "wal_holds w1 fs1 sz []"
    using open_fresh_holds [where w = w and sz = sz and fs = fs and path = path, OF assms(1,3)] 1 by auto
  have b: "n = length ms" "wal_filepath w2 = path" "wal_holds w2 fs2 sz ms"
    using append_all_holds [OF a(3) assms(4)] assms(5) a(2) 2 by auto
  have "fs2 path = Some (journal_file sz ms)" using b by (simp add: wal_holds_def)
  then have c: "reopened" "wal_holds w3 fs3 sz ms"
    using reopen_holds [where w = w' and fs = fs2 and path = path, OF assms(2) _ assms(4,5)] 3 by auto
  show ?thesis using 1 2 3 a b c recover_holds [OF c(2)] by simp
qed

definition ex_env :: open_env where
  "ex_env = \<lparr>env_fd = 3, env_ftruncate = True, env_mmap = True\<rparr>"

lemma ex_env_good: "good_env ex_env"
  by (simp add: good_env_def ex_env_def)

definition ex_log :: "WireMessage list" where
  "ex_log = [ex_add 1 7 chB 100 5, ex_cancel 2 7 0]"

lemma ex_log_loggable: "list_all loggable ex_log"
  by (simp add: ex_log_def loggable_def ex_add_def ex_cancel_def)

theorem wal_crash_recovery_witness:
  "case wal_open ex_env WALJournal_new Map.empty ''a.wal'' 1024 of (w1, fs1, opened) \<Rightarrow>
   case wal_append_all w1 fs1 ex_log of (w2, fs2, appended) \<Rightarrow>
   case wal_open ex_env WALJournal_new fs2 ''a.wal'' 1024 of (w3, fs3, reopened) \<Rightarrow>
     appended = 2 \<and> wal_recover w3 fs3 ex_book = (processAll ex_book ex_log, 2)"
proof -
  have "34 * (length ex_log + 1) \<le> 1024" and "filter known ex_log = ex_log" and "length ex_log = 2"
    by (simp_all add: ex_log_def known_def ex_add_def ex_cancel_def)
  then show ?thesis
    using wal_crash_recovery [where fs = Map.empty and path = "''a.wal''" and sz = 1024 and book = ex_book
        and w = WALJournal_new and w' = WALJournal_new, OF ex_env_good ex_env_good _ ex_log_loggable]
    by (auto split: prod.splits)
qed

text \<open>\<open>append\<close> stays inside the mapping. On a mapped journal whose file has the mapped size, it
  succeeds exactly when a whole record fits after the write offset; the file then keeps its size and
  only the 34 bytes at the offset change, to the message. On failure, or without a mapping, nothing
  changes.\<close>

theorem wal_append_bounds:
  assumes "fs (wal_filepath w) = Some bytes" and "length bytes = wal_maxSizeBytes w" and "wire_ok m"
  shows "case wal_append w fs m of (w', fs', ok) \<Rightarrow>
     ok = (wal_mapped w \<and> wal_writeOffsetBytes w + 34 \<le> wal_maxSizeBytes w)
     \<and> (\<not> ok \<longrightarrow> w' = w \<and> fs' = fs)
     \<and> (ok \<longrightarrow> wal_writeOffsetBytes w' = wal_writeOffsetBytes w + 34
          \<and> (\<exists>bytes'. fs' = fs(wal_filepath w \<mapsto> bytes') \<and> length bytes' = length bytes
             \<and> (\<forall>i < length bytes. bytes' ! i =
                  (if wal_writeOffsetBytes w \<le> i \<and> i < wal_writeOffsetBytes w + 34
                   then m ! (i - wal_writeOffsetBytes w) else bytes ! i))))"
proof (cases "wal_mapped w \<and> wal_writeOffsetBytes w + 34 \<le> wal_maxSizeBytes w")
  case True
  let ?off = "wal_writeOffsetBytes w"
  have m: "length m = 34" using assms(3) by (simp add: wire_ok_def)
  have off: "?off + 34 \<le> length bytes" using True assms(2) by simp
  have st: "length (store_at bytes ?off m) = length bytes"
    using off m by (simp add: store_at_def)
  have nth: "\<forall>i < length bytes. store_at bytes ?off m ! i =
      (if ?off \<le> i \<and> i < ?off + 34 then m ! (i - ?off) else bytes ! i)"
    using off m by (auto simp: store_at_def nth_append)
  have "wal_append w fs m = (w\<lparr>wal_writeOffsetBytes := ?off + 34\<rparr>,
      fs(wal_filepath w \<mapsto> store_at bytes ?off m), True)"
    using True assms(1) by (simp add: wal_append_def file_of_def)
  with True st nth show ?thesis by auto
next
  case False
  then show ?thesis by (auto simp: wal_append_def)
qed

theorem wal_append_bounds_witness:
  "\<exists>w' fs'. wal_append \<lparr>wal_filepath = ''a'', wal_maxSizeBytes = 40, wal_writeOffsetBytes = 34,
      wal_mapped = True, wal_fd = 3\<rparr> [''a'' \<mapsto> replicate 40 0] WireMessage_zero = (w', fs', False)"
  using wal_append_bounds [of "[''a'' \<mapsto> replicate 40 0]" "\<lparr>wal_filepath = ''a'',
      wal_maxSizeBytes = 40, wal_writeOffsetBytes = 34, wal_mapped = True, wal_fd = 3\<rparr>"
      "replicate 40 0" WireMessage_zero]
  by (auto split: prod.splits)

text \<open>C37: A full journal is lost on restart. When the records fill the file to within less than one
  record, reopening it finds no record of type 0 and leaves the write offset at 0: no record is
  counted, \<open>recover\<close> replays nothing, and the next append overwrites the oldest record.\<close>

theorem wal_full_journal_forgotten:
  assumes "good_env env" and "fs path = Some (journal_file sz ms)" and "list_all loggable ms"
    and "ms \<noteq> []" and "sz div 34 = length ms" and "wire_ok m"
  shows "case wal_open env w fs path sz of (w', fs', ok) \<Rightarrow>
     ok \<and> wal_recordCount w' = 0 \<and> wal_recover w' fs' book = (book, 0)
     \<and> (case wal_append w' fs' m of (w2, fs2, ok2) \<Rightarrow>
          ok2 \<and> fs2 path = Some (journal_file sz (m # tl ms)))"
proof -
  have fit: "34 * length ms \<le> sz" using assms(5) by (metis mult.commute div_times_less_eq_dividend)
  have same: "resize sz (file_of fs path) = journal_file sz ms"
    using resize_journal [OF assms(3) fit] assms(2) by (simp add: file_of_def)
  obtain w' where op: "wal_open env w fs path sz = (w', fs(path \<mapsto> journal_file sz ms), True)"
    and w': "wal_mapped w'" "wal_filepath w' = path" "wal_maxSizeBytes w' = sz" "wal_writeOffsetBytes w' = 0"
    using open_good [OF assms(1), of w fs path sz] scan_full [OF assms(3,5)] unfolding same by auto
  obtain m0 ms' where ms: "ms = m0 # ms'" using assms(4) by (cases ms) auto
  have len: "length m0 = 34" "length m = 34" "34 \<le> sz"
    using assms(3,6) fit loggable_length [of m0] by (simp_all add: ms wire_ok_def)
  have "store_at (journal_file sz ms) 0 m = journal_file sz (m # tl ms)"
    using len by (simp add: store_at_def journal_file_def ms)
  then have "wal_append w' (fs(path \<mapsto> journal_file sz ms)) m =
      (w'\<lparr>wal_writeOffsetBytes := 34\<rparr>, fs(path \<mapsto> journal_file sz (m # tl ms)), True)"
    using w' len by (simp add: wal_append_def file_of_def)
  then show ?thesis using op w' by (simp add: wal_recordCount_def wal_recover_def)
qed

theorem wal_full_journal_forgotten_witness:
  "case wal_open ex_env WALJournal_new [''a'' \<mapsto> journal_file 68 ex_log] ''a'' 68 of (w', fs', ok) \<Rightarrow>
     ok \<and> wal_recover w' fs' ex_book = (ex_book, 0)"
proof -
  have "ex_log \<noteq> []" "68 div 34 = length ex_log" by (simp_all add: ex_log_def)
  from wal_full_journal_forgotten [where path = "''a''" and fs = "[''a'' \<mapsto> journal_file 68 ex_log]"
      and m = WireMessage_zero and w = WALJournal_new and book = ex_book, OF ex_env_good _ ex_log_loggable this]
  show ?thesis by (auto split: prod.splits)
qed

section \<open>Behaviour outside the specification\<close>

text \<open>Reopening with a smaller size cuts the file: the records past the new size are gone from the
  disk, not only from the mapping.\<close>

lemma reopen_smaller_truncates:
  assumes "good_env env" and "fs path = Some bytes" and "sz \<le> length bytes"
  shows "fst (snd (wal_open env w fs path sz)) path = Some (take sz bytes)"
  using open_good [OF assms(1), of w fs path sz] assms(2,3) by (auto simp: file_of_def resize_def)

end
