(* ===== verification/WalWindows.thy ===== *)
theory WalWindows
  imports Wal
begin

text \<open>
  The Windows branches of \<open>include/feed_handler/wal_journal.hpp\<close>: \<open>CreateFileA\<close>, \<open>CreateFileMappingA\<close> and
  \<open>MapViewOfFile\<close> in place of \<open>open\<close>, \<open>ftruncate\<close> and \<open>mmap\<close>. The members both platforms share are the
  record \<open>WALJournal\<close> of theory \<open>Wal\<close> (whose descriptor does not exist here and stays at \<open>- 1\<close>), and
  \<open>append\<close>, \<open>recover\<close> and \<open>recordCount\<close> are its functions. The state of the operating system is the files
  and the set of handles the process holds. What the system calls answer is an argument; of
  \<open>CreateFileMappingA\<close> its documentation is used: a file shorter than the mapping is extended, never
  cut, and the new bytes are unspecified (\<open>env_fill\<close>).
\<close>

section \<open>State\<close>

type_synonym HANDLE = int

definition INVALID_HANDLE_VALUE :: HANDLE where
  "INVALID_HANDLE_VALUE = - 1"

definition NULL_HANDLE :: HANDLE where
  "NULL_HANDLE = 0"

record WinJournal =
  ww_wal :: WALJournal
  ww_hFile :: HANDLE
  ww_hMapping :: HANDLE

definition WinJournal_new :: WinJournal where
  "WinJournal_new = \<lparr>ww_wal = WALJournal_new, ww_hFile = INVALID_HANDLE_VALUE, ww_hMapping = NULL_HANDLE\<rparr>"

record win_os =
  os_files :: files
  os_handles :: "HANDLE set"

record win_env =
  env_CreateFile :: HANDLE
  env_CreateFileMapping :: HANDLE
  env_MapViewOfFile :: bool
  env_fill :: "nat \<Rightarrow> byte"      \<comment> \<open>byte \<open>i\<close> of a file, should it be new\<close>

section \<open>Operations\<close>

definition CloseHandle :: "HANDLE \<Rightarrow> win_os \<Rightarrow> win_os" where
  "CloseHandle h os = os\<lparr>os_handles := os_handles os - {h}\<rparr>"

definition grow :: "nat \<Rightarrow> (nat \<Rightarrow> byte) \<Rightarrow> byte list \<Rightarrow> byte list" where
  "grow n fill bytes = bytes @ map fill [length bytes ..< n]"

text \<open>\<open>FlushViewOfFile\<close> and \<open>UnmapViewOfFile\<close> leave the contents of the file as they are.\<close>

definition win_flushAsync :: "WinJournal \<Rightarrow> win_os \<Rightarrow> win_os" where
  "win_flushAsync w os = os"

definition win_close :: "WinJournal \<Rightarrow> win_os \<Rightarrow> WinJournal \<times> win_os" where
  "win_close w os =
     (if wal_mapped (ww_wal w) then
        let os = win_flushAsync w os;
            os = CloseHandle (ww_hMapping w) os;
            os = CloseHandle (ww_hFile w) os
        in (w\<lparr>ww_hMapping := NULL_HANDLE, ww_hFile := INVALID_HANDLE_VALUE,
              ww_wal := (ww_wal w)\<lparr>wal_mapped := False\<rparr>\<rparr>, os)
      else (w, os))"

definition win_open ::
  "win_env \<Rightarrow> WinJournal \<Rightarrow> win_os \<Rightarrow> string \<Rightarrow> nat \<Rightarrow> WinJournal \<times> win_os \<times> bool" where
  "win_open env w os filepath maxSizeBytes =
     (case win_close w os of (w, os) \<Rightarrow>
        let w = w\<lparr>ww_wal := (ww_wal w)\<lparr>wal_filepath := filepath, wal_maxSizeBytes := maxSizeBytes\<rparr>,
                  ww_hFile := env_CreateFile env\<rparr>
        in if ww_hFile w = INVALID_HANDLE_VALUE then (w, os, False)
           else
             let os = os\<lparr>os_files := (os_files os)(filepath \<mapsto> file_of (os_files os) filepath),
                         os_handles := insert (ww_hFile w) (os_handles os)\<rparr>;
                 w = w\<lparr>ww_hMapping := env_CreateFileMapping env\<rparr>
             in if ww_hMapping w = NULL_HANDLE
                then (w\<lparr>ww_hFile := INVALID_HANDLE_VALUE\<rparr>, CloseHandle (ww_hFile w) os, False)
                else
                  let os = os\<lparr>os_files := (os_files os)(filepath \<mapsto>
                                grow maxSizeBytes (env_fill env) (file_of (os_files os) filepath)),
                              os_handles := insert (ww_hMapping w) (os_handles os)\<rparr>
                  in if \<not> env_MapViewOfFile env
                     then (w\<lparr>ww_hMapping := NULL_HANDLE, ww_hFile := INVALID_HANDLE_VALUE\<rparr>,
                           CloseHandle (ww_hFile w) (CloseHandle (ww_hMapping w) os), False)
                     else
                       let recordsInFile = maxSizeBytes div sizeof_WireMessage in
                       (w\<lparr>ww_wal := (ww_wal w)\<lparr>wal_mapped := True, wal_writeOffsetBytes :=
                            scan_offset (file_of (os_files os) filepath) 0 recordsInFile\<rparr>\<rparr>,
                        os, True))"

text \<open>The operations without a platform branch.\<close>

definition win_append :: "WinJournal \<Rightarrow> win_os \<Rightarrow> WireMessage \<Rightarrow> WinJournal \<times> win_os \<times> bool" where
  "win_append w os msg =
     (case wal_append (ww_wal w) (os_files os) msg of (wal, fs, ok) \<Rightarrow>
        (w\<lparr>ww_wal := wal\<rparr>, os\<lparr>os_files := fs\<rparr>, ok))"

definition win_recover :: "WinJournal \<Rightarrow> win_os \<Rightarrow> LimitOrderBook \<Rightarrow> LimitOrderBook \<times> nat" where
  "win_recover w os book = wal_recover (ww_wal w) (os_files os) book"

section \<open>Handles\<close>

text \<open>The journal holds two handles while it is mapped and none otherwise; \<open>H\<close> are the handles of the
  rest of the process. New handles are not already held.\<close>

definition win_inv :: "HANDLE set \<Rightarrow> WinJournal \<Rightarrow> win_os \<Rightarrow> bool" where
  "win_inv H w os \<longleftrightarrow> (if wal_mapped (ww_wal w)
     then ww_hFile w \<noteq> ww_hMapping w \<and> ww_hFile w \<notin> H \<and> ww_hMapping w \<notin> H
       \<and> os_handles os = insert (ww_hFile w) (insert (ww_hMapping w) H)
     else ww_hFile w = INVALID_HANDLE_VALUE \<and> ww_hMapping w = NULL_HANDLE \<and> os_handles os = H)"

definition fresh_handles :: "HANDLE set \<Rightarrow> win_env \<Rightarrow> bool" where
  "fresh_handles H env \<longleftrightarrow> env_CreateFile env \<notin> H \<and> env_CreateFileMapping env \<notin> H
     \<and> env_CreateFile env \<noteq> env_CreateFileMapping env"

lemma win_inv_new [inv_intros]: "os_handles os = H \<Longrightarrow> win_inv H WinJournal_new os"
  by (simp add: win_inv_def WinJournal_new_def WALJournal_new_def)

lemma win_inv_close [inv_intros]:
  "win_inv H w os \<Longrightarrow> case win_close w os of (w', os') \<Rightarrow>
     win_inv H w' os' \<and> \<not> wal_mapped (ww_wal w') \<and> os_files os' = os_files os \<and> os_handles os' = H"
  by (auto simp: win_inv_def win_close_def win_flushAsync_def CloseHandle_def Let_def split: if_splits)

lemma win_inv_append [inv_intros]:
  "win_inv H w os \<Longrightarrow> case win_append w os m of (w', os', ok) \<Rightarrow> win_inv H w' os'"
  by (auto simp: win_inv_def win_append_def wal_append_def split: if_splits)

lemma win_inv_open [inv_intros]:
  assumes "win_inv H w os" and "fresh_handles H env"
  shows "case win_open env w os path sz of (w', os', ok) \<Rightarrow>
    win_inv H w' os' \<and> ok = wal_mapped (ww_wal w')"
proof -
  obtain w1 os1 where c: "win_close w os = (w1, os1)" by (metis prod.exhaust)
  have i: "win_inv H w1 os1" "\<not> wal_mapped (ww_wal w1)" using win_inv_close [OF assms(1)] c by auto
  show ?thesis
    using i assms(2) unfolding win_open_def c
    by (auto simp: win_inv_def fresh_handles_def CloseHandle_def Let_def)
qed

section \<open>Against the POSIX branch\<close>

text \<open>The two journals have the same view of the first \<open>sz\<close> bytes; a POSIX file ends there.\<close>

definition same_view :: "nat \<Rightarrow> string \<Rightarrow> WinJournal \<Rightarrow> win_os \<Rightarrow> WALJournal \<Rightarrow> files \<Rightarrow> bool" where
  "same_view sz path w os p fs \<longleftrightarrow>
     wal_mapped (ww_wal w) \<and> wal_mapped p
     \<and> wal_filepath (ww_wal w) = path \<and> wal_filepath p = path
     \<and> wal_maxSizeBytes (ww_wal w) = sz \<and> wal_maxSizeBytes p = sz
     \<and> wal_writeOffsetBytes (ww_wal w) = wal_writeOffsetBytes p
     \<and> wal_writeOffsetBytes p \<le> sz
     \<and> length (file_of fs path) = sz \<and> take sz (file_of (os_files os) path) = file_of fs path"

lemma record_at_take:
  assumes "34 * (i + 1) \<le> sz"
  shows "record_at (take sz bytes) i = record_at bytes i"
proof -
  have "34 \<le> sz - i * 34" using assms by (simp add: algebra_simps)
  then show ?thesis by (simp add: record_at_def drop_take min_absorb1)
qed

lemma scan_take:
  "34 * (i + k) \<le> sz \<Longrightarrow> scan_offset (take sz bytes) i k = scan_offset bytes i k"
  by (induction k arbitrary: i) (simp_all add: record_at_take)

lemma replay_take:
  "34 * (i + k) \<le> sz \<Longrightarrow> replay (take sz bytes) i k book n = replay bytes i k book n"
  by (induction k arbitrary: i book n) (simp_all add: record_at_take Let_def)

lemma scan_bound: "scan_offset bytes i k \<le> 34 * (i + k)"
proof (induction k arbitrary: i)
  case (Suc k)
  then show ?case using Suc.IH [of "Suc i"] by simp
qed simp

lemma take_store:
  assumes "off + length m \<le> sz" and "sz \<le> length bytes"
  shows "take sz (store_at bytes off m) = store_at (take sz bytes) off m"
  using assms by (simp add: store_at_def take_drop min_absorb1)

lemma take_grow:
  assumes "\<And>i. length bytes \<le> i \<Longrightarrow> fill i = 0"
  shows "take n (grow n fill bytes) = resize n bytes"
proof -
  have "map fill [length bytes ..< n] = replicate (n - length bytes) 0"
    using assms by (intro replicate_eqI) auto
  then show ?thesis by (simp add: grow_def resize_def)
qed

lemma grow_prefix: "take (length bytes) (grow n fill bytes) = bytes"
  by (simp add: grow_def)

lemma drop_store:
  assumes "off + length m \<le> sz" and "sz \<le> length bytes"
  shows "drop sz (store_at bytes off m) = drop sz bytes"
proof -
  have "drop sz (store_at bytes off m) = drop (sz - off - length m) (drop (off + length m) bytes)"
    using assms by (simp add: store_at_def min_absorb2)
  then show ?thesis using assms by simp
qed

definition good_win :: "win_env \<Rightarrow> bool" where
  "good_win env \<longleftrightarrow> env_CreateFile env \<noteq> INVALID_HANDLE_VALUE
     \<and> env_CreateFileMapping env \<noteq> NULL_HANDLE \<and> env_MapViewOfFile env"

lemma win_open_good:
  assumes "good_win env"
  shows "\<exists>w' os'. win_open env w os path sz = (w', os', True)
    \<and> os_files os' = (os_files os)(path \<mapsto> grow sz (env_fill env) (file_of (os_files os) path))
    \<and> wal_mapped (ww_wal w') \<and> wal_filepath (ww_wal w') = path \<and> wal_maxSizeBytes (ww_wal w') = sz
    \<and> wal_writeOffsetBytes (ww_wal w') =
        scan_offset (grow sz (env_fill env) (file_of (os_files os) path)) 0 (sz div 34)"
proof -
  obtain w1 os1 where c: "win_close w os = (w1, os1)" "os_files os1 = os_files os"
    by (cases "wal_mapped (ww_wal w)")
      (simp_all add: win_close_def win_flushAsync_def CloseHandle_def Let_def)
  then show ?thesis using assms by (simp add: win_open_def good_win_def Let_def file_of_def)
qed

lemma same_view_open:
  assumes "good_win env" and "good_env env'" and "os_files os = fs"
    and "\<And>i. length (file_of fs path) \<le> i \<Longrightarrow> env_fill env i = 0"
  shows "case win_open env w os path sz of (w1, os1, ok1) \<Rightarrow>
    case wal_open env' p fs path sz of (p1, fs1, ok2) \<Rightarrow>
      ok1 \<and> ok2 \<and> same_view sz path w1 os1 p1 fs1
      \<and> drop sz (file_of (os_files os1) path) = drop sz (file_of fs path)"
proof -
  let ?g = "grow sz (env_fill env) (file_of fs path)"
  have t: "take sz ?g = resize sz (file_of fs path)" by (rule take_grow [OF assms(4)])
  have n: "34 * (sz div 34) \<le> sz" by simp
  have scan: "scan_offset (resize sz (file_of fs path)) 0 (sz div 34) = scan_offset ?g 0 (sz div 34)"
    using scan_take [of 0 "sz div 34" sz ?g] n by (simp add: t)
  have bound: "scan_offset ?g 0 (sz div 34) \<le> sz"
    using scan_bound [of ?g 0 "sz div 34"] n by simp
  have "drop sz ?g = drop sz (file_of fs path)" by (simp add: grow_def)
  moreover have "length (resize sz (file_of fs path)) = sz" by (simp add: resize_def)
  ultimately show ?thesis
    using win_open_good [OF assms(1), of w os path sz] open_good [OF assms(2), of p fs path sz]
      scan bound t assms(3)
    by (auto simp: same_view_def file_of_def)
qed

lemma same_view_append:
  assumes "same_view sz path w os p fs" and "length m = 34"
  shows "case win_append w os m of (w1, os1, ok1) \<Rightarrow> case wal_append p fs m of (p1, fs1, ok2) \<Rightarrow>
      ok1 = ok2 \<and> same_view sz path w1 os1 p1 fs1
      \<and> drop sz (file_of (os_files os1) path) = drop sz (file_of (os_files os) path)"
proof (cases "wal_writeOffsetBytes p + 34 \<le> sz")
  case True
  let ?off = "wal_writeOffsetBytes p" and ?f = "file_of (os_files os) path"
  have len: "sz \<le> length ?f" "take sz ?f = file_of fs path" "length (file_of fs path) = sz"
    using assms(1) by (auto simp: same_view_def dest: arg_cong [where f = length])
  have st: "take sz (store_at ?f ?off m) = store_at (file_of fs path) ?off m"
    "drop sz (store_at ?f ?off m) = drop sz ?f"
    using take_store [of ?off m sz ?f] drop_store [of ?off m sz ?f] len True assms(2) by simp_all
  have "length (store_at (file_of fs path) ?off m) = sz"
    using len True assms(2) by (simp add: store_at_def)
  then show ?thesis
    using assms(1) True st by (auto simp: same_view_def win_append_def wal_append_def file_of_def)
next
  case False
  then show ?thesis using assms(1) by (auto simp: same_view_def win_append_def wal_append_def)
qed

lemma same_view_recover:
  assumes "same_view sz path w os p fs"
  shows "win_recover w os book = wal_recover p fs book"
proof -
  have "34 * (0 + wal_writeOffsetBytes p div 34) \<le> sz"
    using assms le_trans [OF div_times_less_eq_dividend [of "wal_writeOffsetBytes p" 34]]
    by (simp add: same_view_def mult.commute)
  from replay_take [OF this, of "file_of (os_files os) path" book 0] assms
  show ?thesis by (simp add: same_view_def win_recover_def wal_recover_def wal_recordCount_def)
qed

fun win_append_all :: "WinJournal \<Rightarrow> win_os \<Rightarrow> WireMessage list \<Rightarrow> WinJournal \<times> win_os \<times> nat" where
  "win_append_all w os [] = (w, os, 0)"
| "win_append_all w os (m # ms) =
     (case win_append w os m of (w, os, ok) \<Rightarrow> case win_append_all w os ms of (w, os, n) \<Rightarrow>
        (w, os, (if ok then Suc n else n)))"

lemma same_view_append_all:
  assumes "same_view sz path w os p fs" and "list_all wire_ok ms"
  shows "case win_append_all w os ms of (w1, os1, n1) \<Rightarrow> case wal_append_all p fs ms of (p1, fs1, n2) \<Rightarrow>
      n1 = n2 \<and> same_view sz path w1 os1 p1 fs1
      \<and> drop sz (file_of (os_files os1) path) = drop sz (file_of (os_files os) path)"
  using assms
proof (induction ms arbitrary: w os p fs)
  case (Cons m ms)
  obtain w1 os1 ok1 where a: "win_append w os m = (w1, os1, ok1)" by (metis prod.exhaust)
  obtain p1 fs1 ok2 where b: "wal_append p fs m = (p1, fs1, ok2)" by (metis prod.exhaust)
  have "length m = 34" using Cons.prems(2) by (simp add: wire_ok_def)
  from same_view_append [OF Cons.prems(1) this] Cons.IH [of w1 os1 p1 fs1] Cons.prems(2)
  show ?case by (auto simp: a b split: prod.splits)
qed simp

section \<open>The contract of a journal\<close>

text \<open>The file may go on behind the mapping.\<close>

definition win_good :: "win_env \<Rightarrow> bool" where
  "win_good env \<longleftrightarrow> good_win env \<and> (\<forall>i. env_fill env i = 0)"

definition win_on_disk :: "win_os \<Rightarrow> string \<Rightarrow> nat \<Rightarrow> WireMessage list \<Rightarrow> bool" where
  "win_on_disk os path sz ms \<longleftrightarrow> list_all loggable ms
     \<and> (os_files os path = None \<and> ms = [] \<or> (\<exists>behind. os_files os path = Some (journal_file sz ms @ behind)))"

definition win_holds :: "WinJournal \<Rightarrow> win_os \<Rightarrow> string \<Rightarrow> nat \<Rightarrow> WireMessage list \<Rightarrow> bool" where
  "win_holds w os path sz ms \<longleftrightarrow> wal_mapped (ww_wal w) \<and> wal_filepath (ww_wal w) = path
     \<and> wal_maxSizeBytes (ww_wal w) = sz \<and> wal_writeOffsetBytes (ww_wal w) = 34 * length ms
     \<and> 34 * length ms \<le> sz \<and> list_all loggable ms
     \<and> (\<exists>behind. os_files os path = Some (journal_file sz ms @ behind))"

lemma grow_journal:
  assumes "win_on_disk os path sz ms" and "34 * length ms \<le> sz" and "\<forall>i. fill i = 0"
  shows "\<exists>behind. grow sz fill (file_of (os_files os) path) = journal_file sz ms @ behind"
proof (cases "os_files os path")
  case None
  then have "grow sz fill (file_of (os_files os) path) = journal_file sz ms"
    using assms(1,3) by (auto simp: win_on_disk_def grow_def file_of_def journal_file_def intro!: replicate_eqI)
  then show ?thesis by simp
next
  case (Some bytes)
  then obtain behind where "bytes = journal_file sz ms @ behind" using assms(1) by (auto simp: win_on_disk_def)
  moreover have "length (journal_file sz ms) = sz"
    using assms(1,2) by (intro length_journal_file) (simp_all add: win_on_disk_def)
  ultimately show ?thesis using Some by (simp add: grow_def file_of_def)
qed

lemma scan_journal_behind:
  assumes "list_all loggable ms" and "34 * (length ms + 1) \<le> sz"
  shows "scan_offset (journal_file sz ms @ behind) 0 (sz div 34) = 34 * length ms"
proof -
  have "take sz (journal_file sz ms @ behind) = journal_file sz ms"
    using length_journal_file [OF assms(1), of sz] assms(2) by simp
  moreover have "34 * (0 + sz div 34) \<le> sz" by simp
  ultimately show ?thesis using scan_take scan_room [OF assms] by metis
qed

lemma win_open_law:
  assumes "win_good e" and "win_on_disk os path sz ms" and "34 * (length ms + 1) \<le> sz"
    and "win_open e w os path sz = (w', os', ok)"
  shows "ok \<and> win_holds w' os' path sz ms"
proof -
  have ms: "list_all loggable ms" using assms(2) by (simp add: win_on_disk_def)
  obtain behind where bytes: "grow sz (env_fill e) (file_of (os_files os) path) = journal_file sz ms @ behind"
    using grow_journal [OF assms(2), of "env_fill e"] assms(1,3) by (auto simp: win_good_def)
  have "good_win e" using assms(1) by (simp add: win_good_def)
  from win_open_good [OF this, of w os path sz] assms(3,4) scan_journal_behind [OF ms assms(3)] ms
  show ?thesis unfolding bytes by (auto simp: win_holds_def)
qed

lemma win_append_law:
  assumes "win_holds w os path sz ms" and "loggable m" and "win_append w os m = (w', os', ok)"
  shows "ok = (34 * (length ms + 1) \<le> sz) \<and> win_holds w' os' path sz (if ok then ms @ [m] else ms)"
proof (cases "34 * (length ms + 1) \<le> sz")
  case True
  obtain behind where bytes: "os_files os path = Some (journal_file sz ms @ behind)"
    using assms(1) by (auto simp: win_holds_def)
  have ms: "list_all loggable ms" "length m = 34" "length (journal_file sz ms) = sz"
    using assms(1) loggable_length [OF assms(2)] length_journal_file [of ms sz] by (auto simp: win_holds_def)
  have "store_at (journal_file sz ms @ behind) (34 * length ms) m = store_at (journal_file sz ms) (34 * length ms) m @ behind"
    using True ms(2,3) by (simp add: store_at_def)
  then have "store_at (journal_file sz ms @ behind) (34 * length ms) m = journal_file sz (ms @ [m]) @ behind"
    using store_at_log [OF ms(1) True ms(2)] by simp
  then show ?thesis
    using assms True bytes by (auto simp: win_append_def wal_append_def win_holds_def file_of_def)
next
  case False
  then show ?thesis using assms by (auto simp: win_append_def wal_append_def win_holds_def)
qed

lemma win_recover_law:
  assumes "win_holds w os path sz ms"
  shows "win_recover w os book = (processAll book (filter known ms), length (filter known ms))"
proof -
  obtain behind where bytes: "os_files os path = Some (journal_file sz ms @ behind)" and ms: "list_all loggable ms"
    using assms by (auto simp: win_holds_def)
  have "replay (journal_file sz ms @ behind) 0 (length ms) book 0
      = (processAll book (filter known ms), length (filter known ms))"
    using replay_log [OF ms, of 0 "replicate (sz - 34 * length ms) 0 @ behind" book 0] by (simp add: journal_file_def)
  then show ?thesis
    using assms bytes by (simp add: win_recover_def wal_recover_def wal_recordCount_def win_holds_def file_of_def)
qed

interpretation windows: journal_medium win_open win_append win_recover win_good win_on_disk win_holds
proof
  show "win_on_disk os path sz ms" if "win_holds w os path sz ms" for w os path sz ms
    using that by (auto simp: win_holds_def win_on_disk_def)
qed (blast intro: win_open_law win_append_law win_recover_law dest: win_open_law win_append_law)+

section \<open>Properties\<close>


definition ex_win :: win_env where
  "ex_win = \<lparr>env_CreateFile = 4, env_CreateFileMapping = 8, env_MapViewOfFile = True, env_fill = (\<lambda>_. 0)\<rparr>"

definition ex_os :: win_os where
  "ex_os = \<lparr>os_files = [''a'' \<mapsto> journal_file 200 ex_log], os_handles = {}\<rparr>"




text \<open>No handle is lost. Whatever the system calls of an \<open>open\<close> answer, the process then holds exactly the
  journal's two handles when it succeeded and none of them when it failed; an earlier mapping of the
  same object is released first.\<close>

theorem win_open_handles:
  assumes "win_inv H w os" and "fresh_handles H env"
  shows "case win_open env w os path sz of (w', os', ok) \<Rightarrow>
     os_handles os' = (if ok then {ww_hFile w', ww_hMapping w'} \<union> H else H)
     \<and> ok = (env_CreateFile env \<noteq> INVALID_HANDLE_VALUE
         \<and> env_CreateFileMapping env \<noteq> NULL_HANDLE \<and> env_MapViewOfFile env)"
proof -
  obtain w1 os1 where c: "win_close w os = (w1, os1)" by (metis prod.exhaust)
  have i: "win_inv H w1 os1" "\<not> wal_mapped (ww_wal w1)" using win_inv_close [OF assms(1)] c by auto
  show ?thesis
    using i assms(2) unfolding win_open_def c
    by (auto simp: win_inv_def fresh_handles_def CloseHandle_def Let_def)
qed

theorem win_open_handles_witness:
  "case win_open ex_win WinJournal_new ex_os ''a'' 102 of (w', os', ok) \<Rightarrow> os_handles os' = {4, 8}"
proof -
  have "win_inv {} WinJournal_new ex_os" "fresh_handles {} ex_win"
    by (auto simp: ex_os_def ex_win_def fresh_handles_def intro: inv_intros)
  from win_open_handles [OF this, of "''a''" 102] show ?thesis
    by (auto simp: win_open_def ex_win_def INVALID_HANDLE_VALUE_def NULL_HANDLE_def win_close_def
        WinJournal_new_def WALJournal_new_def Let_def split: if_splits)
qed

section \<open>Behaviour outside the specification\<close>

text \<open>The bytes of an extended file are not guaranteed to be zero. When the first \<open>k\<close> records of a new file
  happen to have a nonzero type, \<open>open\<close> takes them for messages: the fresh journal counts \<open>k\<close> records that
  were never appended.\<close>

lemma win_fresh_counts_garbage:
  assumes "good_win env" and "os_files os path = None" and "34 * (k + 1) \<le> sz"
    and "\<And>i. i < k \<Longrightarrow> env_fill env (34 * i) \<noteq> 0" and "env_fill env (34 * k) = 0"
  shows "case win_open env w os path sz of (w', os', ok) \<Rightarrow> wal_recordCount (ww_wal w') = k"
proof -
  let ?g = "grow sz (env_fill env) []"
  have ty: "msgType (record_at ?g i) = env_fill env (34 * i)" if "34 * (i + 1) \<le> sz" for i
  proof -
    have "i * 34 < sz" using that by simp
    then show ?thesis by (simp add: record_at_def grow_def msgType_def mult.commute)
  qed
  have "scan_offset ?g (k - d) (d + Suc j) = 34 * k" if "d \<le> k" for d j
    using that
  proof (induction d)
    case 0
    then show ?case using ty [OF assms(3)] assms(5) by simp
  next
    case (Suc d)
    then have lt: "k - Suc d < k" and s: "Suc (k - Suc d) = k - d" by simp_all
    then have "34 * (k - Suc d + 1) \<le> sz" using assms(3) by simp
    from ty [OF this] assms(4) [OF lt] Suc s show ?case by simp
  qed
  from this [of k] have scan: "scan_offset ?g 0 (k + Suc j) = 34 * k" for j by simp
  have "Suc k \<le> sz div 34" using assms(3) by (simp add: less_eq_div_iff_mult_less_eq)
  then obtain j where "sz div 34 = k + Suc j" by (metis add_Suc_right add_Suc_shift le_Suc_ex)
  with scan [of j] win_open_good [OF assms(1), of w os path sz] assms(2)
  show ?thesis by (auto simp: file_of_def wal_recordCount_def)
qed

end
