(* ===== verification/WalCrash.thy ===== *)
theory WalCrash
  imports Wal "HOL-Library.Sublist"
begin

text \<open>
  Crashes in the middle of \<open>append\<close> (\<open>include/feed_handler/wal_journal.hpp\<close>). The record is copied by one
  \<open>memcpy\<close>, without a checksum or a commit mark; a process that dies in it leaves any subset of the 34
  bytes written. Sessions of opening, appending and dying follow each other on one file; what a later
  \<open>open\<close> and \<open>recover\<close> find is compared with what the sessions appended.
\<close>

section \<open>A torn append\<close>

text \<open>\<open>memcpy\<close> interrupted: byte \<open>i\<close> of the record has been written when \<open>written i\<close>.\<close>

definition torn_store :: "(nat \<Rightarrow> bool) \<Rightarrow> byte list \<Rightarrow> nat \<Rightarrow> WireMessage \<Rightarrow> byte list" where
  "torn_store written bytes off msg =
     map (\<lambda>i. if off \<le> i \<and> i < off + length msg \<and> written (i - off) then msg ! (i - off) else bytes ! i)
       [0..<length bytes]"

text \<open>The files a process leaves that dies in \<open>append\<close>; a process whose journal is full does not get there.\<close>

definition wal_append_torn :: "WALJournal \<Rightarrow> files \<Rightarrow> WireMessage \<Rightarrow> (nat \<Rightarrow> bool) \<Rightarrow> files" where
  "wal_append_torn w fs msg written =
     (if \<not> wal_mapped w \<or> wal_writeOffsetBytes w + sizeof_WireMessage > wal_maxSizeBytes w then fs
      else fs(wal_filepath w \<mapsto> torn_store written (file_of fs (wal_filepath w)) (wal_writeOffsetBytes w) msg))"

text \<open>A session: the answers of the system calls, the messages appended, and the append it died in, if
  it did not end between two appends. No journal object survives a session.\<close>

record session =
  ss_env :: open_env
  ss_done :: "WireMessage list"
  ss_torn :: "(WireMessage \<times> (nat \<Rightarrow> bool)) option"

definition run_session :: "string \<Rightarrow> nat \<Rightarrow> files \<Rightarrow> session \<Rightarrow> files" where
  "run_session path sz fs ss =
     (case wal_open (ss_env ss) WALJournal_new fs path sz of (w, fs, opened) \<Rightarrow>
      case wal_append_all w fs (ss_done ss) of (w, fs, n) \<Rightarrow>
        (case ss_torn ss of None \<Rightarrow> fs | Some (m, written) \<Rightarrow> wal_append_torn w fs m written))"

text \<open>The records a session can leave: those it completed, and for a torn append whose type byte was
  written one record with every written byte in place (the others are what the slot held before).\<close>

definition torn_record :: "WireMessage \<Rightarrow> (nat \<Rightarrow> bool) \<Rightarrow> WireMessage \<Rightarrow> bool" where
  "torn_record m written r \<longleftrightarrow> length r = 34 \<and> msgType r = msgType m \<and> (\<forall>i < 34. written i \<longrightarrow> r ! i = m ! i)"

fun leaves :: "session list \<Rightarrow> WireMessage list \<Rightarrow> bool" where
  "leaves [] rs \<longleftrightarrow> rs = []"
| "leaves (ss # sss) rs \<longleftrightarrow>
     (case ss_torn ss of
        Some (m, written) \<Rightarrow>
          if written 0 then \<exists>r rest. rs = ss_done ss @ r # rest \<and> torn_record m written r \<and> leaves sss rest
          else \<exists>rest. rs = ss_done ss @ rest \<and> leaves sss rest
      | None \<Rightarrow> \<exists>rest. rs = ss_done ss @ rest \<and> leaves sss rest)"

definition session_ok :: "session \<Rightarrow> bool" where
  "session_ok ss \<longleftrightarrow> good_env (ss_env ss) \<and> list_all loggable (ss_done ss)
     \<and> (\<forall>m written. ss_torn ss = Some (m, written) \<longrightarrow> loggable m)"

definition session_records :: "session \<Rightarrow> nat" where
  "session_records ss = length (ss_done ss) + (if ss_torn ss = None then 0 else 1)"

section \<open>The file between sessions\<close>

text \<open>The records, then one slot that may hold leftovers but no type byte, then zero bytes.\<close>

definition slot_file :: "nat \<Rightarrow> WireMessage list \<Rightarrow> byte list \<Rightarrow> byte list" where
  "slot_file sz rs slot = concat rs @ slot @ replicate (sz - 34 * (length rs + 1)) 0"

definition slot_ok :: "byte list \<Rightarrow> bool" where
  "slot_ok slot \<longleftrightarrow> length slot = 34 \<and> slot ! 0 = 0"

definition file_state :: "files \<Rightarrow> string \<Rightarrow> nat \<Rightarrow> WireMessage list \<Rightarrow> bool" where
  "file_state fs path sz rs \<longleftrightarrow> list_all loggable rs \<and> 34 * (length rs + 1) \<le> sz
     \<and> (fs path = None \<and> rs = [] \<or> (\<exists>slot. slot_ok slot \<and> fs path = Some (slot_file sz rs slot)))"

text \<open>A journal object opened on such a file.\<close>

definition slot_open :: "WALJournal \<Rightarrow> files \<Rightarrow> string \<Rightarrow> nat \<Rightarrow> WireMessage list \<Rightarrow> bool" where
  "slot_open w fs path sz rs \<longleftrightarrow> wal_mapped w \<and> wal_filepath w = path \<and> wal_maxSizeBytes w = sz
     \<and> wal_writeOffsetBytes w = 34 * length rs \<and> list_all loggable rs \<and> 34 * (length rs + 1) \<le> sz
     \<and> (\<exists>slot. slot_ok slot \<and> fs path = Some (slot_file sz rs slot))"

lemma slot_open_state: "slot_open w fs path sz rs \<Longrightarrow> file_state fs path sz rs"
  by (auto simp: slot_open_def file_state_def)

lemma length_slot_file:
  "list_all loggable rs \<Longrightarrow> 34 * (length rs + 1) \<le> sz \<Longrightarrow> length slot = 34 \<Longrightarrow> length (slot_file sz rs slot) = sz"
  by (simp add: slot_file_def length_concat_log)

lemma scan_first_free:
  assumes "list_all loggable rs" and "msgType (record_at (concat rs @ rest) (length rs)) = 0"
  shows "i \<le> length rs \<Longrightarrow> scan_offset (concat rs @ rest) i (length rs - i + Suc k) = 34 * length rs"
proof (induction "length rs - i" arbitrary: i)
  case (Suc d)
  then have i: "i < length rs" by simp
  then have "msgType (record_at (concat rs @ rest) i) \<noteq> 0"
    using record_at_log [OF assms(1) i] assms(1) by (simp add: list_all_length loggable_def)
  moreover have "length rs - i + Suc k = Suc (length rs - Suc i + Suc k)" using i by simp
  ultimately show ?case using Suc.hyps(1) [of "Suc i"] Suc.hyps(2) i by simp
qed (use assms(2) in simp)

lemma scan_slot:
  assumes "list_all loggable rs" and "34 * (length rs + 1) \<le> sz" and "slot_ok slot"
  shows "scan_offset (slot_file sz rs slot) 0 (sz div 34) = 34 * length rs"
proof -
  have "Suc (length rs) \<le> sz div 34" using assms(2) by (simp add: less_eq_div_iff_mult_less_eq)
  then obtain k where k: "sz div 34 = length rs - 0 + Suc k" by (auto dest!: le_Suc_ex)
  have free: "msgType (record_at (slot_file sz rs slot) (length rs)) = 0"
    using assms(1,3) length_concat_log [OF assms(1)]
    by (simp add: record_at_def slot_file_def slot_ok_def msgType_def nth_append mult.commute)
  show ?thesis unfolding k
    using scan_first_free [OF assms(1) free [unfolded slot_file_def], of 0 k] by (simp add: slot_file_def)
qed

lemma open_slot:
  assumes "good_env env" and "file_state fs path sz rs"
  shows "case wal_open env w fs path sz of (w', fs', ok) \<Rightarrow> ok \<and> slot_open w' fs' path sz rs"
proof -
  have rs: "list_all loggable rs" "34 * (length rs + 1) \<le> sz" using assms(2) by (simp_all add: file_state_def)
  obtain slot where slot: "slot_ok slot" "resize sz (file_of fs path) = slot_file sz rs slot"
  proof (cases "fs path")
    case None
    then have "rs = []" using assms(2) by (simp add: file_state_def)
    moreover have "replicate sz 0 = replicate 34 0 @ replicate (sz - 34) (0 :: byte)"
      using rs(2) by (simp flip: replicate_add)
    ultimately show ?thesis using None that [of "replicate 34 0"]
      by (simp add: resize_def file_of_def slot_file_def slot_ok_def del: replicate.simps)
  next
    case (Some bytes)
    then obtain slot where "slot_ok slot" "bytes = slot_file sz rs slot" using assms(2) by (auto simp: file_state_def)
    then show ?thesis using that [of slot] Some length_slot_file [OF rs, of slot]
      by (simp add: resize_def file_of_def slot_ok_def)
  qed
  then show ?thesis
    using open_good [OF assms(1), of w fs path sz] scan_slot [OF rs slot(1)] rs slot(1)
    by (auto simp: slot_open_def)
qed

lemma append_slot:
  assumes "slot_open w fs path sz rs" and "loggable m" and "34 * (length rs + 2) \<le> sz"
  shows "case wal_append w fs m of (w', fs', ok) \<Rightarrow> ok \<and> slot_open w' fs' path sz (rs @ [m])"
proof -
  obtain slot where slot: "slot_ok slot" "fs path = Some (slot_file sz rs slot)"
    using assms(1) by (auto simp: slot_open_def)
  have len: "length m = 34" "length (concat rs) = 34 * length rs" "length slot = 34"
    using assms(1) slot(1) loggable_length [OF assms(2)] length_concat_log
    by (auto simp: slot_open_def slot_ok_def)
  have "sz - 34 * (length rs + 1) = 34 + (sz - 34 * (length (rs @ [m]) + 1))" using assms(3) by simp
  then have "store_at (slot_file sz rs slot) (34 * length rs) m = slot_file sz (rs @ [m]) (replicate 34 0)"
    using len unfolding store_at_def slot_file_def by (simp only: replicate_add) simp
  then show ?thesis
    using assms slot(2)
    by (auto simp: slot_open_def wal_append_def file_of_def slot_ok_def intro!: exI [of _ "replicate 34 0"])
qed

lemma append_all_slot:
  assumes "slot_open w fs path sz rs" and "list_all loggable ms" and "34 * (length rs + length ms + 1) \<le> sz"
  shows "case wal_append_all w fs ms of (w', fs', n) \<Rightarrow> n = length ms \<and> slot_open w' fs' path sz (rs @ ms)"
  using assms
proof (induction ms arbitrary: w fs rs)
  case (Cons m ms)
  obtain w1 fs1 ok where ap: "wal_append w fs m = (w1, fs1, ok)" by (metis prod.exhaust)
  have "ok" "slot_open w1 fs1 path sz (rs @ [m])"
    using append_slot [OF Cons.prems(1), of m] ap Cons.prems(2,3) by auto
  then show ?case using Cons.IH [of w1 fs1 "rs @ [m]"] Cons.prems(2,3) ap by (auto split: prod.splits)
qed simp

section \<open>Each session\<close>

definition mixed :: "(nat \<Rightarrow> bool) \<Rightarrow> WireMessage \<Rightarrow> byte list \<Rightarrow> byte list" where
  "mixed written m slot = map (\<lambda>i. if written i then m ! i else slot ! i) [0..<34]"

lemma torn_slot:
  assumes "list_all loggable rs" and "34 * (length rs + 1) \<le> sz" and "length slot = 34" and "length m = 34"
  shows "torn_store written (slot_file sz rs slot) (34 * length rs) m = slot_file sz rs (mixed written m slot)"
proof (rule nth_equalityI)
  have mix: "length (mixed written m slot) = 34" by (simp add: mixed_def)
  note len = length_slot_file [OF assms(1,2,3)] length_slot_file [OF assms(1,2) mix] length_concat_log [OF assms(1)]
  show "length (torn_store written (slot_file sz rs slot) (34 * length rs) m) = length (slot_file sz rs (mixed written m slot))"
    using len by (simp add: torn_store_def)
  fix i assume "i < length (torn_store written (slot_file sz rs slot) (34 * length rs) m)"
  then show "torn_store written (slot_file sz rs slot) (34 * length rs) m ! i = slot_file sz rs (mixed written m slot) ! i"
    using len mix assms(2-4) by (auto simp: torn_store_def slot_file_def nth_append mixed_def)
qed

lemma torn_state:
  assumes "slot_open w fs path sz rs" and "loggable m" and "34 * (length rs + 2) \<le> sz"
  shows "\<exists>new. file_state (wal_append_torn w fs m written) path sz (rs @ new)
    \<and> (if written 0 then \<exists>r. new = [r] \<and> torn_record m written r else new = [])"
proof -
  obtain slot where slot: "slot_ok slot" "fs path = Some (slot_file sz rs slot)"
    and rs: "list_all loggable rs" "34 * (length rs + 1) \<le> sz"
    using assms(1) by (auto simp: slot_open_def)
  let ?r = "mixed written m slot"
  have m: "length m = 34" "m ! 0 \<noteq> 0" using assms(2) loggable_length by (auto simp: loggable_def msgType_def)
  have r: "length ?r = 34" "?r ! 0 = (if written 0 then m ! 0 else 0)"
    "\<forall>i < 34. written i \<longrightarrow> ?r ! i = m ! i" using slot(1) by (simp_all add: mixed_def slot_ok_def)
  have "torn_store written (slot_file sz rs slot) (34 * length rs) m = slot_file sz rs ?r"
    using torn_slot [OF rs _ m(1)] slot(1) by (simp add: slot_ok_def)
  then have bytes: "wal_append_torn w fs m written path = Some (slot_file sz rs ?r)"
    using assms(1) slot(2) rs(2) by (simp add: wal_append_torn_def slot_open_def file_of_def)
  show ?thesis
  proof (cases "written 0")
    case True
    have "sz - 34 * (length rs + 1) = 34 + (sz - 34 * (length (rs @ [?r]) + 1))" using assms(3) by simp
    then have "slot_file sz rs ?r = slot_file sz (rs @ [?r]) (replicate 34 0)"
      unfolding slot_file_def by (simp only: replicate_add) simp
    moreover have "loggable ?r" using r m True by (simp add: loggable_def wire_ok_def msgType_def)
    ultimately have "file_state (wal_append_torn w fs m written) path sz (rs @ [?r])"
      using bytes rs(1) assms(3) by (auto simp: file_state_def slot_ok_def intro!: exI [of _ "replicate 34 0"])
    then show ?thesis using True r m by (auto simp: torn_record_def msgType_def)
  next
    case False
    then have "slot_ok ?r" using r by (simp add: slot_ok_def)
    then show ?thesis using False bytes rs by (auto simp: file_state_def)
  qed
qed

lemma session_state:
  assumes "file_state fs path sz rs" and "session_ok ss" and "34 * (length rs + session_records ss + 1) \<le> sz"
  shows "\<exists>new. file_state (run_session path sz fs ss) path sz (rs @ new) \<and> length new \<le> session_records ss
    \<and> (\<forall>sss rest. leaves sss rest \<longrightarrow> leaves (ss # sss) (new @ rest))"
proof -
  have ok: "good_env (ss_env ss)" "list_all loggable (ss_done ss)" using assms(2) by (simp_all add: session_ok_def)
  obtain w1 fs1 opened where 1: "wal_open (ss_env ss) WALJournal_new fs path sz = (w1, fs1, opened)"
    by (metis prod.exhaust)
  obtain w2 fs2 n where 2: "wal_append_all w1 fs1 (ss_done ss) = (w2, fs2, n)" by (metis prod.exhaust)
  have "slot_open w1 fs1 path sz rs" using open_slot [OF ok(1) assms(1), of WALJournal_new] 1 by simp
  from append_all_slot [OF this ok(2)] have open2: "slot_open w2 fs2 path sz (rs @ ss_done ss)"
    using 2 assms(3) by (simp add: session_records_def)
  show ?thesis
  proof (cases "ss_torn ss")
    case None
    then show ?thesis using 1 2 slot_open_state [OF open2]
      by (intro exI [of _ "ss_done ss"]) (auto simp: run_session_def session_records_def)
  next
    case (Some mw)
    obtain m written where mw: "mw = (m, written)" by (cases mw)
    have "loggable m" using assms(2) Some mw by (simp add: session_ok_def)
    from torn_state [OF open2 this, of written] obtain new where
      new: "file_state (wal_append_torn w2 fs2 m written) path sz ((rs @ ss_done ss) @ new)"
        "if written 0 then \<exists>r. new = [r] \<and> torn_record m written r else new = []"
      using assms(3) Some by (auto simp: session_records_def)
    have "run_session path sz fs ss = wal_append_torn w2 fs2 m written"
      using 1 2 Some mw by (simp add: run_session_def)
    then show ?thesis using new Some mw
      by (intro exI [of _ "ss_done ss @ new"]) (auto simp: session_records_def split: if_splits)
  qed
qed

lemma sessions_state:
  assumes "file_state fs path sz rs" and "list_all session_ok sss"
    and "34 * (length rs + sum_list (map session_records sss) + 1) \<le> sz"
  shows "\<exists>new. file_state (foldl (run_session path sz) fs sss) path sz (rs @ new) \<and> leaves sss new"
  using assms
proof (induction sss arbitrary: fs rs)
  case (Cons ss sss)
  obtain new where new: "file_state (run_session path sz fs ss) path sz (rs @ new)" "length new \<le> session_records ss"
    "\<And>rest. leaves sss rest \<Longrightarrow> leaves (ss # sss) (new @ rest)"
    using session_state [OF Cons.prems(1), of ss] Cons.prems(2,3) by auto
  have "34 * (length (rs @ new) + sum_list (map session_records sss) + 1) \<le> sz"
    using Cons.prems(3) new(2) by simp
  from Cons.IH [OF new(1) _ this] Cons.prems(2) new(3) show ?case by fastforce
qed auto

lemma leaves_completed:
  "leaves sss rs \<Longrightarrow> subseq (concat (map ss_done sss)) rs
     \<and> length rs \<le> sum_list (map session_records sss)"
proof (induction sss arbitrary: rs)
  case (Cons ss sss)
  show ?case
  proof (cases "ss_torn ss")
    case None
    then obtain rest where rest: "rs = ss_done ss @ rest" "leaves sss rest" using Cons.prems by auto
    show ?thesis using Cons.IH [OF rest(2)] rest(1) None by (simp add: session_records_def subseq_append')
  next
    case (Some mw)
    obtain m written where mw: "mw = (m, written)" by (cases mw)
    obtain new rest where rest: "rs = ss_done ss @ new @ rest" "leaves sss rest" "length new \<le> 1"
    proof (cases "written 0")
      case True
      then obtain r rest where "rs = ss_done ss @ r # rest" "leaves sss rest"
        using Cons.prems Some mw by auto
      then show ?thesis using that [of "[r]" rest] by simp
    next
      case False
      then show ?thesis using Cons.prems Some mw that [of "[]"] by auto
    qed
    show ?thesis using Cons.IH [OF rest(2)] rest(1,3) Some
      by (simp add: session_records_def subseq_append' list_emb_append2)
  qed
qed simp

lemma recover_slot:
  assumes "slot_open w fs path sz rs"
  shows "wal_recordCount w = length rs"
    and "wal_recover w fs book = (processAll book (filter known rs), length (filter known rs))"
proof -
  show n: "wal_recordCount w = length rs" using assms by (simp add: slot_open_def wal_recordCount_def)
  obtain slot where "fs path = Some (slot_file sz rs slot)" and rs: "list_all loggable rs"
    and w: "wal_mapped w" "wal_filepath w = path" using assms by (auto simp: slot_open_def)
  then show "wal_recover w fs book = (processAll book (filter known rs), length (filter known rs))"
    using replay_log [OF rs, of 0 _ book 0] n by (simp add: wal_recover_def file_of_def slot_file_def)
qed

section \<open>Properties\<close>


text \<open>One session completes an Add and dies while appending a Cancel of which only the first byte (the
  type) is written; the next appends the Cancel again.\<close>

definition ex_sessions :: "session list" where
  "ex_sessions = [\<lparr>ss_env = ex_env, ss_done = [ex_add 1 7 chB 100 5], ss_torn = Some (ex_cancel 2 7 0, \<lambda>i. i = 0)\<rparr>,
     \<lparr>ss_env = ex_env, ss_done = [ex_cancel 2 7 0], ss_torn = None\<rparr>]"

lemma ex_sessions_ok: "list_all session_ok ex_sessions" "sum_list (map session_records ex_sessions) = 3"
  using ex_log_loggable ex_env_good by (simp_all add: ex_sessions_def session_ok_def session_records_def ex_log_def)


section \<open>Behaviour outside the specification\<close>

text \<open>A torn record is replayed like any other. An Add of which only the type byte reached a fresh file
  comes back as an Add of order 0 with side, price and quantity 0, which \<open>isValid\<close> rejects.\<close>

lemma torn_add_replayed:
  "let r = mixed (\<lambda>i. i = 0) (ex_add 1 7 chB 100 5) (replicate 34 0) in
    known r \<and> \<not> isValid r \<and> add_orderId (wire_add r) = 0 \<and> add_quantity (wire_add r) = 0"
  by code_simp

end
