(* ===== verification/Pipeline.thy ===== *)
theory Pipeline
  imports RingBuffer BookConsistency
begin

text \<open>
  The threaded pipeline of \<open>src/main.cpp\<close> (\<open>runSPSCBenchmark\<close>): the main thread pushes a feed into the
  ring buffer, retrying each message until it is accepted, and then raises \<open>producerFinished\<close>; the
  consumer thread pops messages into the order book until it sees the flag and an empty ring. The
  ring steps are those of \<open>spsc_step\<close>. The loads of the exit test are relaxed in the code; whether
  they may return old values is a parameter of the step relation.
\<close>

section \<open>State and steps\<close>

text \<open>\<open>pp_pending\<close> is the local \<open>msg\<close> between a successful \<open>tryPop\<close> and \<open>processMessage\<close>.\<close>

record pipe =
  pp_spsc :: "WireMessage spsc"
  pp_finished :: bool
  pp_pending :: "WireMessage option"
  pp_book :: LimitOrderBook
  pp_exited :: bool

definition pipe_init :: "nat \<Rightarrow> LimitOrderBook \<Rightarrow> pipe" where
  "pipe_init Capacity book = \<lparr>pp_spsc = spsc_init Capacity WireMessage_zero, pp_finished = False,
     pp_pending = None, pp_book = book, pp_exited = False\<rparr>"

text \<open>The exit test \<open>producerFinished.load() && ringBuffer.empty()\<close>; \<open>v\<close> is the value \<open>empty()\<close> loads
  from \<open>head_\<close>, the newest one when \<open>fresh\<close>.\<close>

definition exit_seen :: "bool \<Rightarrow> pipe \<Rightarrow> u64 \<Rightarrow> bool" where
  "exit_seen fresh p v \<longleftrightarrow> pp_finished p
     \<and> may_load (rb_cachedHead (sp_ring (pp_spsc p))) (rb_head (sp_ring (pp_spsc p))) v
     \<and> (fresh \<longrightarrow> v = rb_head (sp_ring (pp_spsc p)))
     \<and> rb_tail (sp_ring (pp_spsc p)) = v"

inductive pipe_step :: "bool \<Rightarrow> WireMessage list \<Rightarrow> pipe \<Rightarrow> pipe \<Rightarrow> bool" for fresh feed where
  send: "sp_prod (pp_spsc p) = P_idle \<Longrightarrow> length (sp_pushed (pp_spsc p)) < length feed
    \<Longrightarrow> pipe_step fresh feed p
         (p\<lparr>pp_spsc := (pp_spsc p)\<lparr>sp_prod := P_check (feed ! length (sp_pushed (pp_spsc p)))\<rparr>\<rparr>)"
| produce: "sp_prod (pp_spsc p) \<noteq> P_idle \<Longrightarrow> spsc_step (pp_spsc p) s \<Longrightarrow> sp_cons s = sp_cons (pp_spsc p)
    \<Longrightarrow> pipe_step fresh feed p (p\<lparr>pp_spsc := s\<rparr>)"
| finish: "sp_prod (pp_spsc p) = P_idle \<Longrightarrow> length (sp_pushed (pp_spsc p)) = length feed
    \<Longrightarrow> pipe_step fresh feed p (p\<lparr>pp_finished := True\<rparr>)"
| receive: "\<not> pp_exited p \<Longrightarrow> pp_pending p = None \<Longrightarrow> sp_cons (pp_spsc p) = C_idle
    \<Longrightarrow> pipe_step fresh feed p (p\<lparr>pp_spsc := (pp_spsc p)\<lparr>sp_cons := C_check\<rparr>\<rparr>)"
| consume: "sp_cons (pp_spsc p) \<noteq> C_idle \<Longrightarrow> spsc_step (pp_spsc p) s \<Longrightarrow> sp_prod s = sp_prod (pp_spsc p)
    \<Longrightarrow> pipe_step fresh feed p (p\<lparr>pp_spsc := s,
          pp_pending := (case sp_cons (pp_spsc p) of C_release x \<Rightarrow> Some x | _ \<Rightarrow> pp_pending p)\<rparr>)"
| apply_msg: "pp_pending p = Some m
    \<Longrightarrow> pipe_step fresh feed p (p\<lparr>pp_pending := None, pp_book := processMessage (pp_book p) m\<rparr>)"
| exit: "\<not> pp_exited p \<Longrightarrow> pp_pending p = None \<Longrightarrow> sp_cons (pp_spsc p) = C_idle
    \<Longrightarrow> exit_seen fresh p v \<Longrightarrow> pipe_step fresh feed p (p\<lparr>pp_exited := True\<rparr>)"

inductive pipe_reachable :: "bool \<Rightarrow> nat \<Rightarrow> LimitOrderBook \<Rightarrow> WireMessage list \<Rightarrow> pipe \<Rightarrow> bool"
  for fresh Capacity book feed where
  init: "pipe_reachable fresh Capacity book feed (pipe_init Capacity book)"
| step: "pipe_reachable fresh Capacity book feed p \<Longrightarrow> pipe_step fresh feed p p'
    \<Longrightarrow> pipe_reachable fresh Capacity book feed p'"

section \<open>Invariant\<close>

text \<open>A message the producer is working on is the next one of the feed; the book has processed what
  was popped, except the pending message.\<close>

fun prod_msg :: "'a prod_pc \<Rightarrow> 'a option" where
  "prod_msg P_idle = None" | "prod_msg (P_check x) = Some x" | "prod_msg (P_write x) = Some x"
| "prod_msg (P_publish x) = Some x"

definition pipe_inv :: "bool \<Rightarrow> nat \<Rightarrow> LimitOrderBook \<Rightarrow> WireMessage list \<Rightarrow> pipe \<Rightarrow> bool" where
  "pipe_inv fresh Capacity book feed p \<longleftrightarrow>
     (let s = pp_spsc p; n = length (sp_pushed s) in
      spsc_inv Capacity s \<and> n \<le> length feed \<and> sp_pushed s = take n feed
      \<and> (case prod_msg (sp_prod s) of None \<Rightarrow> True | Some x \<Rightarrow> n < length feed \<and> x = feed ! n)
      \<and> (pp_finished p \<longrightarrow> n = length feed)
      \<and> (case pp_pending p of
            None \<Rightarrow> pp_book p = processAll book (sp_popped s)
          | Some m \<Rightarrow> sp_cons s = C_idle \<and> sp_popped s \<noteq> [] \<and> m = last (sp_popped s)
                \<and> pp_book p = processAll book (butlast (sp_popped s)))
      \<and> (pp_exited p \<longrightarrow> sp_cons s = C_idle \<and> pp_pending p = None
            \<and> (fresh \<longrightarrow> sp_popped s = feed)))"

text \<open>What the steps of each thread do to the histories.\<close>

lemma prod_step_effect:
  assumes "spsc_step s s'" and "sp_prod s \<noteq> P_idle" and "sp_cons s' = sp_cons s"
  shows "sp_popped s' = sp_popped s
    \<and> (sp_pushed s' = sp_pushed s \<and> (prod_msg (sp_prod s') = prod_msg (sp_prod s) \<or> sp_prod s' = P_idle)
       \<or> (\<exists>x. prod_msg (sp_prod s) = Some x \<and> sp_pushed s' = sp_pushed s @ [x] \<and> sp_prod s' = P_idle))"
  using assms by cases auto

lemma cons_step_effect:
  assumes "spsc_step s s'" and "sp_cons s \<noteq> C_idle" and "sp_prod s' = sp_prod s"
  shows "sp_pushed s' = sp_pushed s
    \<and> (case sp_cons s of C_release x \<Rightarrow> sp_popped s' = sp_popped s @ [x] \<and> sp_cons s' = C_idle
       | _ \<Rightarrow> sp_popped s' = sp_popped s)"
  using assms by cases auto

lemma processAll_snoc: "processAll b (ms @ [m]) = processMessage (processAll b ms) m"
  by (simp add: processAll_def)

lemma pipe_inv_init: "cap_ok Capacity \<Longrightarrow> pipe_inv fresh Capacity book feed (pipe_init Capacity book)"
  using spsc_inv_init [of Capacity WireMessage_zero]
  by (simp add: pipe_inv_def pipe_init_def Let_def) (simp add: spsc_init_def)

lemma inv_send:
  assumes "pipe_inv fr N b feed p" and "sp_prod (pp_spsc p) = P_idle"
    and "length (sp_pushed (pp_spsc p)) < length feed"
  shows "pipe_inv fr N b feed
    (p\<lparr>pp_spsc := (pp_spsc p)\<lparr>sp_prod := P_check (feed ! length (sp_pushed (pp_spsc p)))\<rparr>\<rparr>)"
  using assms spsc_inv_step [OF push_call [OF assms(2)]] by (simp add: pipe_inv_def Let_def cong: option.case_cong)

lemma inv_produce:
  assumes inv: "pipe_inv fr N b feed p" and step: "spsc_step (pp_spsc p) s"
    and pc: "sp_prod (pp_spsc p) \<noteq> P_idle" "sp_cons s = sp_cons (pp_spsc p)"
  shows "pipe_inv fr N b feed (p\<lparr>pp_spsc := s\<rparr>)"
proof -
  let ?s = "pp_spsc p" and ?n = "length (sp_pushed (pp_spsc p))"
  have inv': "spsc_inv N s" using inv spsc_inv_step [OF step] by (simp add: pipe_inv_def Let_def)
  obtain x where x: "prod_msg (sp_prod ?s) = Some x" using pc(1) by (cases "sp_prod ?s") auto
  then have n: "?n < length feed" "x = feed ! ?n" "sp_pushed ?s = take ?n feed"
    using inv by (simp_all add: pipe_inv_def Let_def)
  then have unfinished: "\<not> pp_finished p" using inv by (auto simp: pipe_inv_def Let_def)
  from prod_step_effect [OF step pc] consider
      (same) "sp_popped s = sp_popped ?s" "sp_pushed s = sp_pushed ?s" "prod_msg (sp_prod s) \<in> {None, Some x}"
    | (sent) "sp_popped s = sp_popped ?s" "sp_pushed s = sp_pushed ?s @ [x]" "prod_msg (sp_prod s) = None"
    using x by auto
  then show ?thesis
  proof cases
    case same
    then show ?thesis
      using inv inv' n pc(2) x
      by (auto simp: pipe_inv_def Let_def split: option.splits)
  next
    case sent
    have "sp_pushed ?s @ [x] = take (Suc ?n) feed" using n by (metis take_Suc_conv_app_nth)
    then show ?thesis
      using sent inv inv' n pc(2) unfinished
      by (auto simp: pipe_inv_def Let_def split: option.splits)
  qed
qed

lemma inv_receive:
  assumes "pipe_inv fr N b feed p" and "\<not> pp_exited p" "pp_pending p = None" "sp_cons (pp_spsc p) = C_idle"
  shows "pipe_inv fr N b feed (p\<lparr>pp_spsc := (pp_spsc p)\<lparr>sp_cons := C_check\<rparr>\<rparr>)"
  using assms spsc_inv_step [OF pop_call [OF assms(4)]]
  by (simp add: pipe_inv_def Let_def cong: option.case_cong)

lemma inv_consume:
  assumes inv: "pipe_inv fr N b feed p" and step: "spsc_step (pp_spsc p) s"
    and pc: "sp_cons (pp_spsc p) \<noteq> C_idle" "sp_prod s = sp_prod (pp_spsc p)"
  shows "pipe_inv fr N b feed (p\<lparr>pp_spsc := s,
    pp_pending := (case sp_cons (pp_spsc p) of C_release x \<Rightarrow> Some x | _ \<Rightarrow> pp_pending p)\<rparr>)"
proof -
  let ?s = "pp_spsc p"
  have inv': "spsc_inv N s" using inv spsc_inv_step [OF step] by (simp add: pipe_inv_def Let_def)
  have idle: "pp_pending p = None" "\<not> pp_exited p"
    using inv pc(1) by (auto simp: pipe_inv_def Let_def split: option.splits)
  note eff = cons_step_effect [OF step pc]
  show ?thesis
  proof (cases "sp_cons ?s")
    case (C_release x)
    then show ?thesis
      using eff inv inv' idle pc(2) by (simp add: pipe_inv_def Let_def cong: option.case_cong)
  qed (use eff inv inv' idle pc in \<open>simp_all add: pipe_inv_def Let_def cong: option.case_cong\<close>)
qed

lemma inv_apply:
  assumes "pipe_inv fr N b feed p" and "pp_pending p = Some m"
  shows "pipe_inv fr N b feed (p\<lparr>pp_pending := None, pp_book := processMessage (pp_book p) m\<rparr>)"
  using assms processAll_snoc [of b "butlast (sp_popped (pp_spsc p))" m]
  by (auto simp: pipe_inv_def Let_def)

lemma fresh_empty_complete:
  assumes "spsc_inv N s" and "rb_tail (sp_ring s) = rb_head (sp_ring s)"
  shows "sp_popped s = sp_pushed s"
proof -
  let ?m = "length (sp_popped s)" and ?n = "length (sp_pushed s)"
  obtain ct ch where "spsc_at N s ct ch" using assms(1) by (auto simp: spsc_inv_def)
  then have r: "ring_at (sp_ring s) ct ?m ch ?n" and pre: "sp_popped s = take ?m (sp_pushed s)"
    by (simp_all add: spsc_at_def Let_def)
  note d = ring_atD [OF r]
  have "unat (rb_head (sp_ring s) - rb_tail (sp_ring s)) = ?n - ?m"
    unfolding d(7,9) using d(2-5,10) by (intro unat_of_nat_diff) auto
  then have "?n \<le> ?m" using assms(2) by simp
  then show ?thesis using pre by simp
qed

lemma inv_exit:
  assumes inv: "pipe_inv fr N b feed p" and "pp_pending p = None" "sp_cons (pp_spsc p) = C_idle"
    and seen: "exit_seen fr p v"
  shows "pipe_inv fr N b feed (p\<lparr>pp_exited := True\<rparr>)"
proof -
  have "sp_popped (pp_spsc p) = feed" if fr
  proof -
    have "rb_tail (sp_ring (pp_spsc p)) = rb_head (sp_ring (pp_spsc p))" "pp_finished p"
      using seen that by (auto simp: exit_seen_def)
    moreover have "spsc_inv N (pp_spsc p)" "length (sp_pushed (pp_spsc p)) = length feed"
      "sp_pushed (pp_spsc p) = take (length (sp_pushed (pp_spsc p))) feed"
      using inv \<open>pp_finished p\<close> unfolding pipe_inv_def Let_def by blast+
    ultimately show ?thesis using fresh_empty_complete [of N "pp_spsc p"] by (metis take_all_iff order_refl)
  qed
  then show ?thesis using inv assms(2,3) by (simp add: pipe_inv_def Let_def)
qed

lemma pipe_inv_step [inv_intros]: "pipe_step fr feed p p' \<Longrightarrow> pipe_inv fr N b feed p \<Longrightarrow> pipe_inv fr N b feed p'"
proof (induction rule: pipe_step.induct)
  case (finish p)
  then show ?case by (simp add: pipe_inv_def Let_def cong: option.case_cong)
qed (blast intro: inv_send inv_produce inv_receive inv_consume inv_apply inv_exit)+

lemma pipe_inv_reachable: "pipe_reachable fr N b feed p \<Longrightarrow> cap_ok N \<Longrightarrow> pipe_inv fr N b feed p"
  by (induction rule: pipe_reachable.induct) (auto intro: pipe_inv_init pipe_inv_step)

section \<open>Whole calls as runs of the pipeline\<close>

lemma pipe_push_one:
  assumes "pipe_reachable fr N b feed p" and "sp_prod (pp_spsc p) = P_idle"
    and "length (sp_pushed (pp_spsc p)) < length feed" and "\<not> push_full (sp_ring (pp_spsc p))"
  defines "x \<equiv> feed ! length (sp_pushed (pp_spsc p))"
  shows "pipe_reachable fr N b feed (p\<lparr>pp_spsc := (pp_spsc p)
    \<lparr>sp_ring := push_publish (push_write (sp_ring (pp_spsc p)) x), sp_pushed := sp_pushed (pp_spsc p) @ [x]\<rparr>\<rparr>)"
proof -
  let ?s = "pp_spsc p"
  let ?at = "\<lambda>r pc. p\<lparr>pp_spsc := ?s\<lparr>sp_ring := r, sp_prod := pc\<rparr>\<rparr>"
  let ?w = "push_write (sp_ring ?s) x"
  have "pipe_reachable fr N b feed (?at (sp_ring ?s) (P_check x))"
    using pipe_reachable.step [OF assms(1) send [OF assms(2,3)]] by (simp add: x_def)
  then have "pipe_reachable fr N b feed (?at (sp_ring ?s) (P_write x))"
    using pipe_reachable.step [OF _ produce [of "?at (sp_ring ?s) (P_check x)"]]
      push_cached [of "?s\<lparr>sp_prod := P_check x\<rparr>" x] assms(4) by simp
  then have "pipe_reachable fr N b feed (?at ?w (P_publish x))"
    using pipe_reachable.step [OF _ produce [of "?at (sp_ring ?s) (P_write x)"]]
      push_store [of "?s\<lparr>sp_prod := P_write x\<rparr>" x] by simp
  then show ?thesis
    using pipe_reachable.step [OF _ produce [of "?at ?w (P_publish x)"]]
      push_return [of "?s\<lparr>sp_ring := ?w, sp_prod := P_publish x\<rparr>" x] assms(2)
    by (cases ?s) simp
qed

lemma pipe_pop_one:
  assumes "pipe_reachable fr N b feed p" and "sp_cons (pp_spsc p) = C_idle"
    and "\<not> pp_exited p" "pp_pending p = None" and "pop_none (sp_ring (pp_spsc p))"
  defines "r \<equiv> pop_reload (sp_ring (pp_spsc p)) (rb_head (sp_ring (pp_spsc p)))"
  assumes "\<not> pop_none r"
  shows "pipe_reachable fr N b feed (p\<lparr>pp_spsc := (pp_spsc p)
    \<lparr>sp_ring := pop_release r, sp_popped := sp_popped (pp_spsc p) @ [pop_read r]\<rparr>,
     pp_book := processMessage (pp_book p) (pop_read r)\<rparr>)"
proof -
  let ?s = "pp_spsc p" and ?x = "pop_read r"
  let ?at = "\<lambda>q pc. p\<lparr>pp_spsc := ?s\<lparr>sp_ring := q, sp_cons := pc\<rparr>\<rparr>"
  let ?done = "p\<lparr>pp_spsc := ?s\<lparr>sp_ring := pop_release r, sp_popped := sp_popped ?s @ [?x]\<rparr>,
    pp_pending := Some ?x\<rparr>"
  have "pipe_reachable fr N b feed (?at (sp_ring ?s) C_check)"
    using pipe_reachable.step [OF assms(1) receive [OF assms(3,4,2)]] by simp
  then have "pipe_reachable fr N b feed (?at r C_read)"
    using pipe_reachable.step [OF _ consume [of "?at (sp_ring ?s) C_check"]]
      pop_load_some [of "?s\<lparr>sp_cons := C_check\<rparr>" "rb_head (sp_ring ?s)"] assms(4,5,7)
    by (cases p) (simp add: r_def)
  then have "pipe_reachable fr N b feed (?at r (C_release ?x))"
    using pipe_reachable.step [OF _ consume [of "?at r C_read"]]
      pop_load_item [of "?s\<lparr>sp_ring := r, sp_cons := C_read\<rparr>"] assms(4)
    by (cases p) simp
  then have "pipe_reachable fr N b feed ?done"
    using pipe_reachable.step [OF _ consume [of "?at r (C_release ?x)"]]
      pop_return [of "?s\<lparr>sp_ring := r, sp_cons := C_release ?x\<rparr>" ?x] assms(2)
    by (cases p; cases ?s) simp
  then show ?thesis
    using pipe_reachable.step [OF _ apply_msg [of ?done ?x]] assms(4) by (cases p) simp
qed

section \<open>Properties\<close>

text \<open>C5: At every moment of every interleaving the book is the sequential result of a prefix of the
  feed, so the threads never reorder, drop or repeat a message inside; and when the consumer leaves
  its loop having read the current head, the book is the sequential result of the whole feed. The
  capacity is any power of two, the feed any list of messages, the initial book any book.\<close>

theorem pipeline_correct:
  assumes "pipe_reachable fresh Capacity book feed p" and "cap_ok Capacity"
  shows "(\<exists>k \<le> length feed. pp_book p = processAll book (take k feed))
    \<and> (fresh \<and> pp_exited p \<longrightarrow> pp_book p = processAll book feed)"
proof -
  note inv = pipe_inv_reachable [OF assms]
  let ?s = "pp_spsc p" and ?m = "length (sp_popped (pp_spsc p))"
  have "spsc_inv Capacity ?s" and pushed: "sp_pushed ?s = take (length (sp_pushed ?s)) feed"
    "length (sp_pushed ?s) \<le> length feed"
    using inv unfolding pipe_inv_def Let_def by blast+
  then obtain ct ch where at: "spsc_at Capacity ?s ct ch" by (auto simp: spsc_inv_def)
  then have r: "ring_at (sp_ring ?s) ct ?m ch (length (sp_pushed ?s))"
    and pre: "sp_popped ?s = take ?m (sp_pushed ?s)" by (simp_all add: spsc_at_def Let_def)
  have m: "?m \<le> length (sp_pushed ?s)" using ring_atD(3,4) [OF r] by simp
  then have popped: "sp_popped ?s = take ?m feed" using pre pushed by (metis min.absorb1 take_take)
  have "\<exists>k \<le> length feed. pp_book p = processAll book (take k feed)"
  proof (cases "pp_pending p")
    case None
    then show ?thesis
      using inv popped m pushed(2) by (intro exI [of _ ?m]) (simp add: pipe_inv_def Let_def)
  next
    case (Some x)
    then have "pp_book p = processAll book (butlast (sp_popped ?s))" using inv by (simp add: pipe_inv_def Let_def)
    also have "butlast (sp_popped ?s) = take (?m - 1) feed"
      using popped m pushed(2) by (metis butlast_take le_trans)
    finally show ?thesis using m pushed(2) by (intro exI [of _ "?m - 1"]) simp
  qed
  moreover have "pp_book p = processAll book feed" if "fresh \<and> pp_exited p"
  proof -
    have "pp_pending p = None" "sp_popped ?s = feed"
      using inv that unfolding pipe_inv_def Let_def by blast+
    then show ?thesis using inv by (simp add: pipe_inv_def Let_def)
  qed
  ultimately show ?thesis by blast
qed

text \<open>One message through a ring of two.\<close>

definition ex_pipe_feed :: "WireMessage list" where
  "ex_pipe_feed = [ex_add 1 7 chB 100 5]"

definition ex_pipe_sent :: pipe where
  "ex_pipe_sent = (pipe_init 2 ex_book)\<lparr>pp_spsc := (spsc_init 2 WireMessage_zero)
     \<lparr>sp_ring := push_publish (push_write (ring_new 2 WireMessage_zero) (ex_add 1 7 chB 100 5)),
      sp_pushed := ex_pipe_feed\<rparr>, pp_finished := True\<rparr>"

lemma ex_pipe_sent_reachable: "pipe_reachable fr 2 ex_book ex_pipe_feed ex_pipe_sent"
proof -
  have "\<not> push_full (ring_new 2 WireMessage_zero)" by (simp add: push_full_def ring_new_def)
  then have "pipe_reachable fr 2 ex_book ex_pipe_feed (ex_pipe_sent\<lparr>pp_finished := False\<rparr>)"
    using pipe_push_one [OF pipe_reachable.init [of fr 2 ex_book ex_pipe_feed]]
    by (simp add: pipe_init_def spsc_init_def ex_pipe_feed_def ex_pipe_sent_def)
  then show ?thesis
    using pipe_reachable.step [OF _ finish [of "ex_pipe_sent\<lparr>pp_finished := False\<rparr>" ex_pipe_feed fr]]
    by (simp add: ex_pipe_sent_def spsc_init_def ex_pipe_feed_def)
qed

lemma ex_pipe_exits:
  "\<exists>p. pipe_reachable True 2 ex_book ex_pipe_feed p \<and> pp_exited p"
proof -
  let ?r = "sp_ring (pp_spsc ex_pipe_sent)"
  let ?r' = "pop_reload ?r (rb_head ?r)"
  let ?p = "ex_pipe_sent\<lparr>pp_spsc := (pp_spsc ex_pipe_sent)\<lparr>sp_ring := pop_release ?r',
      sp_popped := sp_popped (pp_spsc ex_pipe_sent) @ [pop_read ?r']\<rparr>,
      pp_book := processMessage (pp_book ex_pipe_sent) (pop_read ?r')\<rparr>"
  have idx: "rb_head ?r = 1" "rb_tail ?r = 0" "rb_cachedHead ?r = 0"
    by (simp_all add: ex_pipe_sent_def ring_new_def push_publish_def push_write_def)
  have st: "sp_cons (pp_spsc ex_pipe_sent) = C_idle" "\<not> pp_exited ex_pipe_sent"
    "pp_pending ex_pipe_sent = None" "pp_finished ex_pipe_sent"
    by (simp_all add: ex_pipe_sent_def spsc_init_def pipe_init_def)
  have p: "pipe_reachable True 2 ex_book ex_pipe_feed ?p"
    by (rule pipe_pop_one [OF ex_pipe_sent_reachable st(1-3)])
      (simp_all add: pop_none_def pop_reload_def idx)
  have "exit_seen True ?p 1"
    by (simp add: exit_seen_def st may_load_def pop_release_def pop_reload_def idx)
  then show ?thesis
    using pipe_reachable.step [OF p exit [of ?p True 1]] st by fastforce
qed

theorem pipeline_correct_witness:
  "\<exists>p. pipe_reachable True 2 ex_book ex_pipe_feed p \<and> pp_exited p
     \<and> pp_book p = processMessage ex_book (ex_add 1 7 chB 100 5)"
proof -
  obtain p where p: "pipe_reachable True 2 ex_book ex_pipe_feed p" "pp_exited p"
    using ex_pipe_exits by blast
  have "cap_ok 2" by (simp add: cap_ok_def)
  from pipeline_correct [OF p(1) this] p(2)
  have "pp_book p = processMessage ex_book (ex_add 1 7 chB 100 5)" by (simp add: ex_pipe_feed_def)
  with p show ?thesis by blast
qed

text \<open>The producer alone can push as many messages as fit.\<close>

lemma producer_first:
  assumes "cap_ok N"
  shows "k \<le> length feed \<Longrightarrow> k \<le> N \<Longrightarrow> \<exists>p. pipe_reachable fr N b feed p \<and> sp_prod (pp_spsc p) = P_idle
    \<and> sp_cons (pp_spsc p) = C_idle \<and> sp_popped (pp_spsc p) = [] \<and> length (sp_pushed (pp_spsc p)) = k
    \<and> sp_pushed (pp_spsc p) = take k feed \<and> ring_at (sp_ring (pp_spsc p)) 0 0 0 k
    \<and> ring_capacity (sp_ring (pp_spsc p)) = N
    \<and> pp_pending p = None \<and> \<not> pp_exited p \<and> pp_book p = b"
proof (induction k)
  case 0
  have "pipe_reachable fr N b feed (pipe_init N b)" by (rule pipe_reachable.init)
  moreover have "ring_at (sp_ring (pp_spsc (pipe_init N b))) 0 0 0 0"
    using ring_new_at [OF assms] by (simp add: pipe_init_def spsc_init_def)
  moreover have "ring_capacity (sp_ring (pp_spsc (pipe_init N b))) = N"
    by (simp add: pipe_init_def spsc_init_def ring_new_def)
  moreover have "sp_prod (pp_spsc (pipe_init N b)) = P_idle" "sp_cons (pp_spsc (pipe_init N b)) = C_idle"
    "sp_popped (pp_spsc (pipe_init N b)) = []" "sp_pushed (pp_spsc (pipe_init N b)) = []"
    "pp_pending (pipe_init N b) = None" "\<not> pp_exited (pipe_init N b)" "pp_book (pipe_init N b) = b"
    by (simp_all add: pipe_init_def spsc_init_def)
  ultimately show ?case by (intro exI [of _ "pipe_init N b"]) simp
next
  case (Suc k)
  then obtain p where p: "pipe_reachable fr N b feed p" "sp_prod (pp_spsc p) = P_idle"
    "sp_cons (pp_spsc p) = C_idle" "sp_popped (pp_spsc p) = []" "length (sp_pushed (pp_spsc p)) = k"
    "sp_pushed (pp_spsc p) = take k feed" "ring_at (sp_ring (pp_spsc p)) 0 0 0 k"
    "ring_capacity (sp_ring (pp_spsc p)) = N" "pp_pending p = None" "\<not> pp_exited p" "pp_book p = b"
    by auto
  let ?x = "feed ! k"
  let ?p = "p\<lparr>pp_spsc := (pp_spsc p)\<lparr>sp_ring := push_publish (push_write (sp_ring (pp_spsc p)) ?x),
    sp_pushed := sp_pushed (pp_spsc p) @ [?x]\<rparr>\<rparr>"
  have "\<not> push_full (sp_ring (pp_spsc p))" using push_full_iff [OF p(7)] p(8) Suc.prems by simp
  then have "pipe_reachable fr N b feed ?p" using pipe_push_one [OF p(1,2)] p(5) Suc.prems by simp
  moreover have "ring_at (push_publish (push_write (sp_ring (pp_spsc p)) ?x)) 0 0 0 (Suc k)"
    by (rule push_publish_at) (use p(7,8) Suc.prems in simp_all)
  moreover have "take k feed @ [?x] = take (Suc k) feed" using Suc.prems by (simp add: take_Suc_conv_app_nth)
  ultimately show ?case using p Suc.prems by (intro exI [of _ ?p]) simp
qed

text \<open>C16: The relaxed exit test can lose the whole feed. If the exit test may combine the raised flag
  with an old head, as the relaxed loads of the code allow, then for every feed that fits into the
  ring there is a run in which the producer has pushed all of it and finished, and the consumer has
  left its loop without processing a single message.\<close>

theorem relaxed_exit_loses_feed:
  assumes "cap_ok Capacity" and "length feed \<le> Capacity"
  shows "\<exists>p. pipe_reachable False Capacity book feed p \<and> pp_exited p \<and> pp_finished p
    \<and> sp_pushed (pp_spsc p) = feed \<and> sp_popped (pp_spsc p) = [] \<and> pp_book p = book"
proof -
  obtain p where p: "pipe_reachable False Capacity book feed p" "sp_prod (pp_spsc p) = P_idle"
    "sp_cons (pp_spsc p) = C_idle" "sp_popped (pp_spsc p) = []" "sp_pushed (pp_spsc p) = feed"
    "ring_at (sp_ring (pp_spsc p)) 0 0 0 (length feed)" "pp_pending p = None" "\<not> pp_exited p" "pp_book p = book"
    using producer_first [OF assms(1) order_refl assms(2)] by auto
  let ?f = "p\<lparr>pp_finished := True\<rparr>"
  have f: "pipe_reachable False Capacity book feed ?f"
    by (rule pipe_reachable.step [OF p(1) finish]) (use p in simp_all)
  have "exit_seen False ?f 0" using ring_atD(7,8) [OF p(6)] by (simp add: exit_seen_def may_load_def)
  then have "pipe_reachable False Capacity book feed (?f\<lparr>pp_exited := True\<rparr>)"
    using pipe_reachable.step [OF f exit [of ?f False 0]] p by simp
  then show ?thesis using p by (intro exI [of _ "?f\<lparr>pp_exited := True\<rparr>"]) simp
qed

theorem relaxed_exit_loses_feed_witness:
  "\<exists>p. pipe_reachable False 2 ex_book ex_pipe_feed p \<and> pp_exited p \<and> pp_book p = ex_book"
proof -
  have "cap_ok 2" "length ex_pipe_feed \<le> 2" by (simp_all add: cap_ok_def ex_pipe_feed_def)
  from relaxed_exit_loses_feed [OF this, of ex_book] show ?thesis by blast
qed

section \<open>Behaviour outside the specification\<close>

text \<open>The ring has one producer. \<open>stream_server\<close> pushes from its generator thread and from its command
  thread; when both pass the capacity check and write before either publishes, the second write
  replaces the first and the consumer is handed a slot nobody wrote: 8 is delivered, 7 is lost, and
  the default element 0 appears.\<close>

lemma two_producers_lose_message:
  "ring_items (push_publish (push_publish (push_write (push_write (ring_new 4 (0 :: nat)) 7) 8))) = [8, 0]"
  by code_simp

end
