(* ===== verification/Progress.thy ===== *)
theory Progress
  imports Pipeline
begin

text \<open>
  Progress of the threaded pipeline (\<open>runSPSCBenchmark\<close> of \<open>src/main.cpp\<close>): from every reachable state
  the two threads can finish. A measure counts the messages still to push and to pop and how far each
  thread is from the end of its call; in every state some thread has a step that decreases it.
\<close>

section \<open>The measure\<close>

fun prod_rank :: "'a prod_pc \<Rightarrow> nat" where
  "prod_rank P_idle = 4" | "prod_rank (P_check x) = 3" | "prod_rank (P_write x) = 2"
| "prod_rank (P_publish x) = 1"

fun cons_rank :: "bool \<Rightarrow> 'a cons_pc \<Rightarrow> nat" where
  "cons_rank waiting C_idle = (if waiting then 4 else 2)" | "cons_rank waiting C_check = 3"
| "cons_rank waiting C_read = 2" | "cons_rank waiting (C_release x) = 1"

definition pipe_measure :: "WireMessage list \<Rightarrow> pipe \<Rightarrow> nat" where
  "pipe_measure feed p =
     (let s = pp_spsc p; m = length (sp_popped s); n = length (sp_pushed s) in
      20 * (length feed - n) + 20 * (length feed - m) + prod_rank (sp_prod s) + cons_rank (m < n) (sp_cons s)
      + (if pp_pending p = None then 0 else 1) + (if pp_finished p then 0 else 1) + (if pp_exited p then 0 else 1))"

section \<open>Every state has a decreasing step\<close>

text \<open>What the invariant says about the indices.\<close>

lemma pipe_indices:
  assumes "pipe_inv fr N b feed p"
  obtains ct ch where "ring_at (sp_ring (pp_spsc p)) ct (length (sp_popped (pp_spsc p))) ch (length (sp_pushed (pp_spsc p)))"
    and "length (sp_popped (pp_spsc p)) \<le> length (sp_pushed (pp_spsc p))"
    and "length (sp_pushed (pp_spsc p)) \<le> length feed"
proof -
  have "spsc_inv N (pp_spsc p)" and n: "length (sp_pushed (pp_spsc p)) \<le> length feed"
    using assms unfolding pipe_inv_def Let_def by blast+
  then obtain ct ch where "ring_at (sp_ring (pp_spsc p)) ct (length (sp_popped (pp_spsc p))) ch
      (length (sp_pushed (pp_spsc p)))"
    by (auto simp: spsc_inv_def spsc_at_def Let_def)
  from this ring_atD(3,4) [OF this] n that show ?thesis by simp
qed

lemma consumer_moves:
  assumes inv: "pipe_inv fr N b feed p" and "sp_cons (pp_spsc p) \<noteq> C_idle" "pp_pending p = None"
  shows "\<exists>p'. pipe_step fr feed p p' \<and> pipe_measure feed p' < pipe_measure feed p"
proof -
  let ?s = "pp_spsc p" and ?m = "length (sp_popped (pp_spsc p))" and ?n = "length (sp_pushed (pp_spsc p))"
  obtain ct ch where at: "ring_at (sp_ring ?s) ct ?m ch ?n" and mn: "?m \<le> ?n" "?n \<le> length feed"
    by (rule pipe_indices [OF inv])
  note step = consume [OF assms(2), of _ fr feed]
  show ?thesis
  proof (cases "sp_cons ?s")
    case C_check
    show ?thesis
    proof (cases "pop_none (sp_ring ?s)")
      case False
      show ?thesis using step [OF pop_cached [OF C_check False]] C_check assms(3)
        by (intro exI conjI) (assumption | simp add: pipe_measure_def Let_def)+
    next
      case none: True
      let ?r = "pop_reload (sp_ring ?s) (rb_head (sp_ring ?s))"
      have at': "ring_at ?r ct ?m ?n ?n"
        using pop_reload_at [OF at ring_atD(4) [OF at] le_refl] ring_atD(9) [OF at] by simp
      show ?thesis
      proof (cases "pop_none ?r")
        case False
        show ?thesis using step [OF pop_load_some [OF C_check none may_load_fresh False]] C_check assms(3)
          by (intro exI conjI) (assumption | simp add: pipe_measure_def Let_def)+
      next
        case True
        then have "?m = ?n" using pop_none_iff [OF at'] by simp
        then show ?thesis using step [OF pop_load_none [OF C_check none may_load_fresh True]] C_check assms(3)
          by (intro exI conjI) (assumption | simp add: pipe_measure_def Let_def)+
      qed
    qed
  next
    case C_read
    show ?thesis using step [OF pop_load_item [OF C_read]] C_read assms(3)
      by (intro exI conjI) (assumption | simp add: pipe_measure_def Let_def)+
  next
    case (C_release x)
    obtain ct' ch' where "spsc_at N ?s ct' ch'" using inv by (auto simp: pipe_inv_def Let_def spsc_inv_def)
    then have "?m < ?n" using C_release ring_atD(4) by (fastforce simp: spsc_at_def Let_def)
    then have "length feed - ?m = Suc (length feed - Suc ?m)" using mn by simp
    then show ?thesis using step [OF pop_return [OF C_release]] C_release assms(3)
      by (intro exI conjI) (assumption | simp add: pipe_measure_def Let_def)+
  qed (use assms(2) in simp)
qed

lemma producer_moves:
  assumes inv: "pipe_inv fr N b feed p" and "sp_prod (pp_spsc p) \<noteq> P_idle"
    and "length (sp_popped (pp_spsc p)) = length (sp_pushed (pp_spsc p))"
    and "sp_cons (pp_spsc p) = C_idle"
  shows "\<exists>p'. pipe_step fr feed p p' \<and> pipe_measure feed p' < pipe_measure feed p"
proof -
  let ?s = "pp_spsc p" and ?n = "length (sp_pushed (pp_spsc p))"
  obtain ct ch where at: "ring_at (sp_ring ?s) ct (length (sp_popped ?s)) ch ?n" and "?n \<le> length feed"
    by (rule pipe_indices [OF inv])
  note step = produce [OF assms(2), of _ fr feed]
  show ?thesis
  proof (cases "sp_prod ?s")
    case (P_check x)
    show ?thesis
    proof (cases "push_full (sp_ring ?s)")
      case False
      show ?thesis using step [OF push_cached [OF P_check False]] P_check
        by (intro exI conjI) (assumption | simp add: pipe_measure_def Let_def)+
    next
      case full: True
      let ?r = "push_reload (sp_ring ?s) (rb_tail (sp_ring ?s))"
      have at': "ring_at ?r ?n ?n ch ?n"
        using push_reload_at [OF at ring_atD(2) [OF at] le_refl] ring_atD(7) [OF at] assms(3) by simp
      then have "\<not> push_full ?r" using push_full_iff [OF at'] cap_ok_pos [OF ring_atD(1) [OF at']] by simp
      then show ?thesis using step [OF push_load_room [OF P_check full may_load_fresh]] P_check
        by (intro exI conjI) (assumption | simp add: pipe_measure_def Let_def)+
    qed
  next
    case (P_write x)
    show ?thesis using step [OF push_store [OF P_write]] P_write
      by (intro exI conjI) (assumption | simp add: pipe_measure_def Let_def)+
  next
    case (P_publish x)
    have "?n < length feed" using inv P_publish by (simp add: pipe_inv_def Let_def)
    then show ?thesis using step [OF push_return [OF P_publish]] P_publish assms(3,4)
      by (intro exI conjI) (assumption | simp add: pipe_measure_def Let_def)+
  qed (use assms(2) in simp)
qed

lemma pipe_progress:
  assumes inv: "pipe_inv fr N b feed p" and run: "\<not> pp_exited p"
  shows "\<exists>p'. pipe_step fr feed p p' \<and> pipe_measure feed p' < pipe_measure feed p"
proof -
  let ?s = "pp_spsc p" and ?m = "length (sp_popped (pp_spsc p))" and ?n = "length (sp_pushed (pp_spsc p))"
  obtain ct ch where at: "ring_at (sp_ring ?s) ct ?m ch ?n" and mn: "?m \<le> ?n" "?n \<le> length feed"
    by (rule pipe_indices [OF inv])
  consider (pending) x where "pp_pending p = Some x"
    | (consuming) "pp_pending p = None" "sp_cons ?s \<noteq> C_idle"
    | (waiting) "pp_pending p = None" "sp_cons ?s = C_idle" "?m < ?n"
    | (producing) "pp_pending p = None" "sp_cons ?s = C_idle" "?m = ?n" "sp_prod ?s \<noteq> P_idle"
    | (idle) "pp_pending p = None" "sp_cons ?s = C_idle" "?m = ?n" "sp_prod ?s = P_idle"
    using mn(1) by (cases "pp_pending p") fastforce+
  then show ?thesis
  proof cases
    case pending
    show ?thesis using apply_msg [OF pending, of fr feed] pending
      by (intro exI conjI) (assumption | simp add: pipe_measure_def Let_def)+
  next
    case consuming
    then show ?thesis using consumer_moves [OF inv] by simp
  next
    case waiting
    then show ?thesis using receive [OF run waiting(1,2), of fr feed]
      by (intro exI conjI) (assumption | simp add: pipe_measure_def Let_def)+
  next
    case producing
    then show ?thesis using producer_moves [OF inv] by simp
  next
    case idle
    show ?thesis
    proof (cases "?n < length feed")
      case True
      then show ?thesis using send [OF idle(4) True, of fr] idle
        by (intro exI conjI) (assumption | simp add: pipe_measure_def Let_def)+
    next
      case False
      then have n: "?n = length feed" using mn(2) by simp
      show ?thesis
      proof (cases "pp_finished p")
        case True
        have "exit_seen fr p (rb_head (sp_ring ?s))"
          using True ring_atD(7,9) [OF at] idle(3) by (simp add: exit_seen_def)
        then show ?thesis using exit [OF run idle(1,2), of fr _ feed] run idle
          by (intro exI conjI) (assumption | simp add: pipe_measure_def Let_def)+
      next
        case False
        then show ?thesis using finish [OF idle(4) n, of fr] idle
          by (intro exI conjI) (assumption | simp add: pipe_measure_def Let_def)+
      qed
    qed
  qed
qed

lemma pipe_finishes:
  assumes "pipe_inv fr N b feed p"
  shows "\<exists>p'. (pipe_step fr feed)\<^sup>*\<^sup>* p p' \<and> pp_exited p'"
  using assms
proof (induction "pipe_measure feed p" arbitrary: p rule: less_induct)
  case less
  show ?case
  proof (cases "pp_exited p")
    case False
    then obtain p1 where p1: "pipe_step fr feed p p1" "pipe_measure feed p1 < pipe_measure feed p"
      using pipe_progress [OF less.prems] by blast
    from less.hyps [OF p1(2) pipe_inv_step [OF p1(1) less.prems]] p1(1) show ?thesis
      by (meson converse_rtranclp_into_rtranclp)
  qed blast
qed

section \<open>Properties\<close>

text \<open>The pipeline can always finish. From every reachable state, however the two threads got there
  and whatever stale values they have loaded, some continuation lets the producer push the rest of
  the feed and the consumer process it and leave; with a current head at the exit, the book is then
  that of the whole feed. Neither thread can block the other for good.\<close>

theorem pipeline_can_finish:
  assumes "pipe_reachable fresh Capacity book feed p" and "cap_ok Capacity"
  shows "\<exists>p'. (pipe_step fresh feed)\<^sup>*\<^sup>* p p' \<and> pp_exited p'
    \<and> (fresh \<longrightarrow> pp_book p' = processAll book feed)"
proof -
  obtain p' where p': "(pipe_step fresh feed)\<^sup>*\<^sup>* p p'" "pp_exited p'"
    using pipe_finishes [OF pipe_inv_reachable [OF assms]] by blast
  from p'(1) have "pipe_reachable fresh Capacity book feed p'"
    by (induction rule: rtranclp_induct) (auto intro: assms(1) pipe_reachable.step)
  note inv = pipe_inv_reachable [OF this assms(2)]
  have "pp_book p' = processAll book feed" if fresh
    using inv p'(2) that by (cases "pp_pending p'") (simp_all add: pipe_inv_def Let_def)
  then show ?thesis using p' by blast
qed

theorem pipeline_can_finish_witness:
  "\<exists>p. (pipe_step True ex_pipe_feed)\<^sup>*\<^sup>* ex_pipe_sent p \<and> pp_book p = processMessage ex_book (ex_add 1 7 chB 100 5)"
proof -
  have "cap_ok 2" by (simp add: cap_ok_def)
  from pipeline_can_finish [OF ex_pipe_sent_reachable this, of True] show ?thesis
    by (auto simp: ex_pipe_feed_def)
qed

end
