(* ===== verification/FairRuns.thy ===== *)
theory FairRuns
  imports Progress
begin

text \<open>
  Termination of the threaded pipeline (\<open>runSPSCBenchmark\<close> of \<open>src/main.cpp\<close>) under a fair scheduler.
  Both loops spin: the producer on a full ring, the consumer on an empty one, and every load may
  return an old value. A run is a sequence of states; it is fair when each thread keeps moving until
  it is done and does not read old values forever. In every state one thread is helpful: its next
  effective step lowers a rank that no other step raises.
\<close>

section \<open>Moves and fair runs\<close>

text \<open>A step belongs to the thread whose control point it changes.\<close>

definition prod_moved :: "pipe \<Rightarrow> pipe \<Rightarrow> bool" where
  "prod_moved p p' \<longleftrightarrow> sp_prod (pp_spsc p') \<noteq> sp_prod (pp_spsc p) \<or> pp_finished p' \<noteq> pp_finished p"

definition cons_moved :: "pipe \<Rightarrow> pipe \<Rightarrow> bool" where
  "cons_moved p p' \<longleftrightarrow> sp_cons (pp_spsc p') \<noteq> sp_cons (pp_spsc p)
     \<or> pp_pending p' \<noteq> pp_pending p \<or> pp_exited p' \<noteq> pp_exited p"

text \<open>What the indices really say, whatever the threads have cached.\<close>

definition ring_full_now :: "pipe \<Rightarrow> bool" where
  "ring_full_now p \<longleftrightarrow>
     rb_head (sp_ring (pp_spsc p)) - rb_tail (sp_ring (pp_spsc p)) \<ge> of_nat (ring_capacity (sp_ring (pp_spsc p)))"

definition ring_empty_now :: "pipe \<Rightarrow> bool" where
  "ring_empty_now p \<longleftrightarrow> rb_tail (sp_ring (pp_spsc p)) = rb_head (sp_ring (pp_spsc p))"

text \<open>The three tests with a truthful answer: a push that fails only on a full ring, a pop that fails only
  on an empty one, and a loop test that goes on only when there is something left to wait for.\<close>

definition prod_sees :: "pipe \<Rightarrow> pipe \<Rightarrow> bool" where
  "prod_sees p p' \<longleftrightarrow> (\<exists>x. sp_prod (pp_spsc p) = P_check x) \<and> prod_moved p p'
     \<and> (sp_prod (pp_spsc p') = P_idle \<longrightarrow> ring_full_now p)"

definition cons_sees :: "pipe \<Rightarrow> pipe \<Rightarrow> bool" where
  "cons_sees p p' \<longleftrightarrow> sp_cons (pp_spsc p) = C_check \<and> cons_moved p p'
     \<and> (sp_cons (pp_spsc p') = C_idle \<longrightarrow> ring_empty_now p)"

definition exit_sees :: "pipe \<Rightarrow> pipe \<Rightarrow> bool" where
  "exit_sees p p' \<longleftrightarrow> sp_cons (pp_spsc p) = C_idle \<and> pp_pending p = None \<and> cons_moved p p'
     \<and> (\<not> pp_exited p' \<longrightarrow> \<not> (pp_finished p \<and> ring_empty_now p))"

definition often :: "(nat \<Rightarrow> pipe) \<Rightarrow> (pipe \<Rightarrow> bool) \<Rightarrow> (pipe \<Rightarrow> pipe \<Rightarrow> bool) \<Rightarrow> bool" where
  "often \<sigma> stopped ev \<longleftrightarrow> (\<forall>i. \<exists>j \<ge> i. stopped (\<sigma> j) \<or> ev (\<sigma> j) (\<sigma> (Suc j)))"

definition pipe_run :: "bool \<Rightarrow> WireMessage list \<Rightarrow> (nat \<Rightarrow> pipe) \<Rightarrow> bool" where
  "pipe_run fresh feed \<sigma> \<longleftrightarrow>
     (\<forall>i. pipe_step fresh feed (\<sigma> i) (\<sigma> (Suc i)) \<or> pp_exited (\<sigma> i) \<and> \<sigma> (Suc i) = \<sigma> i)"

definition fair_run :: "(nat \<Rightarrow> pipe) \<Rightarrow> bool" where
  "fair_run \<sigma> \<longleftrightarrow> often \<sigma> pp_finished prod_moved \<and> often \<sigma> pp_finished prod_sees
     \<and> often \<sigma> pp_exited cons_moved \<and> often \<sigma> pp_exited cons_sees \<and> often \<sigma> pp_exited exit_sees"

section \<open>The rank\<close>

text \<open>With messages in flight (or one popped but not processed) the consumer is helpful, with an empty
  ring the producer, and at the end the consumer again. A thread that is about to test, or to call,
  has the same rank: it may go round that loop.\<close>

definition prod_left :: "'a prod_pc \<Rightarrow> nat" where
  "prod_left c = (case c of P_publish x \<Rightarrow> 2 | P_write x \<Rightarrow> 3 | _ \<Rightarrow> 4)"

definition cons_left :: "'a cons_pc \<Rightarrow> nat" where
  "cons_left c = (case c of C_release x \<Rightarrow> 5 | C_read \<Rightarrow> 6 | _ \<Rightarrow> 7)"

definition phase :: "WireMessage list \<Rightarrow> pipe \<Rightarrow> nat" where
  "phase feed p =
     (let s = pp_spsc p; m = length (sp_popped s); n = length (sp_pushed s) in
      if pp_pending p \<noteq> None then 8
      else if m < n then cons_left (sp_cons s)
      else if n < length feed then prod_left (sp_prod s)
      else if pp_finished p then 0 else 1)"

definition rank :: "WireMessage list \<Rightarrow> pipe \<Rightarrow> nat" where
  "rank feed p = 10 * (length feed - length (sp_pushed (pp_spsc p))
     + (length feed - length (sp_popped (pp_spsc p)))) + phase feed p"

lemma phase_less: "phase feed p < 10"
  by (simp add: phase_def prod_left_def cons_left_def Let_def split: prod_pc.split cons_pc.split)

lemma rank_phase: "rank feed p mod 10 = phase feed p"
  by (simp only: rank_def mod_mult_self4 mod_less [OF phase_less])

lemma left_bounds:
  "prod_left c \<le> 4" "2 \<le> prod_left c" "cons_left d \<le> 7" "5 \<le> cons_left d"
  by (simp_all add: prod_left_def cons_left_def split: prod_pc.split cons_pc.split)

text \<open>What the invariant says of the counts and the ring.\<close>

lemma inv_counts:
  assumes "pipe_inv fr N b feed p"
  shows "length (sp_popped (pp_spsc p)) \<le> length (sp_pushed (pp_spsc p))"
    and "length (sp_pushed (pp_spsc p)) \<le> length feed"
    and "ring_empty_now p \<longleftrightarrow> length (sp_popped (pp_spsc p)) = length (sp_pushed (pp_spsc p))"
    and "ring_empty_now p \<Longrightarrow> \<not> ring_full_now p"
    and "sp_cons (pp_spsc p) \<in> {C_idle, C_check} \<or> length (sp_popped (pp_spsc p)) < length (sp_pushed (pp_spsc p))"
proof -
  let ?m = "length (sp_popped (pp_spsc p))" and ?n = "length (sp_pushed (pp_spsc p))"
  obtain ct ch where at: "ring_at (sp_ring (pp_spsc p)) ct ?m ch ?n" and mn: "?m \<le> ?n" "?n \<le> length feed"
    by (rule pipe_indices [OF assms])
  note d = ring_atD [OF at]
  show "?m \<le> ?n" "?n \<le> length feed" by (fact mn)+
  have u: "unat (rb_head (sp_ring (pp_spsc p)) - rb_tail (sp_ring (pp_spsc p))) = ?n - ?m"
    unfolding d(7,9) using d(2-5,10) by (intro unat_of_nat_diff) auto
  have "ring_empty_now p \<longleftrightarrow> unat (rb_head (sp_ring (pp_spsc p)) - rb_tail (sp_ring (pp_spsc p))) = 0"
    by (auto simp: ring_empty_now_def unat_eq_0)
  then show "ring_empty_now p \<longleftrightarrow> ?m = ?n" using mn(1) by (simp only: u) auto
  have "unat (of_nat (ring_capacity (sp_ring (pp_spsc p))) :: u64) = ring_capacity (sp_ring (pp_spsc p))"
    using d(10) by (simp add: unat_u64)
  then show "\<not> ring_full_now p" if "ring_empty_now p"
    using that cap_ok_pos [OF d(1)] by (simp add: ring_full_now_def ring_empty_now_def word_le_nat_alt)
  obtain ct' ch' where "spsc_at N (pp_spsc p) ct' ch'" using assms by (auto simp: pipe_inv_def Let_def spsc_inv_def)
  then show "sp_cons (pp_spsc p) \<in> {C_idle, C_check} \<or> ?m < ?n"
    using ring_atD(4) by (cases "sp_cons (pp_spsc p)") (fastforce simp: spsc_at_def Let_def)+
qed

section \<open>No step raises the rank, helpful steps lower it\<close>

lemma produce_effect:
  assumes "spsc_step s s'" and "sp_prod s \<noteq> P_idle" and "sp_cons s' = sp_cons s"
  shows "sp_popped s' = sp_popped s \<and> sp_prod s' \<noteq> sp_prod s
    \<and> (if \<exists>x. sp_prod s = P_publish x then length (sp_pushed s') = Suc (length (sp_pushed s))
       else sp_pushed s' = sp_pushed s \<and> (prod_left (sp_prod s') < prod_left (sp_prod s)
         \<or> (\<exists>x. sp_prod s = P_check x) \<and> sp_prod s' = P_idle))"
  using assms by cases (auto simp: prod_left_def)

lemma consume_effect:
  assumes "spsc_step s s'" and "sp_cons s \<noteq> C_idle" and "sp_prod s' = sp_prod s"
  shows "sp_pushed s' = sp_pushed s \<and> sp_cons s' \<noteq> sp_cons s
    \<and> (if \<exists>x. sp_cons s = C_release x then length (sp_popped s') = Suc (length (sp_popped s))
       else sp_popped s' = sp_popped s \<and> (cons_left (sp_cons s') < cons_left (sp_cons s)
         \<or> sp_cons s = C_check \<and> sp_cons s' = C_idle))"
  using assms by cases (auto simp: cons_left_def)

text \<open>A step either lowers the rank or keeps it, and then it is not an effective step of the helpful
  thread.\<close>

definition helpful :: "WireMessage list \<Rightarrow> pipe \<Rightarrow> pipe \<Rightarrow> bool" where
  "helpful feed p p' \<longleftrightarrow>
     (if phase feed p \<in> {5, 6, 8} then cons_moved p p'
      else if phase feed p = 7 then cons_sees p p'
      else if phase feed p \<in> {1, 2, 3} then prod_moved p p'
      else if phase feed p = 4 then prod_sees p p'
      else exit_sees p p')"

abbreviation lower :: "WireMessage list \<Rightarrow> pipe \<Rightarrow> pipe \<Rightarrow> bool" where
  "lower feed p p' \<equiv> rank feed p' < rank feed p \<or> rank feed p' = rank feed p \<and> \<not> helpful feed p p'"

lemma rank_same_counts:
  assumes "length (sp_pushed (pp_spsc p')) = length (sp_pushed (pp_spsc p))"
    and "length (sp_popped (pp_spsc p')) = length (sp_popped (pp_spsc p))"
  shows "rank feed p' < rank feed p \<longleftrightarrow> phase feed p' < phase feed p"
    and "rank feed p' = rank feed p \<longleftrightarrow> phase feed p' = phase feed p"
  using assms by (simp_all add: rank_def)

lemma rank_counts_less:
  assumes "length (sp_pushed (pp_spsc p)) \<le> length feed" and "length (sp_popped (pp_spsc p)) \<le> length feed"
    and "length (sp_pushed (pp_spsc p')) = Suc (length (sp_pushed (pp_spsc p))) \<and> length (sp_popped (pp_spsc p')) = length (sp_popped (pp_spsc p))
       \<and> length (sp_pushed (pp_spsc p)) < length feed
     \<or> length (sp_popped (pp_spsc p')) = Suc (length (sp_popped (pp_spsc p))) \<and> length (sp_pushed (pp_spsc p')) = length (sp_pushed (pp_spsc p))
       \<and> length (sp_popped (pp_spsc p)) < length feed"
  shows "rank feed p' < rank feed p"
  using assms phase_less [of feed p'] by (auto simp: rank_def)

lemma lower_send:
  assumes "pipe_inv fr N b feed p" and "sp_prod (pp_spsc p) = P_idle" "length (sp_pushed (pp_spsc p)) < length feed"
  shows "lower feed p (p\<lparr>pp_spsc := (pp_spsc p)\<lparr>sp_prod := P_check x\<rparr>\<rparr>)"
  using assms(2,3) left_bounds(4) [of "sp_cons (pp_spsc p)"]
  by (auto simp: rank_same_counts helpful_def phase_def prod_left_def Let_def
      prod_sees_def cons_moved_def cons_sees_def exit_sees_def)

lemma lower_finish:
  assumes "pipe_inv fr N b feed p" and "length (sp_pushed (pp_spsc p)) = length feed"
  shows "lower feed p (p\<lparr>pp_finished := True\<rparr>)"
  using assms(2) inv_counts(1,2) [OF assms(1)] left_bounds(3,4) [of "sp_cons (pp_spsc p)"]
  by (auto simp: rank_same_counts helpful_def phase_def Let_def prod_moved_def
      cons_moved_def cons_sees_def exit_sees_def)

lemma lower_receive:
  assumes inv: "pipe_inv fr N b feed p" and "pp_pending p = None" "sp_cons (pp_spsc p) = C_idle"
    and run: "\<not> pp_exited p"
  shows "lower feed p (p\<lparr>pp_spsc := (pp_spsc p)\<lparr>sp_cons := C_check\<rparr>\<rparr>)"
proof -
  let ?s = "pp_spsc p"
  have test: "\<not> exit_sees p (p\<lparr>pp_spsc := ?s\<lparr>sp_cons := C_check\<rparr>\<rparr>) \<or> \<not> (pp_finished p \<and> ring_empty_now p)"
    using run by (simp add: exit_sees_def)
  note c = inv_counts [OF inv]
  have pl: "prod_left (sp_prod ?s) \<in> {2, 3, 4}" by (cases "sp_prod ?s") (simp_all add: prod_left_def)
  show ?thesis
  proof (cases "phase feed p = 0")
    case True
    then have "pp_finished p" "length (sp_popped ?s) = length (sp_pushed ?s)"
      using assms(2) c(1) pl left_bounds(4) [of "sp_cons ?s"] by (auto simp: phase_def Let_def split: if_splits)
    then show ?thesis using test c(3) True assms(2)
      by (auto simp: rank_same_counts helpful_def phase_def Let_def split: if_splits)
  next
    case False
    then show ?thesis using assms(2,3) pl
      by (auto simp: rank_same_counts helpful_def phase_def Let_def cons_left_def cons_sees_def prod_moved_def prod_sees_def)
  qed
qed

lemma lower_apply:
  assumes "pp_pending p = Some m"
  shows "lower feed p (p\<lparr>pp_pending := None, pp_book := bk\<rparr>)"
  using assms left_bounds(1) [of "sp_prod (pp_spsc p)"] left_bounds(3) [of "sp_cons (pp_spsc p)"]
  by (auto simp: rank_same_counts phase_def Let_def)

lemma lower_produce:
  assumes inv: "pipe_inv fr N b feed p" and step: "spsc_step (pp_spsc p) s"
    and pc: "sp_prod (pp_spsc p) \<noteq> P_idle" "sp_cons s = sp_cons (pp_spsc p)"
  shows "lower feed p (p\<lparr>pp_spsc := s\<rparr>)"
proof -
  let ?s = "pp_spsc p" and ?p = "p\<lparr>pp_spsc := s\<rparr>"
  note c = inv_counts [OF inv] and e = produce_effect [OF step pc]
  obtain x where "prod_msg (sp_prod ?s) = Some x" using pc(1) by (cases "sp_prod ?s") auto
  then have n: "length (sp_pushed ?s) < length feed" using inv by (simp add: pipe_inv_def Let_def)
  show ?thesis
  proof (cases "\<exists>x. sp_prod ?s = P_publish x")
    case True
    then have "rank feed ?p < rank feed p" using e n c(1) by (intro rank_counts_less) auto
    then show ?thesis by simp
  next
    case False
    then have same: "sp_pushed s = sp_pushed ?s" "sp_popped s = sp_popped ?s" using e by simp_all
    from False e consider (down) "prod_left (sp_prod s) < prod_left (sp_prod ?s)"
      | (spin) x where "sp_prod ?s = P_check x" "sp_prod s = P_idle" by auto
    then show ?thesis
    proof cases
      case down
      then show ?thesis using same n pc(2) left_bounds(4) [of "sp_cons ?s"]
        by (auto simp: rank_same_counts helpful_def phase_def Let_def cons_moved_def cons_sees_def exit_sees_def)
    next
      case spin
      show ?thesis
      proof (cases "pp_pending p = None \<and> length (sp_popped ?s) = length (sp_pushed ?s)")
        case True
        then have "\<not> ring_full_now p" using c(3,4) by blast
        then show ?thesis using True spin same n
          by (simp add: rank_same_counts helpful_def phase_def Let_def prod_left_def prod_sees_def)
      next
        case False
        then have "length (sp_popped ?s) < length (sp_pushed ?s) \<or> pp_pending p \<noteq> None" using c(1) by auto
        then show ?thesis using spin same n pc(2) left_bounds(3,4) [of "sp_cons ?s"]
          by (auto simp: rank_same_counts helpful_def phase_def Let_def cons_moved_def cons_sees_def)
      qed
    qed
  qed
qed

lemma lower_consume:
  assumes inv: "pipe_inv fr N b feed p" and step: "spsc_step (pp_spsc p) s"
    and pc: "sp_cons (pp_spsc p) \<noteq> C_idle" "sp_prod s = sp_prod (pp_spsc p)"
  shows "lower feed p (p\<lparr>pp_spsc := s,
    pp_pending := (case sp_cons (pp_spsc p) of C_release x \<Rightarrow> Some x | _ \<Rightarrow> pp_pending p)\<rparr>)" (is "lower feed p ?p")
proof -
  let ?s = "pp_spsc p"
  note c = inv_counts [OF inv] and e = consume_effect [OF step pc]
  have idle: "pp_pending p = None" using inv pc(1) by (auto simp: pipe_inv_def Let_def split: option.splits)
  show ?thesis
  proof (cases "\<exists>x. sp_cons ?s = C_release x")
    case True
    then have "rank feed ?p < rank feed p" using e c(1,2,5) by (intro rank_counts_less) auto
    then show ?thesis by simp
  next
    case False
    then have p': "?p = p\<lparr>pp_spsc := s\<rparr>" by (cases "sp_cons ?s") (cases p; simp)+
    have same: "sp_pushed s = sp_pushed ?s" "sp_popped s = sp_popped ?s" using False e by simp_all
    from False e consider (down) "cons_left (sp_cons s) < cons_left (sp_cons ?s)"
      | (spin) "sp_cons ?s = C_check" "sp_cons s = C_idle" by auto
    then show ?thesis
    proof cases
      case down
      then show ?thesis
      proof (cases "length (sp_popped ?s) < length (sp_pushed ?s)")
        case False
        then show ?thesis using same idle c(1,5) pc left_bounds(1,2) [of "sp_prod ?s"] unfolding p'
          by (auto simp: rank_same_counts helpful_def phase_def Let_def prod_moved_def prod_sees_def exit_sees_def)
      qed (use same idle in \<open>auto simp: p' rank_same_counts phase_def Let_def\<close>)
    next
      case spin
      then show ?thesis using same idle c(1,3) pc(2) left_bounds(1,2) [of "sp_prod ?s"] unfolding p'
        by (auto simp: rank_same_counts helpful_def phase_def Let_def cons_left_def prod_moved_def
            prod_sees_def exit_sees_def cons_sees_def)
    qed
  qed
qed

lemma step_lower:
  assumes "pipe_step fr feed p p'" and inv: "pipe_inv fr N b feed p" and "\<not> pp_exited p"
  shows "pp_exited p' \<or> lower feed p p'"
  using assms(1)
proof cases
  case send
  then show ?thesis using lower_send [OF inv] by simp
next
  case (produce s)
  then show ?thesis using lower_produce [OF inv] by simp
next
  case finish
  then show ?thesis using lower_finish [OF inv] by simp
next
  case receive
  then show ?thesis using lower_receive [OF inv] by simp
next
  case (consume s)
  then show ?thesis using lower_consume [OF inv] by simp
next
  case (apply_msg m)
  then show ?thesis using lower_apply by simp
qed simp

section \<open>Fair runs end\<close>

text \<open>While the rank does not change, a fair run has an effective step of the helpful thread ahead.\<close>

lemma helpful_ahead:
  assumes fair: "fair_run \<sigma>" and inv: "\<And>j. pipe_inv fr N b feed (\<sigma> j)" and run: "\<And>j. \<not> pp_exited (\<sigma> j)"
    and const: "\<And>j. i \<le> j \<Longrightarrow> rank feed (\<sigma> j) = rank feed (\<sigma> i)"
  shows "\<exists>j \<ge> i. helpful feed (\<sigma> j) (\<sigma> (Suc j))"
proof -
  have ph: "phase feed (\<sigma> j) = phase feed (\<sigma> i)" if "i \<le> j" for j
    using const [OF that] rank_phase by metis
  have unfinished: "\<not> pp_finished (\<sigma> j)" if j: "i \<le> j" and p: "phase feed (\<sigma> i) \<in> {1, 2, 3, 4}" for j
  proof -
    have "phase feed (\<sigma> j) \<in> {1, 2, 3, 4}" using ph [OF j] p by simp
    then have "pp_pending (\<sigma> j) = None" "length (sp_pushed (pp_spsc (\<sigma> j))) < length feed \<or> \<not> pp_finished (\<sigma> j)"
      using left_bounds(4) [of "sp_cons (pp_spsc (\<sigma> j))"] by (auto simp: phase_def Let_def split: if_splits)
    then show ?thesis using inv [of j] by (auto simp: pipe_inv_def Let_def)
  qed
  have often: "often \<sigma> st ev \<Longrightarrow> (\<And>j. i \<le> j \<Longrightarrow> \<not> st (\<sigma> j)) \<Longrightarrow> \<exists>j \<ge> i. ev (\<sigma> j) (\<sigma> (Suc j))" for st ev
    unfolding often_def by metis
  have all: "often \<sigma> pp_finished prod_moved" "often \<sigma> pp_finished prod_sees"
    "often \<sigma> pp_exited cons_moved" "often \<sigma> pp_exited cons_sees" "often \<sigma> pp_exited exit_sees"
    using fair by (simp_all add: fair_run_def)
  consider "phase feed (\<sigma> i) \<in> {5, 6, 8}" | "phase feed (\<sigma> i) = 7" | "phase feed (\<sigma> i) \<in> {1, 2, 3}"
    | "phase feed (\<sigma> i) = 4" | "phase feed (\<sigma> i) \<notin> {1, 2, 3, 4, 5, 6, 7, 8}" by auto
  then show ?thesis
  proof cases
    case 1
    obtain j where "i \<le> j" "cons_moved (\<sigma> j) (\<sigma> (Suc j))" using often [OF all(3) run] by blast
    then show ?thesis using 1 ph [of j] by (intro exI [of _ j]) (auto simp: helpful_def)
  next
    case 2
    obtain j where "i \<le> j" "cons_sees (\<sigma> j) (\<sigma> (Suc j))" using often [OF all(4) run] by blast
    then show ?thesis using 2 ph [of j] by (intro exI [of _ j]) (auto simp: helpful_def)
  next
    case 3
    then obtain j where "i \<le> j" "prod_moved (\<sigma> j) (\<sigma> (Suc j))" using often [OF all(1) unfinished] by blast
    then show ?thesis using 3 ph [of j] by (intro exI [of _ j]) (auto simp: helpful_def)
  next
    case 4
    then obtain j where "i \<le> j" "prod_sees (\<sigma> j) (\<sigma> (Suc j))" using often [OF all(2) unfinished] by blast
    then show ?thesis using 4 ph [of j] by (intro exI [of _ j]) (auto simp: helpful_def)
  next
    case 5
    obtain j where "i \<le> j" "exit_sees (\<sigma> j) (\<sigma> (Suc j))" using often [OF all(5) run] by blast
    then show ?thesis using 5 ph [of j] by (intro exI [of _ j]) (auto simp: helpful_def)
  qed
qed

lemma run_reachable:
  assumes "pipe_run fr feed \<sigma>" and "pipe_reachable fr N b feed (\<sigma> 0)"
  shows "pipe_reachable fr N b feed (\<sigma> i)"
proof (induction i)
  case (Suc i)
  then show ?case using assms(1) pipe_reachable.step unfolding pipe_run_def by metis
qed (fact assms(2))

lemma fair_run_exits:
  assumes run: "pipe_run fr feed \<sigma>" and fair: "fair_run \<sigma>"
    and inv: "\<And>j. pipe_inv fr N b feed (\<sigma> j)"
  shows "\<exists>i. pp_exited (\<sigma> i)"
proof (rule ccontr)
  assume "\<nexists>i. pp_exited (\<sigma> i)"
  then have going: "\<not> pp_exited (\<sigma> i)" for i by simp
  have low: "lower feed (\<sigma> i) (\<sigma> (Suc i))" for i
    using step_lower [of fr feed "\<sigma> i" "\<sigma> (Suc i)"] inv going run unfolding pipe_run_def by metis
  define r where "r = (LEAST r. \<exists>i. rank feed (\<sigma> i) = r)"
  obtain i where i: "rank feed (\<sigma> i) = r" unfolding r_def using LeastI_ex [of "\<lambda>r. \<exists>i. rank feed (\<sigma> i) = r"] by blast
  have least: "r \<le> rank feed (\<sigma> j)" for j unfolding r_def by (rule Least_le) blast
  have const: "rank feed (\<sigma> j) = r" if "i \<le> j" for j
    using that by (induction j rule: dec_induct) (use i low least in \<open>auto simp: order.antisym\<close>, metis least not_le)
  then obtain j where "i \<le> j" "helpful feed (\<sigma> j) (\<sigma> (Suc j))"
    using helpful_ahead [OF fair inv going, of i] i by auto
  then show False using low [of j] least [of "Suc j"] const [of j] const [of "Suc j"] by auto
qed

text \<open>There are fair runs: every finite run to the exit, continued by rest.\<close>

lemma exit_finished: "pipe_reachable fr N b feed p \<Longrightarrow> pp_exited p \<Longrightarrow> pp_finished p"
proof (induction rule: pipe_reachable.induct)
  case init
  then show ?case by (simp add: pipe_init_def)
next
  case (step p p')
  from step(2) show ?case using step by cases (auto simp: exit_seen_def)
qed

lemma fair_extension:
  assumes "(pipe_step fr feed)\<^sup>*\<^sup>* p p'" and "pp_exited p'" and "pp_finished p'"
  shows "\<exists>\<sigma>. pipe_run fr feed \<sigma> \<and> fair_run \<sigma> \<and> \<sigma> 0 = p"
proof -
  obtain n f where f: "f 0 = p" "f n = p'" "\<forall>i < n. pipe_step fr feed (f i) (f (Suc i))"
    using assms(1) by (metis rtranclp_imp_relpowp relpowp_fun_conv)
  define \<sigma> where "\<sigma> i = (if i < n then f i else p')" for i
  have "pipe_run fr feed \<sigma>"
    unfolding pipe_run_def
  proof
    fix i
    show "pipe_step fr feed (\<sigma> i) (\<sigma> (Suc i)) \<or> pp_exited (\<sigma> i) \<and> \<sigma> (Suc i) = \<sigma> i"
      using f assms(2) by (cases "i < n"; cases "Suc i < n") (auto simp: \<sigma>_def dest: less_antisym)
  qed
  moreover have "often \<sigma> pp_finished ev" "often \<sigma> pp_exited ev" for ev
    unfolding often_def using assms(2,3) by (metis \<sigma>_def le_cases not_le)+
  moreover have "\<sigma> 0 = p" using f by (cases n) (auto simp: \<sigma>_def)
  ultimately show ?thesis unfolding fair_run_def by blast
qed

section \<open>Properties\<close>

text \<open>C15: The threaded pipeline terminates under every fair scheduler. In every infinite run of the two
  spinning threads in which each keeps moving until it is done, and neither reads outdated values for
  ever, the consumer leaves its loop after finitely many steps - with the default ring as with the
  smallest, however often pushes fail on a full ring and pops on an empty one. If the exit test reads
  a current head, the book is then that of the whole feed; otherwise of a prefix of it.\<close>

theorem pipeline_terminates:
  assumes "pipe_run fresh feed \<sigma>" and "fair_run \<sigma>"
    and "pipe_reachable fresh Capacity book feed (\<sigma> 0)" and "cap_ok Capacity"
  shows "\<exists>i. pp_exited (\<sigma> i) \<and> pp_finished (\<sigma> i) \<and> sp_pushed (pp_spsc (\<sigma> i)) = feed
    \<and> pp_book (\<sigma> i) = processAll book (sp_popped (pp_spsc (\<sigma> i)))
    \<and> (fresh \<longrightarrow> pp_book (\<sigma> i) = processAll book feed)"
proof -
  note reach = run_reachable [OF assms(1,3)]
  note inv = pipe_inv_reachable [OF reach assms(4)]
  obtain i where i: "pp_exited (\<sigma> i)" using fair_run_exits [OF assms(1,2) inv] by blast
  have "pp_finished (\<sigma> i)" by (rule exit_finished [OF reach i])
  then show ?thesis using inv [of i] i by (intro exI [of _ i]) (auto simp: pipe_inv_def Let_def)
qed

theorem pipeline_terminates_witness:
  "\<exists>\<sigma> i. pipe_run True ex_pipe_feed \<sigma> \<and> fair_run \<sigma> \<and> \<sigma> 0 = ex_pipe_sent \<and> pp_exited (\<sigma> i)
     \<and> pp_book (\<sigma> i) = processMessage ex_book (ex_add 1 7 chB 100 5)"
proof -
  have cap: "cap_ok 2" by (simp add: cap_ok_def)
  note r = ex_pipe_sent_reachable [of True]
  obtain p' where p': "(pipe_step True ex_pipe_feed)\<^sup>*\<^sup>* ex_pipe_sent p'" "pp_exited p'"
    using pipe_finishes [OF pipe_inv_reachable [OF r cap]] by blast
  have "pipe_reachable True 2 ex_book ex_pipe_feed p'"
    using p'(1) by (induction rule: rtranclp_induct) (auto intro: r pipe_reachable.step)
  then obtain \<sigma> where \<sigma>: "pipe_run True ex_pipe_feed \<sigma>" "fair_run \<sigma>" "\<sigma> 0 = ex_pipe_sent"
    using fair_extension [OF p'(1,2) exit_finished] p'(2) by blast
  from pipeline_terminates [OF \<sigma>(1,2) _ cap, of ex_book] r \<sigma> show ?thesis
    by (auto simp: ex_pipe_feed_def)
qed

end
