(* ===== verification/PcapReplay.thy ===== *)
theory PcapReplay
  imports LineParser
begin

text \<open>
  The capture replayer, \<open>src/pcap_replayer.cpp\<close>: it reads a capture file, takes from every packet the
  first stretch of bytes the validator accepts, falls back to a synthetic feed when it finds nothing,
  and sends each message as a datagram of its expected size. A file is its bytes (\<^const>\<open>None\<close> when it
  cannot be opened); the result of \<open>socket\<close> is an argument; the sleep every 5000 messages, the
  printing and running out of memory for a packet buffer are left out.
\<close>

section \<open>The capture file\<close>

record PcapGlobalHeader =
  pg_magicNumber :: u32
  pg_versionMajor :: u16
  pg_versionMinor :: u16
  pg_thisZone :: i32
  pg_sigFigs :: u32
  pg_snapLen :: u32
  pg_network :: u32

record PcapPacketHeader =
  pk_tsSec :: u32
  pk_tsUsec :: u32
  pk_inclLen :: u32
  pk_origLen :: u32

definition sizeof_PcapGlobalHeader :: nat where "sizeof_PcapGlobalHeader = 4 + 2 + 2 + 4 + 4 + 4 + 4"
definition sizeof_PcapPacketHeader :: nat where "sizeof_PcapPacketHeader = 4 + 4 + 4 + 4"

lemmas pcap_sizes [layout_simps] = sizeof_PcapGlobalHeader_def sizeof_PcapPacketHeader_def

definition read_global :: "byte list \<Rightarrow> PcapGlobalHeader" where
  "read_global bs = \<lparr>pg_magicNumber = field_at 0 4 bs, pg_versionMajor = field_at 4 2 bs,
     pg_versionMinor = field_at 6 2 bs, pg_thisZone = field_at 8 4 bs, pg_sigFigs = field_at 12 4 bs,
     pg_snapLen = field_at 16 4 bs, pg_network = field_at 20 4 bs\<rparr>"

definition read_packet :: "byte list \<Rightarrow> PcapPacketHeader" where
  "read_packet bs = \<lparr>pk_tsSec = field_at 0 4 bs, pk_tsUsec = field_at 4 4 bs,
     pk_inclLen = field_at 8 4 bs, pk_origLen = field_at 12 4 bs\<rparr>"

section \<open>Extraction\<close>

text \<open>The search for a message inside one packet.\<close>

function scan_packet :: "byte list \<Rightarrow> nat \<Rightarrow> WireMessage option" where
  "scan_packet pktData offset =
     (if offset + sizeof_AddOrderMsg \<le> length pktData then
        (case validateAndParse (Some (drop offset pktData)) (length pktData - offset) WireMessage_zero of
           (res, parsedMsg) \<Rightarrow> if res = Valid then Some parsedMsg else scan_packet pktData (offset + 1))
      else None)"
  by pat_completeness auto
termination
  by (relation "measure (\<lambda>(pktData, offset). length pktData - offset)") (auto simp: layout_simps)

declare scan_packet.simps [simp del]

text \<open>The loop over the packets: \<open>read\<close> stops it when a header or the packet itself is cut short.\<close>

function extract_frames :: "byte list \<Rightarrow> WireMessage list" where
  "extract_frames bs =
     (if length bs < sizeof_PcapPacketHeader then []
      else
        let inclLen = unat (pk_inclLen (read_packet bs)); rest = drop sizeof_PcapPacketHeader bs in
        if length rest < inclLen then []
        else
          (if inclLen \<ge> sizeof_WireMessage then
             (case scan_packet (take inclLen rest) 0 of Some m \<Rightarrow> [m] | None \<Rightarrow> [])
           else []) @ extract_frames (drop inclLen rest))"
  by pat_completeness auto
termination
  by (relation "measure length") (auto simp: layout_simps)

declare extract_frames.simps [simp del]

definition magic_ok :: "u32 \<Rightarrow> bool" where
  "magic_ok magic \<longleftrightarrow> magic = 0xa1b2c3d4 \<or> magic = 0xd4c3b2a1"

definition extract_capture :: "byte list option \<Rightarrow> WireMessage list" where
  "extract_capture file =
     (case file of
        None \<Rightarrow> []
      | Some bs \<Rightarrow>
          if length bs \<ge> sizeof_PcapGlobalHeader \<and> magic_ok (pg_magicNumber (read_global bs))
          then extract_frames (drop sizeof_PcapGlobalHeader bs) else [])"

section \<open>The synthetic feed\<close>

text \<open>One iteration of the fallback loop; the result is the message and the two counters.\<close>

definition synth_msg :: "nat \<Rightarrow> u64 \<Rightarrow> u64 \<Rightarrow> WireMessage \<times> u64 \<times> u64" where
  "synth_msg i seq orderId =
     (if i mod 10 < 7 then
        (set_add WireMessage_zero \<lparr>add_msgType = chA, add_seqNo = seq, add_timestampNs = of_nat i * 1000,
           add_orderId = orderId, add_side = (if i mod 2 = 0 then chB else chS),
           add_price = 10000 + of_nat (i mod 20), add_quantity = 100 + of_nat (i mod 50) * 10\<rparr>,
         seq + 1, orderId + 1)
      else if i mod 10 < 9 then
        (set_cancel WireMessage_zero \<lparr>cancel_msgType = chX, cancel_seqNo = seq,
           cancel_timestampNs = of_nat i * 1000,
           cancel_orderId = (if orderId > 1010 then orderId - 5 else 1000), cancel_quantity = 0\<rparr>,
         seq + 1, orderId)
      else
        (set_exec WireMessage_zero \<lparr>exec_msgType = chE, exec_seqNo = seq,
           exec_timestampNs = of_nat i * 1000,
           exec_orderId = (if orderId > 1010 then orderId - 3 else 1000), exec_execQuantity = 50,
           exec_matchPrice = 10005\<rparr>,
         seq + 1, orderId))"

fun synth_loop :: "nat list \<Rightarrow> u64 \<Rightarrow> u64 \<Rightarrow> WireMessage list" where
  "synth_loop [] seq orderId = []"
| "synth_loop (i # is) seq orderId =
     (case synth_msg i seq orderId of (m, seq, orderId) \<Rightarrow> m # synth_loop is seq orderId)"

definition synthetic_feed :: "WireMessage list" where
  "synthetic_feed = synth_loop [0..<50000] 1 1000"

section \<open>Replay\<close>

definition messagesToReplay :: "byte list option \<Rightarrow> WireMessage list" where
  "messagesToReplay file = (if extract_capture file = [] then synthetic_feed else extract_capture file)"

definition datagram :: "WireMessage \<Rightarrow> byte list" where
  "datagram msg = take (expectedSize (msgType msg)) msg"

text \<open>\<open>main\<close>: the exit code and what was sent where. \<open>atoi\<close> is \<open>strtol\<close> truncated.\<close>

definition atoi_u16 :: "string \<Rightarrow> u16" where
  "atoi_u16 s = of_int (strtol10 s)"

definition replay_main ::
  "bool \<Rightarrow> (string \<Rightarrow> byte list option) \<Rightarrow> string list \<Rightarrow> nat \<times> (string \<times> u16 \<times> byte list list) option" where
  "replay_main socket_ok open_file argv =
     (if length argv < 3 then (1, None)
      else
        let targetPort = atoi_u16 (argv ! 2);
            targetIp = (if length argv \<ge> 4 then argv ! 3 else ''127.0.0.1'')
        in if \<not> socket_ok then (1, None)
           else (0, Some (targetIp, targetPort, map datagram (messagesToReplay (open_file (argv ! 1))))))"

section \<open>The search of one packet\<close>

text \<open>Whether the validator accepts the bytes from an offset on, and the first such offset the loop
  tries.\<close>

definition valid_at :: "byte list \<Rightarrow> nat \<Rightarrow> bool" where
  "valid_at pkt off \<longleftrightarrow>
     fst (validateAndParse (Some (drop off pkt)) (length pkt - off) WireMessage_zero) = Valid"

definition message_at :: "byte list \<Rightarrow> nat \<Rightarrow> WireMessage" where
  "message_at pkt off = snd (validateAndParse (Some (drop off pkt)) (length pkt - off) WireMessage_zero)"

definition first_message :: "byte list \<Rightarrow> WireMessage option" where
  "first_message pkt = map_option (message_at pkt) (find (valid_at pkt) [0..<length pkt - 33])"

lemma scan_packet_find:
  "scan_packet pkt off = map_option (message_at pkt) (find (valid_at pkt) [off..<length pkt - 33])"
proof (induction pkt off rule: scan_packet.induct)
  case (1 pkt off)
  show ?case
  proof (cases "off + 34 \<le> length pkt")
    case True
    then have upt: "[off..<length pkt - 33] = off # [Suc off..<length pkt - 33]"
      by (intro upt_conv_Cons) simp
    show ?thesis
      using True "1.IH" by (auto simp: scan_packet.simps [of pkt off] upt valid_at_def message_at_def
          layout_simps split: prod.splits)
  qed (simp add: scan_packet.simps layout_simps)
qed

lemma scan_packet_first: "scan_packet pkt 0 = first_message pkt"
  by (simp add: scan_packet_find first_message_def)

lemma valid_at_code: "valid_at pkt off \<Longrightarrow> off < length pkt \<and> pkt ! off \<in> {chA, chX, chE}"
  using expectedSize_known [of "drop off pkt ! 0"]
  by (auto simp: valid_at_def validateAndParse_def Let_def split: if_splits)

text \<open>The search skips a stretch without type codes, and stops at the first accepted offset.\<close>

lemma find_upt_first:
  "\<forall>j < k. \<not> P j \<Longrightarrow> P k \<Longrightarrow> k < n \<Longrightarrow> find P [0..<n] = Some k"
  by (auto simp: find_Some_iff intro!: exI [of _ k])

lemma first_message_skip:
  assumes "\<forall>j < k. pkt ! j \<notin> {chA, chX, chE}" and "valid_at pkt k" and "k + 34 \<le> length pkt"
  shows "first_message pkt = Some (message_at pkt k)"
proof -
  have "\<forall>j < k. \<not> valid_at pkt j" using assms(1) valid_at_code by blast
  then show ?thesis using find_upt_first [of k "valid_at pkt"] assms(2,3) by (simp add: first_message_def)
qed

lemma first_message_short: "length pkt < 34 \<Longrightarrow> first_message pkt = None"
  by (simp add: first_message_def)

lemma first_message_none:
  assumes "\<forall>j. j + 34 \<le> length pkt \<longrightarrow> pkt ! j \<notin> {chA, chX, chE}"
  shows "first_message pkt = None"
proof -
  have "\<not> valid_at pkt j" if "j < length pkt - 33" for j
    using valid_at_code [of pkt j] assms that by fastforce
  then show ?thesis by (simp add: first_message_def find_None_iff)
qed

lemma message_at_drop:
  assumes "0 < expectedSize (pkt ! off)" and "off + expectedSize (pkt ! off) \<le> length pkt"
  shows "message_at pkt off = take (expectedSize (pkt ! off)) (drop off pkt)
      @ drop (expectedSize (pkt ! off)) WireMessage_zero"
    and "valid_at pkt off \<longleftrightarrow> isValid (message_at pkt off)"
proof -
  let ?k = "expectedSize (pkt ! off)"
  have "off < length pkt" using assms by linarith
  then have hd: "drop off pkt ! 0 = pkt ! off" by simp
  note c = validate_copied [of "drop off pkt" "length pkt - off" WireMessage_zero]
  show "message_at pkt off = take ?k (drop off pkt) @ drop ?k WireMessage_zero"
    using c(1) assms hd by (simp add: message_at_def)
  have "?k \<le> length pkt - off" using assms by linarith
  then show "valid_at pkt off \<longleftrightarrow> isValid (message_at pkt off)"
    using c assms(1) hd check_fields_valid [OF c(2)] by (simp add: message_at_def valid_at_def)
qed

section \<open>The loop over the packets\<close>

text \<open>A packet record as a capture tool writes it.\<close>

definition header_bytes :: "PcapPacketHeader \<Rightarrow> byte list" where
  "header_bytes h = field_bytes 4 (pk_tsSec h) @ field_bytes 4 (pk_tsUsec h)
     @ field_bytes 4 (pk_inclLen h) @ field_bytes 4 (pk_origLen h)"

definition frame_bytes :: "PcapPacketHeader \<times> byte list \<Rightarrow> byte list" where
  "frame_bytes f = header_bytes (fst f) @ snd f"

definition frame_ok :: "PcapPacketHeader \<times> byte list \<Rightarrow> bool" where
  "frame_ok f \<longleftrightarrow> unat (pk_inclLen (fst f)) = length (snd f)"

lemma length_header_bytes [simp]: "length (header_bytes h) = 16"
  by (simp add: header_bytes_def)

lemma read_packet_header: "read_packet (header_bytes h @ rest) = h"
proof -
  have "field_at 0 4 (field_bytes 4 (w :: u32) @ ys) = w" for w ys by (rule field_at_here) simp
  then show ?thesis by (simp add: read_packet_def header_bytes_def layout_simps)
qed

lemma extract_frame:
  assumes "frame_ok f"
  shows "extract_frames (frame_bytes f @ rest)
    = (case first_message (snd f) of Some m \<Rightarrow> [m] | None \<Rightarrow> []) @ extract_frames rest"
proof -
  show ?thesis
    using assms by (subst extract_frames.simps)
      (auto simp: frame_bytes_def read_packet_header frame_ok_def scan_packet_first first_message_short
        Let_def layout_simps)
qed

lemma extract_cut_frame:
  assumes "frame_ok f" and "k < length (frame_bytes f)"
  shows "extract_frames (take k (frame_bytes f)) = []"
proof (cases "k < 16")
  case False
  then have "take k (frame_bytes f) = header_bytes (fst f) @ take (k - 16) (snd f)"
    by (simp add: frame_bytes_def)
  moreover have "k - 16 < length (snd f)" using assms(2) False by (simp add: frame_bytes_def)
  ultimately show ?thesis
    using assms(1) by (subst extract_frames.simps)
      (simp add: read_packet_header frame_ok_def Let_def layout_simps)
qed (simp add: extract_frames.simps layout_simps)

definition option_list :: "'a option \<Rightarrow> 'a list" where
  "option_list x = (case x of None \<Rightarrow> [] | Some y \<Rightarrow> [y])"

lemma extract_frames_concat:
  "\<forall>f \<in> set fs. frame_ok f \<Longrightarrow> extract_frames (concat (map frame_bytes fs) @ rest)
     = concat (map (option_list \<circ> first_message \<circ> snd) fs) @ extract_frames rest"
  by (induction fs) (auto simp: extract_frame option_list_def split: option.splits)

lemma extract_capture_frames:
  assumes "length ghdr = 24" and "magic_ok (pg_magicNumber (read_global ghdr))"
    and "\<forall>f \<in> set fs. frame_ok f"
  shows "extract_capture (Some (ghdr @ concat (map frame_bytes fs) @ rest))
    = concat (map (option_list \<circ> first_message \<circ> snd) fs) @ extract_frames rest"
proof -
  have "pg_magicNumber (read_global (ghdr @ ys)) = pg_magicNumber (read_global ghdr)" for ys
    using assms(1) by (simp add: read_global_def field_at_def)
  then show ?thesis
    using assms extract_frames_concat by (simp add: extract_capture_def layout_simps)
qed

section \<open>Messages in packets\<close>

lemma isValid_code: "isValid m \<Longrightarrow> msgType m \<in> {chA, chX, chE}"
  by (auto simp: isValid_def split: if_splits)

lemma length_datagram: "wire_ok m \<Longrightarrow> length (datagram m) = expectedSize (msgType m)"
  using expectedSize_le [of "msgType m"] by (simp add: datagram_def wire_ok_def layout_simps)

lemma add_frame_found:
  assumes "set hdr \<inter> {chA, chX, chE} = {}" and "wire_ok m" "isValid m" "msgType m = chA"
  shows "first_message (hdr @ datagram m) = Some m"
proof -
  let ?p = "hdr @ datagram m" and ?k = "length hdr"
  have size: "expectedSize (msgType m) = 34" using assms(4) by (simp add: expectedSize_cases)
  have dg: "datagram m = m" using assms(2) by (simp add: datagram_def size wire_ok_def layout_simps)
  have "?p ! ?k = msgType m" by (simp add: dg msgType_def nth_append)
  then have at: "message_at ?p ?k = m" and v: "valid_at ?p ?k"
    using message_at_drop [of ?p ?k] assms(2,3) size
    by (simp_all add: dg wire_ok_def WireMessage_zero_def layout_simps)
  have "\<forall>j < ?k. ?p ! j \<notin> {chA, chX, chE}"
    using assms(1) nth_mem [of _ hdr] by (fastforce simp: nth_append)
  then show ?thesis using first_message_skip [OF _ v] at assms(2) by (simp add: dg wire_ok_def layout_simps)
qed

lemma short_frame_missed:
  assumes "set hdr \<inter> {chA, chX, chE} = {}" and "wire_ok m" "msgType m \<in> {chX, chE}"
  shows "first_message (hdr @ datagram m) = None"
proof (rule first_message_none, intro allI impI)
  fix j assume j: "j + 34 \<le> length (hdr @ datagram m)"
  have "length (datagram m) < 34"
    using length_datagram [OF assms(2)] assms(3) by (auto simp: expectedSize_cases)
  with j have "j < length hdr" by simp
  then show "(hdr @ datagram m) ! j \<notin> {chA, chX, chE}"
    using assms(1) nth_mem [of j hdr] by (fastforce simp: nth_append)
qed

text \<open>The synthetic messages.\<close>

lemma sint_small: "n < 2 ^ 31 \<Longrightarrow> sint (of_nat n :: i32) = int n"
  using sint_of_int_i32 [of "int n"] by simp

lemma sint_small_pos: "0 < n \<Longrightarrow> n < 2 ^ 31 \<Longrightarrow> (0 :: i32) <s of_nat n"
  by (simp add: sless_iff sint_small)

lemma synth_price:
  "0 <s (10000 + of_nat (i mod 20) :: i32)" "0 <s (100 + of_nat (i mod 50) * 10 :: i32)"
proof -
  have "i mod 20 < 20" "i mod 50 < 50" by simp_all
  then have "(0 :: i32) <s of_nat (10000 + i mod 20)" "(0 :: i32) <s of_nat (100 + (i mod 50) * 10)"
    by (intro sint_small_pos; simp)+
  then show "0 <s (10000 + of_nat (i mod 20) :: i32)" "0 <s (100 + of_nat (i mod 50) * 10 :: i32)"
    by (simp_all only: of_nat_add of_nat_mult of_nat_numeral)
qed

lemma synth_msg_ok:
  assumes "synth_msg i seq oid = (m, seq', oid')"
  shows "wire_ok m \<and> isValid m \<and> seqNo m = seq \<and> seq' = seq + 1"
proof -
  have "(0 :: i32) <s 50" "(0 :: i32) <s 10005" by (simp_all add: sless_iff)
  then show ?thesis
    using assms synth_price by (auto simp: synth_msg_def isValid_def sle_iff split: if_splits)
qed

lemma synth_loop_ok:
  "list_all (\<lambda>m. wire_ok m \<and> isValid m) (synth_loop is seq oid)
   \<and> map seqNo (synth_loop is seq oid) = map (\<lambda>k. seq + of_nat k) [0..<length is]"
proof (induction "is" arbitrary: seq oid)
  case (Cons i "is")
  obtain m seq' oid' where m: "synth_msg i seq oid = (m, seq', oid')" by (cases "synth_msg i seq oid")
  have "map (\<lambda>k. seq + of_nat k) [0..<length (i # is)] = seq # map (\<lambda>k. seq + 1 + of_nat k) [0..<length is]"
    by (simp add: upt_conv_Cons map_Suc_upt [symmetric] o_def add.assoc del: upt_Suc)
  then show ?case using synth_msg_ok [OF m] Cons [of "seq + 1" oid'] m by simp
qed simp

lemma valid_message:
  assumes "valid_at pkt k"
  shows "wire_ok (message_at pkt k) \<and> isValid (message_at pkt k)"
proof -
  let ?t = "pkt ! k"
  have v: "validateAndParse (Some (drop k pkt)) (length pkt - k) WireMessage_zero = (Valid, message_at pkt k)"
    using assms by (simp add: valid_at_def message_at_def prod_eq_iff)
  have k: "k < length pkt" "?t \<in> {chA, chX, chE}" using valid_at_code [OF assms] by blast+
  have "\<not> length pkt - k < expectedSize ?t"
    using validate_rejected [of "Some (drop k pkt)" "length pkt - k" WireMessage_zero] v k(1) by auto
  moreover have "0 < expectedSize ?t" using k(2) expectedSize_known by blast
  ultimately show ?thesis
    using message_at_drop [of pkt k] assms expectedSize_le [of ?t] k(1)
    by (simp add: wire_ok_def WireMessage_zero_def layout_simps)
qed

lemma extract_frames_cases:
  "extract_frames bs = [] \<or> 16 \<le> length bs \<and> unat (pk_inclLen (read_packet bs)) \<le> length bs - 16
    \<and> extract_frames bs = option_list (first_message (take (unat (pk_inclLen (read_packet bs))) (drop 16 bs)))
        @ extract_frames (drop (unat (pk_inclLen (read_packet bs))) (drop 16 bs))"
  using extract_frames.simps [of bs]
  by (auto simp: Let_def layout_simps scan_packet_first option_list_def not_less first_message_short
      split: if_splits option.splits)

lemma extract_valid: "m \<in> set (extract_frames bs) \<Longrightarrow> wire_ok m \<and> isValid m"
proof (induction bs rule: extract_frames.induct)
  case (1 bs)
  have first: "wire_ok m \<and> isValid m" if f: "first_message pkt = Some m" for pkt
  proof -
    obtain k where k: "valid_at pkt k" "m = message_at pkt k" using f
      by (auto simp: first_message_def find_Some_iff)
    then show ?thesis
      using valid_message [OF k(1)] by simp
  qed
  show ?case using extract_frames_cases [of bs] "1.prems" "1.IH" first
    by (auto simp: layout_simps option_list_def split: option.splits)
qed

lemma replay_valid:
  assumes "m \<in> set (messagesToReplay file)"
  shows "wire_ok m \<and> isValid m"
proof (cases "extract_capture file = []")
  case True
  then have "m \<in> set synthetic_feed" using assms by (simp add: messagesToReplay_def)
  then show ?thesis using synth_loop_ok [of "[0..<50000]" 1 1000] by (simp add: synthetic_feed_def list_all_iff)
next
  case False
  then have "m \<in> set (extract_capture file)" using assms by (simp add: messagesToReplay_def)
  then show ?thesis using extract_valid by (auto simp: extract_capture_def split: option.splits if_splits)
qed

lemma le_dec_append: "le_dec (xs @ ys) = le_dec xs + 256 ^ length xs * le_dec ys"
  by (induction xs) (simp_all add: algebra_simps)

lemma field_at_high_byte:
  assumes "length xs = 3" and "b \<in> {chA, chX, chE}"
  shows "(0 :: i32) <s of_int (le_dec (xs @ [b]))"
proof -
  have "65 \<le> uint b \<and> uint b \<le> 88" using assms(2) by auto
  moreover have "0 \<le> le_dec xs \<and> le_dec xs < 256 ^ 3" using le_dec_range [of xs] assms(1) by simp
  moreover have "le_dec (xs @ [b]) = le_dec xs + 256 ^ 3 * uint b" using assms(1) by (simp add: le_dec_append)
  ultimately have "0 < le_dec (xs @ [b]) \<and> le_dec (xs @ [b]) < 2 ^ 31" by simp
  then show ?thesis by (simp add: sless_iff sint_of_int_i32)
qed

lemma ipv4_misread:
  assumes "wire_ok m" and "isValid m" and eth: "set eth \<inter> {chA, chX, chE} = {}"
    and len: "length eth = 14" "length ip = 19" "length udp = 8" and price: "(0 :: i32) <s field_at 1 4 m"
  shows "\<exists>e. first_message (eth @ [0x45] @ ip @ udp @ datagram m) = Some e
    \<and> msgType e = chE \<and> isValid e \<and> exec_matchPrice (wire_exec e) = field_at 1 4 m"
proof -
  let ?d = "datagram m" and ?pkt = "eth @ [0x45] @ ip @ udp @ datagram m"
  have known: "msgType m \<in> {chA, chX, chE}" by (rule isValid_code [OF assms(2)])
  have d: "29 \<le> length ?d" using length_datagram [OF assms(1)] known by (auto simp: expectedSize_cases)
  have head: "take 5 ?d = take 5 m" "take (Suc 0) m = [msgType m]" "length m = 34"
    using d assms(1) by (simp_all add: datagram_def msgType_def wire_ok_def layout_simps take_Suc_conv_app_nth)
  define e where "e = [0x45] @ ip @ udp @ take 5 ?d @ drop 33 WireMessage_zero"
  have "?pkt ! 14 = chE" "length ?pkt \<ge> 71" using len d by (simp_all add: nth_append)
  moreover have "take 33 (drop 14 ?pkt) = [0x45] @ ip @ udp @ take 5 ?d" using len by simp
  ultimately have e: "message_at ?pkt 14 = e" and v: "valid_at ?pkt 14 \<longleftrightarrow> isValid e"
    using message_at_drop [of ?pkt 14] by (simp_all add: expectedSize_cases e_def)
  have "exec_execQuantity (wire_exec e) = of_int (le_dec (drop 5 udp @ [msgType m]))"
    using len head d by (simp add: wire_exec_def e_def field_at_def)
  then have qty: "0 <s exec_execQuantity (wire_exec e)"
    using field_at_high_byte [of "drop 5 udp" "msgType m"] known len by simp
  have "exec_matchPrice (wire_exec e) = field_at 1 4 (take 5 m)"
    using len head d by (simp add: wire_exec_def e_def field_at_def)
  also have "\<dots> = field_at 1 4 m" by (simp add: field_at_def drop_take)
  finally have px: "exec_matchPrice (wire_exec e) = field_at 1 4 m" .
  have t: "msgType e = chE" by (simp add: e_def msgType_def)
  then have "isValid e" using qty px price by (simp add: isValid_def)
  moreover have "\<forall>j < 14. ?pkt ! j \<notin> {chA, chX, chE}"
    using eth len nth_mem [of _ eth] by (fastforce simp: nth_append)
  ultimately have "first_message ?pkt = Some e"
    using first_message_skip [of 14 ?pkt] v e \<open>length ?pkt \<ge> 71\<close> by simp
  then show "\<exists>e. first_message ?pkt = Some e \<and> msgType e = chE \<and> isValid e
      \<and> exec_matchPrice (wire_exec e) = field_at 1 4 m"
    using t px \<open>isValid e\<close> by blast
qed

section \<open>Properties\<close>


definition ex_ghdr :: "byte list" where      \<comment> \<open>version 2.4, snap length 65535, Ethernet\<close>
  "ex_ghdr = [0xd4, 0xc3, 0xb2, 0xa1, 2, 0, 4, 0, 0, 0, 0, 0, 0, 0, 0, 0, 0xff, 0xff, 0, 0, 1, 0, 0, 0]"

definition ex_frame :: "byte list \<Rightarrow> PcapPacketHeader \<times> byte list" where
  "ex_frame pkt = (\<lparr>pk_tsSec = 1, pk_tsUsec = 2, pk_inclLen = of_nat (length pkt),
     pk_origLen = of_nat (length pkt)\<rparr>, pkt)"

lemma ex_ghdr_ok: "length ex_ghdr = 24" "magic_ok (pg_magicNumber (read_global ex_ghdr))"
  by code_simp+

lemma frame_ok_ex: "length pkt < 2 ^ 32 \<Longrightarrow> frame_ok (ex_frame pkt)"
  by (simp add: frame_ok_def ex_frame_def unat_of_nat)


text \<open>Every datagram the replayer sends is accepted by the validator of the receiving side, whatever
  the capture file holds: also a foreign or damaged file, and the synthetic feed when there is none.
  The synthetic feed is moreover numbered from 1 without a gap.\<close>

theorem replayed_datagrams_accepted:
  assumes "wire_ok out"
  shows "(\<forall>d \<in> set (map datagram (messagesToReplay file)).
        fst (validateAndParse (Some d) (length d) out) = Valid)
    \<and> map seqNo synthetic_feed = map (\<lambda>k. 1 + of_nat k) [0..<50000]"
proof -
  have "wire_ok m \<and> isValid m" if "m \<in> set (messagesToReplay file)" for m using that by (rule replay_valid)
  then have "fst (validateAndParse (Some (datagram m)) (length (datagram m)) out) = Valid"
    if "m \<in> set (messagesToReplay file)" for m
    using validate_own_bytes [of m out] assms that length_datagram [of m]
    by (auto simp: datagram_def split: prod.splits)
  moreover have "map seqNo synthetic_feed = map (\<lambda>k. 1 + of_nat k) [0..<50000]"
    using synth_loop_ok [of "[0..<50000]" 1 1000] by (simp add: synthetic_feed_def)
  ultimately show ?thesis by simp
qed

theorem replayed_datagrams_accepted_witness:
  "let d = datagram (hd synthetic_feed) in fst (validateAndParse (Some d) (length d) WireMessage_zero) = Valid"
proof -
  have "wire_ok WireMessage_zero" by simp
  note all = replayed_datagrams_accepted [OF this, of None]
  have "length synthetic_feed = 50000"
    using arg_cong [OF conjunct2 [OF all], of length] by (simp only: length_map length_upt diff_zero)
  then have "hd synthetic_feed \<in> set synthetic_feed" by (intro hd_in_set) auto
  moreover have "messagesToReplay None = synthetic_feed" by (simp add: messagesToReplay_def extract_capture_def)
  ultimately show ?thesis using conjunct1 [OF all] by (simp add: Let_def)
qed

text \<open>An IPv4 header is taken for a fill. The IP header of a plain UDP packet begins with \<open>0x45\<close>, the
  code of \<open>'E'\<close>; so in every Ethernet frame that carries a valid message (with a number whose low
  half is positive), unless the Ethernet header already holds a type code, the search stops at
  offset 14 and replays a made-up Execute, its price being that low half. Without an IP header (a
  prefix free of type codes) Adds are found, but a Cancel or Execute of its exact size is missed,
  because the search stops while there is room for an Add.\<close>

theorem headers_misread:
  assumes "wire_ok m" and "isValid m" and "set eth \<inter> {chA, chX, chE} = {}"
  shows "first_message (eth @ datagram m) = (if msgType m = chA then Some m else None)
    \<and> (length eth = 14 \<and> length ip = 19 \<and> length udp = 8 \<and> (0 :: i32) <s field_at 1 4 m \<longrightarrow>
      (\<exists>e. first_message (eth @ [0x45] @ ip @ udp @ datagram m) = Some e
        \<and> msgType e = chE \<and> isValid e \<and> exec_matchPrice (wire_exec e) = field_at 1 4 m))"
proof -
  have "msgType m \<in> {chA, chX, chE}" by (rule isValid_code [OF assms(2)])
  then have "first_message (eth @ datagram m) = (if msgType m = chA then Some m else None)"
    using add_frame_found [OF assms(3,1,2)] short_frame_missed [OF assms(3,1)] by auto
  then show ?thesis using ipv4_misread [OF assms] by blast
qed

text \<open>An Add for a buy of 50 at 10500, sent from 10.0.0.1 to 10.0.0.2, in its Ethernet frame.\<close>

definition ex_ip_rest :: "byte list" where
  "ex_ip_rest = [0, 0, 62, 0, 1, 0, 0, 64, 17, 0, 0, 10, 0, 0, 1, 10, 0, 0, 2]"

theorem headers_misread_witness:
  "first_message (replicate 14 0 @ datagram ex_packet) = Some ex_packet
   \<and> (\<exists>e. first_message (replicate 14 0 @ [0x45] @ ex_ip_rest @ [0x30, 0x39, 0x30, 0x39, 0, 42, 0, 0]
        @ datagram ex_packet) = Some e \<and> exec_matchPrice (wire_exec e) = 100)"
proof -
  have "wire_ok ex_packet" by (simp add: wire_ok_def ex_packet_def layout_simps)
  moreover have "isValid ex_packet" "msgType ex_packet = chA" "(field_at 1 4 ex_packet :: i32) = 100"
    by code_simp+
  ultimately show ?thesis
    using headers_misread [of ex_packet "replicate 14 0" ex_ip_rest "[0x30, 0x39, 0x30, 0x39, 0, 42, 0, 0]"]
    by (auto simp: ex_ip_rest_def sless_iff)
qed

end
