(* ===== verification/Generators.thy ===== *)
theory Generators
  imports Arbitrator
begin

text \<open>
  The three message generators: \<open>generateMockFeed\<close> of \<open>src/main.cpp\<close>, the publisher loop of
  \<open>src/mock_exchange.cpp\<close> and the burst of the producer thread of \<open>src/stream_server.cpp\<close>. The engine
  \<open>std::mt19937_64\<close> with its distributions is a parameter \<open>uniform\<close>: \<open>uniform a b r\<close> is the value that
  \<open>uniform_int_distribution(a, b)\<close> draws in the engine state \<open>r\<close>, with the next state; what the code
  relies on is that the value lies between \<open>a\<close> and \<open>b\<close> (\<open>in_range\<close>). The clock reading of an
  iteration is an argument.
\<close>

type_synonym 'r uniform = "int \<Rightarrow> int \<Rightarrow> 'r \<Rightarrow> int \<times> 'r"

definition in_range :: "'r uniform \<Rightarrow> bool" where
  "in_range uniform \<longleftrightarrow> (\<forall>a b r. a \<le> b \<longrightarrow> a \<le> fst (uniform a b r) \<and> fst (uniform a b r) \<le> b)"

section \<open>State and messages\<close>

text \<open>The local variables of a generator: the engine, the ids of the orders still considered live, the
  next order id and the next sequence number (in the burst both are \<open>g_userSeqNo\<close>).\<close>

record 'r gen =
  g_rng :: 'r
  g_live :: "u64 list"
  g_nextId :: u64
  g_seq :: u64

definition add_msg :: "u64 \<Rightarrow> u64 \<Rightarrow> u64 \<Rightarrow> byte \<Rightarrow> int \<Rightarrow> int \<Rightarrow> WireMessage" where
  "add_msg seq now oid sd px q = set_add WireMessage_zero \<lparr>add_msgType = chA, add_seqNo = seq,
     add_timestampNs = now, add_orderId = oid, add_side = sd, add_price = of_int px,
     add_quantity = of_int q\<rparr>"

definition cancel_msg :: "u64 \<Rightarrow> u64 \<Rightarrow> u64 \<Rightarrow> int \<Rightarrow> WireMessage" where
  "cancel_msg seq now oid q = set_cancel WireMessage_zero \<lparr>cancel_msgType = chX, cancel_seqNo = seq,
     cancel_timestampNs = now, cancel_orderId = oid, cancel_quantity = of_int q\<rparr>"

definition exec_msg :: "u64 \<Rightarrow> u64 \<Rightarrow> u64 \<Rightarrow> int \<Rightarrow> int \<Rightarrow> WireMessage" where
  "exec_msg seq now oid q px = set_exec WireMessage_zero \<lparr>exec_msgType = chE, exec_seqNo = seq,
     exec_timestampNs = now, exec_orderId = oid, exec_execQuantity = of_int q,
     exec_matchPrice = of_int px\<rparr>"

text \<open>\<open>v[idx] = v.back(); v.pop_back()\<close>.\<close>

definition swap_remove :: "'a list \<Rightarrow> nat \<Rightarrow> 'a list" where
  "swap_remove v idx = butlast (v[idx := last v])"

definition pick :: "'r uniform \<Rightarrow> u64 list \<Rightarrow> 'r \<Rightarrow> nat \<times> 'r" where
  "pick uniform live r = (case uniform 0 (int (length live) - 1) r of (idx, r) \<Rightarrow> (nat idx, r))"

section \<open>The generators\<close>

text \<open>One iteration of \<open>generateMockFeed\<close>.\<close>

definition mock_step :: "'r uniform \<Rightarrow> nat \<Rightarrow> 'r gen \<Rightarrow> WireMessage \<times> 'r gen" where
  "mock_step uniform i g =
     (case uniform 0 99 (g_rng g) of (typeRoll, r) \<Rightarrow>
      if 65 \<le> typeRoll \<and> typeRoll < 90 \<and> g_live g \<noteq> [] then
        (case pick uniform (g_live g) r of (idx, r) \<Rightarrow>
         case (if typeRoll mod 2 = 0 then (0, r) else case uniform 10 500 r of (q, r) \<Rightarrow> (q div 2, r)) of (q, r) \<Rightarrow>
           (cancel_msg (g_seq g) (of_nat i * 100) (g_live g ! idx) q,
            g\<lparr>g_rng := r, g_seq := g_seq g + 1,
              g_live := (if q = 0 then swap_remove (g_live g) idx else g_live g)\<rparr>))
      else if 90 \<le> typeRoll \<and> g_live g \<noteq> [] then
        (case pick uniform (g_live g) r of (idx, r) \<Rightarrow>
         case uniform 10 500 r of (q, r) \<Rightarrow>
           (exec_msg (g_seq g) (of_nat i * 100) (g_live g ! idx) (q div 3) 10000,
            g\<lparr>g_rng := r, g_seq := g_seq g + 1\<rparr>))
      else
        (case uniform 0 1 r of (s, r) \<Rightarrow>
         case (if s = 0 then uniform 9950 9999 r else uniform 10000 10049 r) of (px, r) \<Rightarrow>
         case uniform 10 500 r of (q, r) \<Rightarrow>
           (add_msg (g_seq g) (of_nat i * 100) (g_nextId g) (if s = 0 then chB else chS) px q,
            g\<lparr>g_rng := r, g_seq := g_seq g + 1, g_nextId := g_nextId g + 1,
              g_live := g_live g @ [g_nextId g]\<rparr>)))"

text \<open>One iteration of the mock exchange; \<open>nowNs\<close> is the clock.\<close>

definition exchange_step :: "(nat \<Rightarrow> u64) \<Rightarrow> 'r uniform \<Rightarrow> nat \<Rightarrow> 'r gen \<Rightarrow> WireMessage \<times> 'r gen" where
  "exchange_step nowNs uniform i g =
     (case uniform 0 99 (g_rng g) of (action, r) \<Rightarrow>
      if action < 60 \<or> g_live g = [] then
        (case uniform 0 1 r of (s, r) \<Rightarrow>
         case (if s = 0 then uniform 9950 9999 r else uniform 10000 10049 r) of (px, r) \<Rightarrow>
         case uniform 10 500 r of (q, r) \<Rightarrow>
           (add_msg (g_seq g) (nowNs i) (g_nextId g) (if s = 0 then chB else chS) px q,
            g\<lparr>g_rng := r, g_seq := g_seq g + 1, g_nextId := g_nextId g + 1,
              g_live := g_live g @ [g_nextId g]\<rparr>))
      else if action < 85 then
        (case pick uniform (g_live g) r of (idx, r) \<Rightarrow>
         case (if action mod 3 = 0 then (0, r) else case uniform 10 500 r of (q, r) \<Rightarrow> (q div 2, r)) of (q, r) \<Rightarrow>
           (cancel_msg (g_seq g) (nowNs i) (g_live g ! idx) q,
            g\<lparr>g_rng := r, g_seq := g_seq g + 1,
              g_live := (if q = 0 then swap_remove (g_live g) idx else g_live g)\<rparr>))
      else
        (case pick uniform (g_live g) r of (idx, r) \<Rightarrow>
         case uniform 10 500 r of (q, r) \<Rightarrow>
           (exec_msg (g_seq g) (nowNs i) (g_live g ! idx) (q div 4) 10000,
            g\<lparr>g_rng := r, g_seq := g_seq g + 1\<rparr>)))"

text \<open>One iteration of a burst: the order id is the shared counter \<open>g_userSeqNo\<close>, here \<^const>\<open>g_seq\<close>.\<close>

definition burst_step :: "(nat \<Rightarrow> u64) \<Rightarrow> 'r uniform \<Rightarrow> nat \<Rightarrow> 'r gen \<Rightarrow> WireMessage \<times> 'r gen" where
  "burst_step nowNs uniform k g =
     (let basePrice = 10000 in
      case uniform 0 99 (g_rng g) of (action, r) \<Rightarrow>
      if action < 65 \<or> g_live g = [] then
        (case uniform 0 1 r of (s, r) \<Rightarrow>
         case (if s = 0 then uniform (basePrice - 5) (basePrice - 1) r else uniform basePrice (basePrice + 5) r) of
           (px, r) \<Rightarrow>
         case uniform 10 500 r of (q, r) \<Rightarrow>
           (add_msg (g_seq g) (nowNs k) (g_seq g) (if s = 0 then chB else chS) px q,
            g\<lparr>g_rng := r, g_seq := g_seq g + 1, g_live := g_live g @ [g_seq g]\<rparr>))
      else if action < 90 then
        (case pick uniform (g_live g) r of (idx, r) \<Rightarrow>
         case (if action mod 2 = 0 then (0, r) else case uniform 10 500 r of (q, r) \<Rightarrow> (q div 2, r)) of (q, r) \<Rightarrow>
           (cancel_msg (g_seq g) (nowNs k) (g_live g ! idx) q,
            g\<lparr>g_rng := r, g_seq := g_seq g + 1,
              g_live := (if q = 0 then swap_remove (g_live g) idx else g_live g)\<rparr>))
      else
        (case pick uniform (g_live g) r of (idx, r) \<Rightarrow>
         case uniform 10 500 r of (q, r) \<Rightarrow>
           (exec_msg (g_seq g) (nowNs k) (g_live g ! idx) (q div 3) basePrice,
            g\<lparr>g_rng := r, g_seq := g_seq g + 1\<rparr>)))"

text \<open>The loops.\<close>

fun gen_loop :: "(nat \<Rightarrow> 'r gen \<Rightarrow> WireMessage \<times> 'r gen) \<Rightarrow> nat list \<Rightarrow> 'r gen \<Rightarrow> WireMessage list \<times> 'r gen" where
  "gen_loop step [] g = ([], g)"
| "gen_loop step (i # is) g =
     (case step i g of (m, g) \<Rightarrow> case gen_loop step is g of (ms, g) \<Rightarrow> (m # ms, g))"

definition gen_start :: "'r \<Rightarrow> u64 \<Rightarrow> 'r gen" where
  "gen_start rng seq = \<lparr>g_rng = rng, g_live = [], g_nextId = 1, g_seq = seq\<rparr>"

definition generateMockFeed :: "'r uniform \<Rightarrow> 'r \<Rightarrow> nat \<Rightarrow> WireMessage list" where
  "generateMockFeed uniform rng messageCount =
     fst (gen_loop (mock_step uniform) [0..<messageCount] (gen_start rng 1))"

definition exchange_feed :: "(nat \<Rightarrow> u64) \<Rightarrow> 'r uniform \<Rightarrow> 'r \<Rightarrow> nat \<Rightarrow> WireMessage list" where
  "exchange_feed nowNs uniform rng totalPackets =
     fst (gen_loop (exchange_step nowNs uniform) [0..<totalPackets] (gen_start rng 1))"

definition burst_feed :: "(nat \<Rightarrow> u64) \<Rightarrow> 'r uniform \<Rightarrow> 'r \<Rightarrow> u64 \<Rightarrow> nat \<Rightarrow> WireMessage list" where
  "burst_feed nowNs uniform rng userSeqNo burst =
     fst (gen_loop (burst_step nowNs uniform) [0..<burst] (gen_start rng userSeqNo))"

section \<open>What a generator does\<close>

text \<open>The contract of one iteration, for a generator that takes its order ids from the counter
  \<open>nextId\<close>, and what a loop over it produces.\<close>

locale feed_generator =
  fixes step :: "'r uniform \<Rightarrow> nat \<Rightarrow> 'r gen \<Rightarrow> WireMessage \<times> 'r gen"
    and nextId :: "'r gen \<Rightarrow> u64"
  assumes step_valid: "in_range uniform \<Longrightarrow> step uniform i g = (m, g') \<Longrightarrow>
      wire_ok m \<and> isValid m \<and> seqNo m = g_seq g \<and> g_seq g' = g_seq g + 1"
    and step_add: "in_range uniform \<Longrightarrow> step uniform i g = (m, g') \<Longrightarrow> msgType m = chA \<Longrightarrow>
      orderId_of m = nextId g \<and> nextId g' = nextId g + 1 \<and> set (g_live g') = insert (orderId_of m) (set (g_live g))"
    and step_refers: "in_range uniform \<Longrightarrow> step uniform i g = (m, g') \<Longrightarrow> msgType m \<noteq> chA \<Longrightarrow>
      orderId_of m \<in> set (g_live g) \<and> nextId g' - nextId g \<in> {0, 1} \<and> set (g_live g') \<subseteq> set (g_live g)"

text \<open>A feed in which every order is added once, before anything refers to it.\<close>

fun refers_ok :: "u64 set \<Rightarrow> WireMessage list \<Rightarrow> bool" where
  "refers_ok known [] = True"
| "refers_ok known (m # ms) =
     (if msgType m = chA then orderId_of m \<notin> known \<and> refers_ok (insert (orderId_of m) known) ms
      else orderId_of m \<in> known \<and> refers_ok known ms)"

context feed_generator
begin

lemma loop_valid:
  "in_range uniform \<Longrightarrow> gen_loop (step uniform) is g = (ms, g') \<Longrightarrow>
    length ms = length is \<and> list_all (\<lambda>m. wire_ok m \<and> isValid m) ms \<and> numbered (g_seq g) ms
    \<and> g_seq g' = g_seq g + of_nat (length is)"
proof (induction "is" arbitrary: g g' ms)
  case (Cons i "is")
  obtain m g1 where m: "step uniform i g = (m, g1)" by (cases "step uniform i g")
  obtain ms1 g2 where l: "gen_loop (step uniform) is g1 = (ms1, g2)" by (cases "gen_loop (step uniform) is g1")
  show ?case using Cons.IH [OF Cons.prems(1) l] Cons.prems step_valid [OF Cons.prems(1) m] m l by auto
qed simp

text \<open>The ids given so far are a window behind the counter; while it is shorter than \<open>2^64\<close> no id is
  given twice.\<close>

lemma loop_refers:
  "in_range uniform \<Longrightarrow> gen_loop (step uniform) is g = (ms, g') \<Longrightarrow> set (g_live g) \<subseteq> known \<Longrightarrow>
    \<forall>k \<in> known. \<exists>j. 0 < j \<and> j \<le> used \<and> k = nextId g - of_nat j \<Longrightarrow> used + length is < 2 ^ 64 \<Longrightarrow>
    refers_ok known ms"
proof (induction "is" arbitrary: g g' ms known used)
  case (Cons i "is")
  obtain m g1 where m: "step uniform i g = (m, g1)" by (cases "step uniform i g")
  obtain ms1 g2 where l: "gen_loop (step uniform) is g1 = (ms1, g2)" by (cases "gen_loop (step uniform) is g1")
  have ms: "ms = m # ms1" using Cons.prems(2) m l by simp
  have window: "\<exists>j'. 0 < j' \<and> j' \<le> Suc used \<and> k = nextId g1 - of_nat j'"
    if k: "k \<in> known" and d: "nextId g1 - nextId g \<in> {0, 1}" for k
  proof -
    obtain j where j: "0 < j" "j \<le> used" "k = nextId g - of_nat j" using Cons.prems(4) k by blast
    from d consider "nextId g1 = nextId g" | "nextId g1 = nextId g + 1" by (auto simp: diff_eq_eq)
    then show ?thesis
    proof cases
      case 1
      then show ?thesis using j by (intro exI [of _ j]) simp
    next
      case 2
      then show ?thesis using j by (intro exI [of _ "Suc j"]) simp
    qed
  qed
  have len: "Suc used + length is < 2 ^ 64" using Cons.prems(5) by simp
  show ?case
  proof (cases "msgType m = chA")
    case True
    note a = step_add [OF Cons.prems(1) m True]
    have "orderId_of m \<notin> known"
    proof
      assume "orderId_of m \<in> known"
      then obtain j where j: "0 < j" "j \<le> used" "(of_nat j :: u64) = 0" using Cons.prems(4) a by auto
      moreover have "j < 2 ^ 64" using j Cons.prems(5) by simp
      ultimately show False using u64_pos [of j] by simp
    qed
    moreover have "\<forall>k \<in> insert (orderId_of m) known. \<exists>j'. 0 < j' \<and> j' \<le> Suc used \<and> k = nextId g1 - of_nat j'"
      using window a by (auto intro!: exI [of _ 1])
    moreover have "set (g_live g1) \<subseteq> insert (orderId_of m) known" using a Cons.prems(3) by auto
    ultimately show ?thesis using Cons.IH [OF Cons.prems(1) l _ _ len] ms True by simp
  next
    case False
    note a = step_refers [OF Cons.prems(1) m False]
    have "orderId_of m \<in> known" "set (g_live g1) \<subseteq> known" using a Cons.prems(3) by auto
    moreover have "\<forall>k \<in> known. \<exists>j'. 0 < j' \<and> j' \<le> Suc used \<and> k = nextId g1 - of_nat j'"
      using window a by blast
    ultimately show ?thesis using Cons.IH [OF Cons.prems(1) l _ _ len] ms False by simp
  qed
qed simp

lemma feed_correct:
  assumes "in_range uniform" and "n < 2 ^ 64"
  shows "case gen_loop (step uniform) [0..<n] (gen_start rng s) of (ms, g) \<Rightarrow>
    length ms = n \<and> list_all (\<lambda>m. wire_ok m \<and> isValid m) ms \<and> numbered s ms \<and> refers_ok {} ms"
proof -
  obtain ms g where l: "gen_loop (step uniform) [0..<n] (gen_start rng s) = (ms, g)"
    by (cases "gen_loop (step uniform) [0..<n] (gen_start rng s)")
  then show ?thesis
    using loop_valid [OF assms(1) l] loop_refers [OF assms(1) l, of "{}" 0] assms(2)
    by (simp add: gen_start_def)
qed

end

section \<open>The three generators keep the contract\<close>

lemma draw_range: "in_range uniform \<Longrightarrow> uniform a b r = (v, r') \<Longrightarrow> a \<le> b \<Longrightarrow> a \<le> v \<and> v \<le> b"
  by (metis fst_conv in_range_def)

lemma pick_range: "in_range uniform \<Longrightarrow> pick uniform live r = (idx, r') \<Longrightarrow> live \<noteq> [] \<Longrightarrow> idx < length live"
  using draw_range [of uniform 0 "int (length live) - 1" r]
  by (cases live) (auto simp: pick_def split: prod.splits)

lemma set_swap_remove: "v \<noteq> [] \<Longrightarrow> set (swap_remove v idx) \<subseteq> set v"
  using set_update_subset_insert [of v idx "last v"] in_set_butlastD [of _ "v[idx := last v]"]
  by (fastforce simp: swap_remove_def)

lemma i32_pos: "0 < n \<Longrightarrow> n < 2 ^ 31 \<Longrightarrow> (0 :: i32) <s of_int n"
  by (simp add: sless_iff sint_of_int_i32)

lemma i32_nonneg: "0 \<le> n \<Longrightarrow> n < 2 ^ 31 \<Longrightarrow> (0 :: i32) <=s of_int n"
  by (simp add: sle_iff sint_of_int_i32)

lemma orderId_of_set [simp]:
  "orderId_of (set_add m a) = add_orderId a" "orderId_of (set_cancel m c) = cancel_orderId c"
  "orderId_of (set_exec m e) = exec_orderId e"
  using wire_set header_views by metis+

lemma gen_msgs [simp]:
  "msgType (add_msg s now oid sd px q) = chA" "msgType (cancel_msg s now oid q) = chX"
  "msgType (exec_msg s now oid q px) = chE"
  "seqNo (add_msg s now oid sd px q) = s" "seqNo (cancel_msg s now oid q) = s"
  "seqNo (exec_msg s now oid q px) = s"
  "orderId_of (add_msg s now oid sd px q) = oid" "orderId_of (cancel_msg s now oid q) = oid"
  "orderId_of (exec_msg s now oid q px) = oid"
  "wire_ok (add_msg s now oid sd px q)" "wire_ok (cancel_msg s now oid q)"
  "wire_ok (exec_msg s now oid q px)"
  by (simp_all add: add_msg_def cancel_msg_def exec_msg_def)

lemma gen_valid:
  "sd \<in> {chB, chS} \<Longrightarrow> 0 < px \<Longrightarrow> px < 2 ^ 31 \<Longrightarrow> 0 < q \<Longrightarrow> q < 2 ^ 31 \<Longrightarrow> isValid (add_msg s now oid sd px q)"
  "0 \<le> q \<Longrightarrow> q < 2 ^ 31 \<Longrightarrow> isValid (cancel_msg s now oid q)"
  "0 < px \<Longrightarrow> px < 2 ^ 31 \<Longrightarrow> 0 < q \<Longrightarrow> q < 2 ^ 31 \<Longrightarrow> isValid (exec_msg s now oid q px)"
  using i32_pos [of px] i32_pos [of q] i32_nonneg [of q]
  by (auto simp: isValid_def add_msg_def cancel_msg_def exec_msg_def)


definition gen_law :: "('r gen \<Rightarrow> u64) \<Rightarrow> 'r gen \<Rightarrow> WireMessage \<Rightarrow> 'r gen \<Rightarrow> bool" where
  "gen_law nextId g m g' \<longleftrightarrow> wire_ok m \<and> isValid m \<and> seqNo m = g_seq g \<and> g_seq g' = g_seq g + 1
     \<and> (if msgType m = chA then orderId_of m = nextId g \<and> nextId g' = nextId g + 1
           \<and> set (g_live g') = insert (orderId_of m) (set (g_live g))
        else orderId_of m \<in> set (g_live g) \<and> nextId g' - nextId g \<in> {0, 1}
           \<and> set (g_live g') \<subseteq> set (g_live g))"

lemma law_add:
  "oid = nextId g \<Longrightarrow> nextId g' = nextId g + 1 \<Longrightarrow> g_seq g' = g_seq g + 1
    \<Longrightarrow> set (g_live g') = insert oid (set (g_live g)) \<Longrightarrow> sd \<in> {chB, chS}
    \<Longrightarrow> 0 < px \<Longrightarrow> px < 2 ^ 31 \<Longrightarrow> 0 < q \<Longrightarrow> q < 2 ^ 31
    \<Longrightarrow> gen_law nextId g (add_msg (g_seq g) t oid sd px q) g'"
  using gen_valid(1) by (simp add: gen_law_def)

lemma law_cancel:
  "oid \<in> set (g_live g) \<Longrightarrow> nextId g' - nextId g \<in> {0, 1} \<Longrightarrow> g_seq g' = g_seq g + 1
    \<Longrightarrow> set (g_live g') \<subseteq> set (g_live g) \<Longrightarrow> 0 \<le> q \<Longrightarrow> q < 2 ^ 31
    \<Longrightarrow> gen_law nextId g (cancel_msg (g_seq g) t oid q) g'"
  using gen_valid(2) by (simp add: gen_law_def)

lemma law_exec:
  "oid \<in> set (g_live g) \<Longrightarrow> nextId g' - nextId g \<in> {0, 1} \<Longrightarrow> g_seq g' = g_seq g + 1
    \<Longrightarrow> set (g_live g') \<subseteq> set (g_live g) \<Longrightarrow> 0 < px \<Longrightarrow> px < 2 ^ 31 \<Longrightarrow> 0 < q \<Longrightarrow> q < 2 ^ 31
    \<Longrightarrow> gen_law nextId g (exec_msg (g_seq g) t oid q px) g'"
  using gen_valid(3) by (simp add: gen_law_def)

text \<open>The contract of a step as a predicate on its result, with one rule per construct of the code: a
  draw, a pick of a live order, a condition, and the result.\<close>

definition gen_ok :: "('r gen \<Rightarrow> u64) \<Rightarrow> 'r gen \<Rightarrow> WireMessage \<times> 'r gen \<Rightarrow> bool" where
  "gen_ok nextId g x \<longleftrightarrow> gen_law nextId g (fst x) (snd x)"

lemma ok_draw:
  "in_range uniform \<Longrightarrow> a \<le> b \<Longrightarrow> (\<And>v r'. a \<le> v \<Longrightarrow> v \<le> b \<Longrightarrow> gen_ok nextId g (f v r'))
    \<Longrightarrow> gen_ok nextId g (case uniform a b r of (v, r') \<Rightarrow> f v r')"
  by (cases "uniform a b r") (use draw_range [of uniform a b r] in auto)

lemma ok_pick:
  "in_range uniform \<Longrightarrow> live \<noteq> [] \<Longrightarrow> (\<And>idx r'. idx < length live \<Longrightarrow> gen_ok nextId g (f idx r'))
    \<Longrightarrow> gen_ok nextId g (case pick uniform live r of (idx, r') \<Rightarrow> f idx r')"
  by (cases "pick uniform live r") (use pick_range [of uniform live r] in auto)

lemma ok_if:
  "(c \<Longrightarrow> gen_ok nextId g x) \<Longrightarrow> (\<not> c \<Longrightarrow> gen_ok nextId g y) \<Longrightarrow> gen_ok nextId g (if c then x else y)"
  by simp

lemma ok_choose:
  "(c \<Longrightarrow> gen_ok nextId g (case x of (v, r) \<Rightarrow> f v r)) \<Longrightarrow> (\<not> c \<Longrightarrow> gen_ok nextId g (case y of (v, r) \<Rightarrow> f v r))
    \<Longrightarrow> gen_ok nextId g (case (if c then x else y) of (v, r) \<Rightarrow> f v r)"
  by simp

lemma ok_pair: "gen_ok nextId g (f a b) \<Longrightarrow> gen_ok nextId g (case (a, b) of (v, r) \<Rightarrow> f v r)"
  by simp

lemma ok_nested:
  "gen_ok nextId g (case x of (v, r) \<Rightarrow> case h v r of (w, r) \<Rightarrow> f w r)
    \<Longrightarrow> gen_ok nextId g (case (case x of (v, r) \<Rightarrow> h v r) of (w, r) \<Rightarrow> f w r)"
  by (cases x) simp

lemma ok_done: "gen_law nextId g m g' \<Longrightarrow> gen_ok nextId g (m, g')"
  by (simp add: gen_ok_def)

lemmas ok_rules = ok_done ok_choose ok_nested ok_pair ok_if ok_pick ok_draw law_add law_cancel law_exec

lemma mock_law:
  assumes "in_range uniform"
  shows "gen_ok g_nextId g (mock_step uniform i g)"
  unfolding mock_step_def Let_def using set_swap_remove [of "g_live g"]
  by (intro ok_rules assms) simp_all

lemma exchange_law:
  assumes "in_range uniform"
  shows "gen_ok g_nextId g (exchange_step nowNs uniform i g)"
  unfolding exchange_step_def Let_def using set_swap_remove [of "g_live g"]
  by (intro ok_rules assms) simp_all

lemma burst_law:
  assumes "in_range uniform"
  shows "gen_ok g_seq g (burst_step nowNs uniform i g)"
  unfolding burst_step_def Let_def using set_swap_remove [of "g_live g"]
  by (intro ok_rules assms) simp_all

lemma generator_of_ok:
  fixes step :: "'r uniform \<Rightarrow> nat \<Rightarrow> 'r gen \<Rightarrow> WireMessage \<times> 'r gen"
  assumes "\<And>uniform g i. in_range uniform \<Longrightarrow> gen_ok nextId g (step uniform i g)"
  shows "feed_generator step nextId"
proof -
  have law: "gen_law nextId g m g'" if "in_range uniform" "step uniform i g = (m, g')" for uniform i g m g'
    using assms [OF that(1), of g i] that(2) by (simp add: gen_ok_def)
  show ?thesis
  proof unfold_locales
    fix uniform :: "'r uniform" and i g m g'
    assume *: "in_range uniform" "step uniform i g = (m, g')"
    note l = law [OF this, unfolded gen_law_def]
    show "wire_ok m \<and> isValid m \<and> seqNo m = g_seq g \<and> g_seq g' = g_seq g + 1" using l by blast
    show "orderId_of m = nextId g \<and> nextId g' = nextId g + 1
      \<and> set (g_live g') = insert (orderId_of m) (set (g_live g))" if "msgType m = chA"
      using l that by simp
    show "orderId_of m \<in> set (g_live g) \<and> nextId g' - nextId g \<in> {0, 1}
      \<and> set (g_live g') \<subseteq> set (g_live g)" if "msgType m \<noteq> chA"
      using l that by simp
  qed
qed

interpretation mock: feed_generator mock_step g_nextId
  by (rule generator_of_ok [OF mock_law])

interpretation exchange: feed_generator "exchange_step nowNs" g_nextId for nowNs
  by (rule generator_of_ok [OF exchange_law])

interpretation burst: feed_generator "burst_step nowNs" g_seq for nowNs
  by (rule generator_of_ok [OF burst_law])

section \<open>Properties\<close>

text \<open>C24: A generated feed is well formed. Whatever the random engine draws within its ranges and
  whatever the clock reads, each of the three generators delivers the requested number of messages,
  all of them valid, numbered from its start number without a gap, and it adds every order once
  before it cancels or fills it.\<close>

theorem generated_feeds_well_formed:
  fixes rng :: 'r and uniform :: "'r uniform"
  assumes "in_range uniform" and "n < 2 ^ 64"
    and "feed \<in> {generateMockFeed uniform rng n, exchange_feed nowNs uniform rng n}
      \<and> s = 1 \<or> feed = burst_feed nowNs uniform rng s n"
  shows "length feed = n \<and> list_all (\<lambda>m. wire_ok m \<and> isValid m) feed \<and> numbered s feed \<and> refers_ok {} feed"
  using mock.feed_correct [OF assms(1,2), where s = 1 and rng = rng]
    exchange.feed_correct [OF assms(1,2), where s = 1 and rng = rng and nowNs = nowNs]
    burst.feed_correct [OF assms(1,2), where s = s and rng = rng and nowNs = nowNs] assms(3)
  by (auto simp: generateMockFeed_def exchange_feed_def burst_feed_def split: prod.splits)

text \<open>An engine whose state counts the draws.\<close>

definition ex_uniform :: "int uniform" where
  "ex_uniform a b r = (if a \<le> b then a + (37 * r) mod (b - a + 1) else a, r + 1)"

lemma ex_uniform_range: "in_range ex_uniform"
proof -
  have "37 * r mod (b - a + 1) \<le> b - a" if "a \<le> b" for a b r :: int
    using that pos_mod_bound [of "b - a + 1" "37 * r"] by simp
  then have "a + 37 * r mod (b - a + 1) \<le> b" if "a \<le> b" for a b r :: int
    using that by (metis add.commute le_diff_eq)
  then show ?thesis by (simp add: in_range_def ex_uniform_def)
qed

theorem generated_feeds_well_formed_witness:
  "refers_ok {} (generateMockFeed ex_uniform 5 3) \<and> numbered 7 (burst_feed (\<lambda>_. 0) ex_uniform 5 7 3)
   \<and> list_all isValid (exchange_feed (\<lambda>_. 0) ex_uniform 5 3)"
  using generated_feeds_well_formed [OF ex_uniform_range, of 3 "generateMockFeed ex_uniform 5 3" 5 "\<lambda>_. 0" 1]
    generated_feeds_well_formed [OF ex_uniform_range, of 3 "burst_feed (\<lambda>_. 0) ex_uniform 5 7 3" 5 "\<lambda>_. 0" 7]
    generated_feeds_well_formed [OF ex_uniform_range, of 3 "exchange_feed (\<lambda>_. 0) ex_uniform 5 3" 5 "\<lambda>_. 0" 1]
  by (auto simp: list_all_iff)

end
