(* ===== verification/StreamServer.thy ===== *)
theory StreamServer
  imports OrderBook RingBuffer LineParser Generators
begin

text \<open>
  The streaming engine, \<open>src/stream_server.cpp\<close>: the shared globals, the burst producer, the consumer
  with its packet tape and latency window, and the command dispatcher. The operations are functions
  of the shared state; the threads are interleaved by the step relation \<open>srv_step\<close>, one iteration of a
  thread's loop, or one attempt of a spinning push, at a time. (Inside \<open>tryPush\<close> and \<open>tryPop\<close> the
  threads are interleaved in \<open>RingBuffer\<close>; that two threads push at all is shown to be wrong in
  \<open>Pipeline\<close>.) Clock readings, measured latencies and typed lines are arbitrary in every step; the
  files and the random engine are parameters.
\<close>

section \<open>The globals\<close>

record PacketRecord =
  pkt_type :: byte
  pkt_seqNo :: u64
  pkt_timestampNs :: u64
  pkt_orderId :: u64
  pkt_side :: byte
  pkt_price :: i32
  pkt_quantity :: i32

definition PacketRecord_zero :: PacketRecord where
  "PacketRecord_zero = \<lparr>pkt_type = 0, pkt_seqNo = 0, pkt_timestampNs = 0, pkt_orderId = 0,
     pkt_side = 0, pkt_price = 0, pkt_quantity = 0\<rparr>"

definition RECENT_TAPE_SIZE :: nat where "RECENT_TAPE_SIZE = 30"
definition LATENCY_WINDOW :: nat where "LATENCY_WINDOW = 200000"

text \<open>The control points of the threads. The producer is between bursts, has \<open>n\<close> messages of a burst
  to generate, or spins on a push; the commander reads a line, has lines of a file to load, or spins
  on a push; after their loops both are done.\<close>

datatype 'r producer =
    Prod_wait | Prod_burst nat nat "'r gen" | Prod_push WireMessage nat nat "'r gen" | Prod_done

datatype commander =
    Cmd_read | Cmd_load "string list" | Cmd_push WireMessage "string list" | Cmd_done

record 'r server =
  g_ringBuffer :: "WireMessage SPSCRingBuffer"
  g_orderBook :: LimitOrderBook
  g_running :: bool
  g_burstPending :: u64
  g_userSeqNo :: u64
  g_totalIngested :: u64
  g_totalProcessed :: u64
  g_recentTape :: "PacketRecord list"
  g_tapeHead :: u64
  g_latencySamples :: "int list"
  t_producer :: "'r producer"
  t_commander :: commander
  t_localLatency :: "int list"
  t_consumerDone :: bool

definition server_init :: "nat \<Rightarrow> nat \<Rightarrow> nat \<Rightarrow> 'r server" where
  "server_init Capacity Depth TableCapacity =
     \<lparr>g_ringBuffer = ring_new Capacity WireMessage_zero,
      g_orderBook = lob_reset (LimitOrderBook_new Depth TableCapacity), g_running = True,
      g_burstPending = 0, g_userSeqNo = 1, g_totalIngested = 0, g_totalProcessed = 0,
      g_recentTape = replicate RECENT_TAPE_SIZE PacketRecord_zero, g_tapeHead = 0,
      g_latencySamples = [], t_producer = Prod_wait, t_commander = Cmd_read, t_localLatency = [],
      t_consumerDone = False\<rparr>"

section \<open>Operations\<close>

text \<open>One turn of the spin loop of \<open>pushWireMessage\<close>.\<close>

definition push_turn :: "'r server \<Rightarrow> WireMessage \<Rightarrow> 'r server \<times> bool" where
  "push_turn s msg =
     (case tryPush (g_ringBuffer s) msg of (rb, ok) \<Rightarrow>
        (if ok then s\<lparr>g_ringBuffer := rb, g_totalIngested := g_totalIngested s + 1\<rparr>
         else s\<lparr>g_ringBuffer := rb\<rparr>, ok))"

text \<open>The consumer: the tape record of a message, the tape, the latency window.\<close>

definition packet_record :: "WireMessage \<Rightarrow> PacketRecord" where
  "packet_record msg =
     (let pkt = PacketRecord_zero\<lparr>pkt_type := msgType msg, pkt_seqNo := seqNo msg,
            pkt_timestampNs := timestampNs msg\<rparr> in
      if msgType msg = chA then
        pkt\<lparr>pkt_orderId := add_orderId (wire_add msg), pkt_side := add_side (wire_add msg),
            pkt_price := add_price (wire_add msg), pkt_quantity := add_quantity (wire_add msg)\<rparr>
      else if msgType msg = chX then
        pkt\<lparr>pkt_orderId := cancel_orderId (wire_cancel msg), pkt_side := chX, pkt_price := 0,
            pkt_quantity := cancel_quantity (wire_cancel msg)\<rparr>
      else if msgType msg = chE then
        pkt\<lparr>pkt_orderId := exec_orderId (wire_exec msg), pkt_side := chE,
            pkt_price := exec_matchPrice (wire_exec msg),
            pkt_quantity := exec_execQuantity (wire_exec msg)\<rparr>
      else pkt)"

definition tape_write :: "PacketRecord list \<times> u64 \<Rightarrow> PacketRecord \<Rightarrow> PacketRecord list \<times> u64" where
  "tape_write th pkt = (case th of (tape, head) \<Rightarrow>
     (tape[unat (head mod of_nat RECENT_TAPE_SIZE) := pkt], head + 1))"

definition latency_flush :: "int list \<times> int list \<Rightarrow> int list \<times> int list" where
  "latency_flush sl = (case sl of (samples, localBuffer) \<Rightarrow>
     if length localBuffer \<ge> 1000 then
       ((if length samples > LATENCY_WINDOW then drop (length localBuffer) samples else samples) @ localBuffer, [])
     else (samples, localBuffer))"

definition process_packet :: "'r server \<Rightarrow> WireMessage \<Rightarrow> int \<Rightarrow> 'r server" where
  "process_packet s msg elapsedNs =
     (case tape_write (g_recentTape s, g_tapeHead s) (packet_record msg) of (tape, head) \<Rightarrow>
      case latency_flush (g_latencySamples s, t_localLatency s @ [elapsedNs]) of (samples, localBuffer) \<Rightarrow>
        s\<lparr>g_orderBook := processMessage (g_orderBook s) msg,
          g_recentTape := tape, g_tapeHead := head,
          g_totalProcessed := g_totalProcessed s + 1,
          g_latencySamples := samples, t_localLatency := localBuffer\<rparr>)"

definition consumer_turn :: "'r server \<Rightarrow> int \<Rightarrow> 'r server" where
  "consumer_turn s elapsedNs =
     (case tryPop (g_ringBuffer s) of (rb, r) \<Rightarrow>
        (case r of Some msg \<Rightarrow> process_packet (s\<lparr>g_ringBuffer := rb\<rparr>) msg elapsedNs
                 | None \<Rightarrow> s\<lparr>g_ringBuffer := rb\<rparr>))"

text \<open>What the snapshot lists as the tape: the newest packet first.\<close>

definition snapshot_tape :: "PacketRecord list \<Rightarrow> u64 \<Rightarrow> PacketRecord list" where
  "snapshot_tape tape head =
     map (\<lambda>i. tape ! unat ((head - 1 - of_nat i) mod of_nat RECENT_TAPE_SIZE))
       [0..<(if unat head < RECENT_TAPE_SIZE then unat head else RECENT_TAPE_SIZE)]"

text \<open>The producer: taking a pending burst, and one generated message.\<close>

definition take_burst :: "'r \<Rightarrow> 'r server \<Rightarrow> 'r server" where
  "take_burst rng42 s =
     (let burst = g_burstPending s; s = s\<lparr>g_burstPending := 0\<rparr> in
      if burst > 0 then s\<lparr>t_producer := Prod_burst (unat burst) 0 (gen_start rng42 (g_userSeqNo s))\<rparr> else s)"

definition generate_one :: "u64 \<Rightarrow> 'r uniform \<Rightarrow> nat \<Rightarrow> nat \<Rightarrow> 'r gen \<Rightarrow> 'r server \<Rightarrow> 'r server" where
  "generate_one now uniform n k gen s =
     (case burst_step (\<lambda>_. now) uniform k (gen\<lparr>g_seq := g_userSeqNo s\<rparr>) of (msg, gen) \<Rightarrow>
        s\<lparr>g_userSeqNo := g_seq gen, t_producer := Prod_push msg n (k + 1) gen\<rparr>)"

text \<open>The commander: text helpers, the loader and the dispatch of a line.\<close>

definition starts_with :: "string \<Rightarrow> string \<Rightarrow> bool" where      \<comment> \<open>\<open>line.rfind(p, 0) == 0\<close>\<close>
  "starts_with p line \<longleftrightarrow> take (length p) line = p"

definition trim :: "string \<Rightarrow> string" where
  "trim s = rev (dropWhile (\<lambda>c. c = CHR '' '' \<or> (of_char c :: nat) \<in> {13, 10})
     (rev (dropWhile (\<lambda>c. c = CHR '' '' \<or> (of_char c :: nat) = 9) s)))"

definition load_line :: "(string \<Rightarrow> i32) \<Rightarrow> u64 \<Rightarrow> string \<Rightarrow> string list \<Rightarrow> 'r server \<Rightarrow> 'r server" where
  "load_line ticks_of_decimal now line rest s =
     (if comment_line line then s\<lparr>t_commander := Cmd_load rest\<rparr>
      else
        case parseUserLine ticks_of_decimal now line (g_userSeqNo s) WireMessage_zero of (ok, msg) \<Rightarrow>
          s\<lparr>g_userSeqNo := g_userSeqNo s + 1,
            t_commander := (if ok then Cmd_push msg rest else Cmd_load rest)\<rparr>)"

definition loadFileIntoEngine :: "(string \<Rightarrow> string list option) \<Rightarrow> string \<Rightarrow> 'r server \<Rightarrow> 'r server" where
  "loadFileIntoEngine files path s =
     (case files path of None \<Rightarrow> s | Some lines \<Rightarrow> s\<lparr>t_commander := Cmd_load lines\<rparr>)"

definition order_line :: "string \<Rightarrow> bool" where
  "order_line line \<longleftrightarrow> starts_with ''ORDER '' line \<or> starts_with ''order '' line
     \<or> starts_with ''A,'' line \<or> starts_with ''X,'' line \<or> starts_with ''E,'' line
     \<or> starts_with ''A '' line \<or> starts_with ''X '' line \<or> starts_with ''E '' line"

definition example_path :: "string \<Rightarrow> string" where
  "example_path name =
     (if name = ''aapl'' \<or> name = ''aapl_l2_book'' then ''examples/aapl_l2_book.csv''
      else if name = ''nvda'' \<or> name = ''nvda_order_flow'' then ''examples/nvda_order_flow.csv''
      else if name = ''sweep'' \<or> name = ''market_cross_sweep'' then ''examples/market_cross_sweep.csv''
      else name)"

definition reset_server :: "'r server \<Rightarrow> 'r server" where
  "reset_server s =
     s\<lparr>g_orderBook := lob_reset (g_orderBook s), g_tapeHead := 0,
       g_recentTape := replicate RECENT_TAPE_SIZE PacketRecord_zero, g_latencySamples := [],
       g_totalIngested := 0, g_totalProcessed := 0, g_userSeqNo := 1\<rparr>"

definition cross_msg :: "u64 \<Rightarrow> 'r server \<Rightarrow> WireMessage" where
  "cross_msg now s = set_add WireMessage_zero \<lparr>add_msgType = chA, add_seqNo = g_userSeqNo s,
     add_timestampNs = now, add_orderId = 9999999, add_side = chB,
     add_price = (if hasAsks (g_orderBook s) then bestAskPrice (g_orderBook s) else 10000),
     add_quantity = 500\<rparr>"

definition command ::
  "(string \<Rightarrow> i32) \<Rightarrow> (string \<Rightarrow> string list option) \<Rightarrow> u64 \<Rightarrow> string \<Rightarrow> 'r server \<Rightarrow> 'r server" where
  "command ticks_of_decimal files now line s =
     (if line = [] then s
      else if order_line line then
        (case parseUserLine ticks_of_decimal now line (g_userSeqNo s) WireMessage_zero of (ok, msg) \<Rightarrow>
           let s = s\<lparr>g_userSeqNo := g_userSeqNo s + 1\<rparr> in
           if ok then s\<lparr>t_commander := Cmd_push msg []\<rparr> else s)
      else if starts_with ''FILE '' line then loadFileIntoEngine files (trim (drop 5 line)) s
      else if starts_with ''LOAD_EXAMPLE '' line then
        loadFileIntoEngine files (example_path (trim (drop 13 line))) s
      else if starts_with ''BURST'' line then
        s\<lparr>g_burstPending := (if length line > 6 then strtoull10 (drop 6 line) else 100000)\<rparr>
      else if line = ''RESET'' \<or> line = ''CLEAR'' then reset_server s
      else if line = ''CROSS'' then
        s\<lparr>g_userSeqNo := g_userSeqNo s + 1, t_commander := Cmd_push (cross_msg now s) []\<rparr>
      else if line = ''QUIT'' \<or> line = ''EXIT'' then s\<lparr>g_running := False, t_commander := Cmd_done\<rparr>
      else s)"

section \<open>The threads\<close>

text \<open>What a step does to the ring and to the histories is its event: a \<open>RESET\<close>, an attempt to push
  (with the message if it was accepted) or to pop, or nothing.\<close>

datatype event = Ev_none | Ev_reset | Ev_push "WireMessage option" | Ev_pop "WireMessage option"

definition reset_line :: "string \<Rightarrow> bool" where
  "reset_line line \<longleftrightarrow> line = ''RESET'' \<or> line = ''CLEAR''"

text \<open>The parameters of a run: price conversion, files, random engine and its state after seeding.\<close>

record 'r world =
  w_ticks :: "string \<Rightarrow> i32"
  w_files :: "string \<Rightarrow> string list option"
  w_uniform :: "'r uniform"
  w_rng42 :: 'r

inductive srv_step :: "'r world \<Rightarrow> 'r server \<Rightarrow> event \<Rightarrow> 'r server \<Rightarrow> bool" for w where
  read_command: "t_commander s = Cmd_read \<Longrightarrow> g_running s
    \<Longrightarrow> srv_step w s (if reset_line line then Ev_reset else Ev_none) (command (w_ticks w) (w_files w) now line s)"
| end_of_input: "t_commander s = Cmd_read
    \<Longrightarrow> srv_step w s Ev_none (s\<lparr>t_commander := Cmd_done\<rparr>)"
| join_commander: "t_commander s = Cmd_done
    \<Longrightarrow> srv_step w s Ev_none (s\<lparr>g_running := False\<rparr>)"
| load_next: "t_commander s = Cmd_load (line # rest)
    \<Longrightarrow> srv_step w s Ev_none (load_line (w_ticks w) now line rest s)"
| load_done: "t_commander s = Cmd_load []
    \<Longrightarrow> srv_step w s Ev_none (s\<lparr>t_commander := Cmd_read\<rparr>)"
| command_push: "t_commander s = Cmd_push msg rest \<Longrightarrow> push_turn s msg = (s', ok)
    \<Longrightarrow> srv_step w s (Ev_push (if ok then Some msg else None))
        (if ok then s'\<lparr>t_commander := Cmd_load rest\<rparr> else s')"
| burst_begin: "t_producer s = Prod_wait \<Longrightarrow> g_running s
    \<Longrightarrow> srv_step w s Ev_none (take_burst (w_rng42 w) s)"
| burst_message: "t_producer s = Prod_burst (Suc n) k gen
    \<Longrightarrow> srv_step w s Ev_none (generate_one now (w_uniform w) n k gen s)"
| burst_push: "t_producer s = Prod_push msg n k gen \<Longrightarrow> push_turn s msg = (s', ok)
    \<Longrightarrow> srv_step w s (Ev_push (if ok then Some msg else None))
        (if ok then s'\<lparr>t_producer := Prod_burst n k gen\<rparr> else s')"
| burst_end: "t_producer s = Prod_burst 0 k gen
    \<Longrightarrow> srv_step w s Ev_none (s\<lparr>t_producer := Prod_wait\<rparr>)"
| producer_exit: "t_producer s = Prod_wait \<Longrightarrow> \<not> g_running s
    \<Longrightarrow> srv_step w s Ev_none (s\<lparr>t_producer := Prod_done\<rparr>)"
| consume_next: "\<not> t_consumerDone s \<Longrightarrow> g_running s
    \<Longrightarrow> srv_step w s (Ev_pop (snd (tryPop (g_ringBuffer s)))) (consumer_turn s elapsed)"
| consumer_exit: "\<not> g_running s
    \<Longrightarrow> srv_step w s Ev_none (s\<lparr>t_consumerDone := True\<rparr>)"

inductive_cases srv_stepE: "srv_step w s e s'"

text \<open>Reachable states with their events.\<close>

inductive srv_reach :: "'r world \<Rightarrow> nat \<Rightarrow> nat \<Rightarrow> nat \<Rightarrow> 'r server \<Rightarrow> event list \<Rightarrow> bool"
  for w Capacity Depth TableCapacity where
  start: "srv_reach w Capacity Depth TableCapacity (server_init Capacity Depth TableCapacity) []"
| step: "srv_reach w Capacity Depth TableCapacity s es \<Longrightarrow> srv_step w s e s'
    \<Longrightarrow> srv_reach w Capacity Depth TableCapacity s' (es @ [e])"

section \<open>Histories\<close>

text \<open>What was accepted by the ring and taken from it, ever and since the last \<open>RESET\<close>.\<close>

fun accepted_by :: "event \<Rightarrow> WireMessage list" where
  "accepted_by (Ev_push (Some m)) = [m]" | "accepted_by e = []"

fun popped_by :: "event \<Rightarrow> WireMessage list" where
  "popped_by (Ev_pop (Some m)) = [m]" | "popped_by e = []"

definition accepted :: "event list \<Rightarrow> WireMessage list" where
  "accepted es = concat (map accepted_by es)"

definition popped :: "event list \<Rightarrow> WireMessage list" where
  "popped es = concat (map popped_by es)"

definition since_reset :: "event list \<Rightarrow> event list" where
  "since_reset es = rev (takeWhile (\<lambda>e. e \<noteq> Ev_reset) (rev es))"

lemma history_simps [simp]:
  "accepted [] = []" "popped [] = []" "since_reset [] = []"
  "accepted (es @ [e]) = accepted es @ accepted_by e" "popped (es @ [e]) = popped es @ popped_by e"
  "since_reset (es @ [Ev_reset]) = []"
  "e \<noteq> Ev_reset \<Longrightarrow> since_reset (es @ [e]) = since_reset es @ [e]"
  by (simp_all add: accepted_def popped_def since_reset_def)

section \<open>The packet tape\<close>

definition tape_run :: "PacketRecord list \<Rightarrow> PacketRecord list \<times> u64" where
  "tape_run pkts = foldl tape_write (replicate RECENT_TAPE_SIZE PacketRecord_zero, 0) pkts"

lemma tape_run_snoc: "tape_run (pkts @ [p]) = tape_write (tape_run pkts) p"
  by (simp add: tape_run_def)

lemma unat_mod30: "unat ((x :: u64) mod of_nat RECENT_TAPE_SIZE) = unat x mod 30"
  by (simp add: RECENT_TAPE_SIZE_def unat_mod)

text \<open>After \<open>n\<close> writes the head is \<open>n\<close>, and slot \<open>j mod 30\<close> holds record \<open>j\<close> for each of the last 30.\<close>

lemma tape_run_slots:
  "length pkts < 2 ^ 64 \<Longrightarrow> snd (tape_run pkts) = of_nat (length pkts) \<and> length (fst (tape_run pkts)) = 30
    \<and> (\<forall>j < length pkts. length pkts \<le> j + 30 \<longrightarrow> fst (tape_run pkts) ! (j mod 30) = pkts ! j)"
proof (induction pkts rule: rev_induct)
  case Nil
  then show ?case by (simp add: tape_run_def RECENT_TAPE_SIZE_def)
next
  case (snoc p pkts)
  let ?n = "length pkts"
  obtain tape head where t: "tape_run pkts = (tape, head)" by (cases "tape_run pkts")
  have ih: "head = of_nat ?n" "length tape = 30"
    "\<forall>j < ?n. ?n \<le> j + 30 \<longrightarrow> tape ! (j mod 30) = pkts ! j" using snoc t by simp_all
  have idx: "unat (head mod of_nat RECENT_TAPE_SIZE) = ?n mod 30"
    using snoc.prems ih(1) by (simp add: unat_mod30 unat_u64)
  have new: "tape_run (pkts @ [p]) = (tape[?n mod 30 := p], head + 1)"
    by (simp add: tape_run_snoc t tape_write_def idx)
  have "(tape[?n mod 30 := p]) ! (j mod 30) = (pkts @ [p]) ! j" if j: "j < Suc ?n" "Suc ?n \<le> j + 30" for j
  proof (cases "j = ?n")
    case False
    have "?n - j < 30" "j < ?n" using j False by auto
    then have "?n mod 30 \<noteq> j mod 30" by (metis diff_is_0_eq mod_eq_dvd_iff_nat nat_dvd_not_less
        less_imp_le_nat not_less zero_less_diff)
    then show ?thesis using ih(3) \<open>j < ?n\<close> j by (simp add: nth_append)
  qed (simp add: ih(2))
  then show ?case using new ih by simp
qed

lemma take_rev_map: "take k (rev xs) = map (\<lambda>i. xs ! (length xs - 1 - i)) [0..<min k (length xs)]"
  by (rule nth_equalityI) (auto simp: rev_nth)

lemma snapshot_tape_recent:
  assumes "length pkts < 2 ^ 64"
  shows "snapshot_tape (fst (tape_run pkts)) (snd (tape_run pkts)) = take 30 (rev pkts)"
proof -
  let ?n = "length pkts" and ?tape = "fst (tape_run pkts)"
  note t = tape_run_slots [OF assms]
  have head: "unat (snd (tape_run pkts)) = ?n" using t assms by (simp add: unat_u64)
  have pos: "unat (snd (tape_run pkts) - 1 - of_nat i) = ?n - 1 - i" if "i < ?n" for i
  proof -
    have "snd (tape_run pkts) - 1 - of_nat i = of_nat (?n - 1 - i)" using t that by (simp add: of_nat_diff)
    then show ?thesis using assms by (simp add: unat_u64)
  qed
  have "?tape ! unat ((snd (tape_run pkts) - 1 - of_nat i) mod of_nat RECENT_TAPE_SIZE) = pkts ! (?n - 1 - i)"
    if i: "i < min 30 ?n" for i
  proof -
    have "\<forall>j < ?n. ?n \<le> j + 30 \<longrightarrow> ?tape ! (j mod 30) = pkts ! j" using t by blast
    moreover have "?n - 1 - i < ?n" "?n \<le> ?n - 1 - i + 30" using i by auto
    ultimately have "?tape ! ((?n - 1 - i) mod 30) = pkts ! (?n - 1 - i)" by blast
    then show ?thesis using pos [of i] i by (simp add: unat_mod30)
  qed
  then show ?thesis
    by (auto simp: snapshot_tape_def take_rev_map head RECENT_TAPE_SIZE_def min_def)
qed

section \<open>The latency window\<close>

definition latency_ok :: "int list \<Rightarrow> int list \<Rightarrow> bool" where
  "latency_ok samples localBuffer \<longleftrightarrow> length samples \<le> LATENCY_WINDOW + 1000 \<and> length localBuffer < 1000"

lemma latency_ok_flush:
  assumes "latency_ok samples localBuffer" and "latency_flush (samples, localBuffer @ [x]) = (samples', local')"
  shows "latency_ok samples' local' \<and> (\<exists>old. samples @ localBuffer @ [x] = old @ samples' @ local')"
proof (cases "length (localBuffer @ [x]) \<ge> 1000")
  case True
  then have len: "length (localBuffer @ [x]) = 1000" using assms(1) by (simp add: latency_ok_def)
  have "\<exists>old. samples @ localBuffer @ [x] = old @ drop k samples @ localBuffer @ [x]" for k
    by (intro exI [of _ "take k samples"]) simp
  then show ?thesis using assms len
    by (auto simp: latency_flush_def latency_ok_def LATENCY_WINDOW_def split: if_splits)
next
  case False
  then show ?thesis using assms by (auto simp: latency_flush_def latency_ok_def)
qed

section \<open>The book and its reset\<close>

lemma insert_from_capacity [simp]:
  "table_capacity (fst (insert_from oid sd px qty ts start probe t)) = table_capacity t"
proof (induction oid sd px qty ts start probe t rule: insert_from.induct)
  case (1 oid sd px qty ts start probe t)
  then show ?case by (simp add: insert_from.simps [of oid sd px qty ts start probe t] Let_def)
qed

lemma capacity_apply [simp]: "lob_orderTable (apply_side b sd px dq dc) = lob_orderTable b"
  by (rule apply_side_frame)

lemma capacity_remaining [simp]:
  "table_capacity (lob_orderTable (set_remaining b p q d)) = table_capacity (lob_orderTable b)"
  by (simp add: set_remaining_def Let_def)

lemma capacity_handlers [simp]:
  "table_capacity (lob_orderTable (processAdd b a)) = table_capacity (lob_orderTable b)"
  "table_capacity (lob_orderTable (processCancel b c)) = table_capacity (lob_orderTable b)"
  "table_capacity (lob_orderTable (processExecute b e)) = table_capacity (lob_orderTable b)"
proof -
  have ins: "table_capacity t' = table_capacity t" if "table_insert t oid sd px qty ts = (t', r)"
    for t t' :: OrderTable and oid sd px qty ts r
    using insert_from_capacity that by (metis fst_conv table_insert_def)
  show "table_capacity (lob_orderTable (processAdd b a)) = table_capacity (lob_orderTable b)"
    by (auto simp: processAdd_def Let_def dest: ins split: prod.splits option.splits)
  show "table_capacity (lob_orderTable (processCancel b c)) = table_capacity (lob_orderTable b)"
    by (auto simp: processCancel_def Let_def split: option.splits)
  show "table_capacity (lob_orderTable (processExecute b e)) = table_capacity (lob_orderTable b)"
    by (auto simp: processExecute_def Let_def split: option.splits)
qed

lemma lob_reset_determined:
  assumes "table_capacity (lob_orderTable b) = table_capacity (lob_orderTable b')"
    and "length (lob_bids b) = length (lob_bids b')" and "length (lob_asks b) = length (lob_asks b')"
  shows "lob_reset b = lob_reset b'"
proof -
  have "map (\<lambda>_. OrderRecord_zero) xs = replicate (length xs) OrderRecord_zero" for xs :: "OrderRecord list"
    by (simp add: map_replicate_const)
  then have "table_clear (lob_orderTable b) = table_clear (lob_orderTable b')"
    using assms(1) by (simp add: table_clear_def)
  then show ?thesis using assms by (simp add: lob_reset_def)
qed

lemma lob_reset_all: "lob_inv b \<Longrightarrow> lob_reset (processAll b ms) = lob_reset b"
proof (induction ms arbitrary: b)
  case (Cons m ms)
  have "table_capacity (lob_orderTable (processMessage b m)) = table_capacity (lob_orderTable b)"
    by (simp add: processMessage_def Let_def track_seq_frame)
  then have "lob_reset (processMessage b m) = lob_reset b"
    using processMessage_depth [OF Cons.prems] by (intro lob_reset_determined) auto
  then show ?case using Cons.IH [OF processMessage_inv [OF Cons.prems]] by simp
qed simp

lemma lob_reset_new [simp]: "lob_reset (LimitOrderBook_new Depth n) = LimitOrderBook_new Depth n"
  unfolding LimitOrderBook_new_def by (rule lob_reset_determined) (simp_all add: lob_reset_def table_clear_def)

section \<open>The state is determined by the history\<close>

definition server_inv :: "nat \<Rightarrow> nat \<Rightarrow> nat \<Rightarrow> 'r server \<Rightarrow> event list \<Rightarrow> bool" where
  "server_inv Capacity Depth TableCapacity s es \<longleftrightarrow>
     ring_inv (g_ringBuffer s) \<and> ring_capacity (g_ringBuffer s) = Capacity
     \<and> accepted es = popped es @ ring_items (g_ringBuffer s)
     \<and> g_orderBook s = processAll (LimitOrderBook_new Depth TableCapacity) (popped (since_reset es))
     \<and> g_totalProcessed s = of_nat (length (popped (since_reset es)))
     \<and> g_totalIngested s = of_nat (length (accepted (since_reset es)))
     \<and> (g_recentTape s, g_tapeHead s) = tape_run (map packet_record (popped (since_reset es)))
     \<and> latency_ok (g_latencySamples s) (t_localLatency s)"

text \<open>The part of the state the invariant reads.\<close>

definition server_data where
  "server_data s = (g_ringBuffer s, g_orderBook s, g_totalIngested s, g_totalProcessed s,
     g_recentTape s, g_tapeHead s, g_latencySamples s, t_localLatency s)"

lemma server_data_quiet [simp]:
  "server_data (s\<lparr>t_commander := c\<rparr>) = server_data s" "server_data (s\<lparr>t_producer := p\<rparr>) = server_data s"
  "server_data (s\<lparr>t_consumerDone := d\<rparr>) = server_data s" "server_data (s\<lparr>g_running := b\<rparr>) = server_data s"
  "server_data (s\<lparr>g_userSeqNo := n\<rparr>) = server_data s" "server_data (s\<lparr>g_burstPending := n\<rparr>) = server_data s"
  by (simp_all add: server_data_def)

lemma server_data_ops [simp]:
  "server_data (loadFileIntoEngine files path s) = server_data s"
  "server_data (load_line f now line rest s) = server_data s"
  "server_data (take_burst r s) = server_data s"
  "server_data (generate_one now uniform n k gen s) = server_data s"
  by (simp_all add: loadFileIntoEngine_def load_line_def take_burst_def generate_one_def Let_def
      split: option.split prod.split)

lemma inv_quiet:
  "server_inv N D T s es \<Longrightarrow> server_data s' = server_data s \<Longrightarrow> server_inv N D T s' (es @ [Ev_none])"
  by (simp add: server_inv_def server_data_def)

lemma inv_data: "server_inv N D T s es \<Longrightarrow> server_data s' = server_data s \<Longrightarrow> server_inv N D T s' es"
  by (simp add: server_inv_def server_data_def)

lemma inv_start: "cap_ok N \<Longrightarrow> server_inv N D T (server_init N D T) []"
  using ring_inv_new [of N WireMessage_zero] ring_items_at [OF ring_new_at [of N WireMessage_zero]]
  by (simp add: server_inv_def server_init_def tape_run_def latency_ok_def) (simp add: ring_new_def)

lemma push_turn_data:
  assumes "push_turn s m = (s', ok)"
  obtains rb where "tryPush (g_ringBuffer s) m = (rb, ok)"
    "server_data s' = server_data (s\<lparr>g_ringBuffer := rb,
       g_totalIngested := g_totalIngested s + (if ok then 1 else 0)\<rparr>)"
proof -
  obtain rb k where rb: "tryPush (g_ringBuffer s) m = (rb, k)" by (cases "tryPush (g_ringBuffer s) m")
  then have "k = ok" "server_data s' = server_data (s\<lparr>g_ringBuffer := rb,
       g_totalIngested := g_totalIngested s + (if ok then 1 else 0)\<rparr>)"
    using assms by (auto simp: push_turn_def server_data_def)
  with rb that show ?thesis by simp
qed

lemma inv_push:
  assumes inv: "server_inv N D T s es" and push: "push_turn s m = (s', ok)"
    and s'': "server_data s'' = server_data s'"
  shows "server_inv N D T s'' (es @ [Ev_push (if ok then Some m else None)])"
proof -
  obtain rb where rb: "tryPush (g_ringBuffer s) m = (rb, ok)"
    and data: "server_data s' = server_data (s\<lparr>g_ringBuffer := rb,
       g_totalIngested := g_totalIngested s + (if ok then 1 else 0)\<rparr>)"
    by (rule push_turn_data [OF push])
  have "ring_inv (g_ringBuffer s)" using inv by (simp add: server_inv_def)
  from ring.push_law [OF this rb] show ?thesis
    using inv data s'' by (simp add: server_inv_def server_data_def)
qed

lemma inv_pop:
  assumes inv: "server_inv N D T s es"
  shows "server_inv N D T (consumer_turn s elapsed) (es @ [Ev_pop (snd (tryPop (g_ringBuffer s)))])"
proof -
  obtain rb r where pop: "tryPop (g_ringBuffer s) = (rb, r)" by (cases "tryPop (g_ringBuffer s)")
  have "ring_inv (g_ringBuffer s)" using inv by (simp add: server_inv_def)
  note law = ring.pop_law [OF this pop]
  show ?thesis
  proof (cases r)
    case None
    then show ?thesis using inv law pop by (simp add: consumer_turn_def server_inv_def)
  next
    case (Some m)
    obtain samples localBuffer where fl:
      "latency_flush (g_latencySamples s, t_localLatency s @ [elapsed]) = (samples, localBuffer)"
      by (cases "latency_flush (g_latencySamples s, t_localLatency s @ [elapsed])")
    have lat: "latency_ok samples localBuffer"
      using latency_ok_flush [OF _ fl] inv by (simp add: server_inv_def)
    have tape: "tape_run (map packet_record (popped (since_reset es)) @ [packet_record m])
      = tape_write (g_recentTape s, g_tapeHead s) (packet_record m)"
      using inv by (simp add: tape_run_snoc server_inv_def)
    show ?thesis
      using inv law pop Some fl lat tape
      by (simp add: consumer_turn_def process_packet_def server_inv_def processAll_def split: prod.split)
  qed
qed

lemma inv_reset:
  assumes inv: "server_inv N D T s es" and "0 < D" "cap_ok T"
  shows "server_inv N D T (reset_server s) (es @ [Ev_reset])"
proof -
  have "lob_reset (g_orderBook s) = LimitOrderBook_new D T"
    using inv lob_reset_all [OF lob_inv_new [OF assms(2,3)]] by (simp add: server_inv_def)
  then show ?thesis
    using inv by (simp add: server_inv_def reset_server_def tape_run_def latency_ok_def)
qed

lemma data_if: "server_data x = d \<Longrightarrow> server_data y = d \<Longrightarrow> server_data (if c then x else y) = d"
  by simp

lemma reset_line_words:
  "\<not> order_line ''RESET''" "\<not> starts_with ''FILE '' ''RESET''" "\<not> starts_with ''LOAD_EXAMPLE '' ''RESET''"
  "\<not> starts_with ''BURST'' ''RESET''"
  "\<not> order_line ''CLEAR''" "\<not> starts_with ''FILE '' ''CLEAR''" "\<not> starts_with ''LOAD_EXAMPLE '' ''CLEAR''"
  "\<not> starts_with ''BURST'' ''CLEAR''"
  by code_simp+

lemma command_data:
  "server_data (command f files now line s)
    = (if reset_line line then server_data (reset_server s) else server_data s)"
proof (cases "reset_line line")
  case True
  then have "line \<noteq> []" "\<not> order_line line" "\<not> starts_with ''FILE '' line"
    "\<not> starts_with ''LOAD_EXAMPLE '' line" "\<not> starts_with ''BURST'' line"
    by (auto simp: reset_line_words reset_line_def)
  then have "command f files now line s = reset_server s"
    using True unfolding command_def reset_line_def by (simp only: if_True if_False)
  then show ?thesis using True by simp
next
  case False
  then have "\<not> (line = ''RESET'' \<or> line = ''CLEAR'')" by (simp add: reset_line_def)
  then have "server_data (command f files now line s) = server_data s"
    unfolding command_def by (simp only: if_False) (intro data_if; simp add: Let_def split: prod.split)
  then show ?thesis using False by simp
qed

lemma inv_step:
  assumes "srv_step w s e s'" and inv: "server_inv N D T s es" and "0 < D" "cap_ok T"
  shows "server_inv N D T s' (es @ [e])"
  using assms(1)
proof cases
  case (read_command line now)
  then show ?thesis
    using inv_data [OF inv_reset [OF inv assms(3,4)], of s'] inv_quiet [OF inv, of s']
      command_data [of "w_ticks w" "w_files w" now line s]
    by (simp split: if_splits)
next
  case (command_push msg rest s1 ok)
  then show ?thesis using inv_push [OF inv command_push(4), of s'] by auto
next
  case (burst_push msg n k gen s1 ok)
  then show ?thesis using inv_push [OF inv burst_push(4), of s'] by auto
next
  case (consume_next elapsed)
  then show ?thesis using inv_pop [OF inv] by simp
qed (use inv_quiet [OF inv, of s'] in simp_all)

lemma inv_reach:
  assumes "srv_reach w N D T s es" and "cap_ok N" "0 < D" "cap_ok T"
  shows "server_inv N D T s es"
  using assms(1) by induction (use assms(2-4) inv_start inv_step in auto)

section \<open>Progress and shutdown\<close>

text \<open>After a successful pop there is room for the pending push.\<close>

lemma pop_makes_room:
  assumes "ring_inv rb" and "tryPop rb = (rb', r)" and "0 < ring_capacity rb"
  shows "snd (tryPush rb' x)"
proof -
  note pop = ring.pop_law [OF assms(1,2)]
  obtain rb2 ok where p: "tryPush rb' x = (rb2, ok)" by (cases "tryPush rb' x")
  have "length (ring_items rb') < ring_capacity rb'"
    using pop assms(3) ring.items_bound [OF assms(1)] by (cases r) auto
  then show ?thesis using ring.push_law [OF _ p] pop p by simp
qed

lemma consumer_turn_threads [simp]:
  "t_producer (consumer_turn s x) = t_producer s" "t_commander (consumer_turn s x) = t_commander s"
  "g_running (consumer_turn s x) = g_running s" "t_consumerDone (consumer_turn s x) = t_consumerDone s"
  "g_ringBuffer (consumer_turn s x) = fst (tryPop (g_ringBuffer s))"
  by (auto simp: consumer_turn_def process_packet_def split: prod.split option.split)

text \<open>The hang: everything has stopped except a producer spinning on a full ring.\<close>

definition hung :: "'r server \<Rightarrow> bool" where
  "hung s \<longleftrightarrow> (\<exists>msg n k gen. t_producer s = Prod_push msg n k gen)
     \<and> ring_inv (g_ringBuffer s) \<and> length (ring_items (g_ringBuffer s)) = ring_capacity (g_ringBuffer s)
     \<and> \<not> g_running s \<and> t_commander s = Cmd_done \<and> t_consumerDone s"

lemma hung_step:
  assumes "hung s" and "srv_step w s e s'"
  shows "hung s'"
  using assms(2)
proof cases
  case (burst_push msg n k gen s1 ok)
  obtain rb where rb: "tryPush (g_ringBuffer s) msg = (rb, ok)"
    and s1: "\<not> ok \<Longrightarrow> s1 = s\<lparr>g_ringBuffer := rb\<rparr>"
    using burst_push(4) by (auto simp: push_turn_def split: prod.splits)
  have "ring_inv (g_ringBuffer s)" using assms(1) by (simp add: hung_def)
  from ring.push_law [OF this rb] show ?thesis
    using assms(1) burst_push s1 by (auto simp: hung_def)
qed (use assms(1) in \<open>auto simp: hung_def\<close>)

lemma generate_one_effect:
  "\<exists>msg gen'. t_producer (generate_one now uniform n k gen s) = Prod_push msg n (k + 1) gen'"
  "g_ringBuffer (generate_one now uniform n k gen s) = g_ringBuffer s"
  "g_running (generate_one now uniform n k gen s) = g_running s"
  "t_commander (generate_one now uniform n k gen s) = t_commander s"
  by (auto simp: generate_one_def split: prod.split)

text \<open>A burst fills the ring while nobody consumes.\<close>

lemma reach_snoc: "srv_reach w N D T s es \<Longrightarrow> srv_step w s e s' \<Longrightarrow> \<exists>es'. srv_reach w N D T s' es'"
  using srv_reach.step by blast

lemma burst_line:
  "command f files now ''BURST'' s = s\<lparr>g_burstPending := 100000\<rparr>"
proof -
  have "\<not> order_line ''BURST''" "\<not> starts_with ''FILE '' ''BURST''"
    "\<not> starts_with ''LOAD_EXAMPLE '' ''BURST''" "starts_with ''BURST'' ''BURST''" by code_simp+
  then show ?thesis by (simp add: command_def)
qed

lemma quit_line: "command f files now ''QUIT'' s = s\<lparr>g_running := False, t_commander := Cmd_done\<rparr>"
proof -
  have "\<not> order_line ''QUIT''" "\<not> starts_with ''FILE '' ''QUIT''"
    "\<not> starts_with ''LOAD_EXAMPLE '' ''QUIT''" "\<not> starts_with ''BURST'' ''QUIT''"
    "''QUIT'' \<noteq> ''RESET''" "''QUIT'' \<noteq> ''CLEAR''" "''QUIT'' \<noteq> ''CROSS''" by code_simp+
  then show ?thesis by (simp add: command_def)
qed

lemma burst_fills:
  assumes N: "cap_ok N" "N < 100000" and D: "0 < D" "cap_ok T"
  shows "j \<le> N \<Longrightarrow> \<exists>s es gen k. srv_reach w N D T s es \<and> t_producer s = Prod_burst (100000 - j) k gen
    \<and> g_running s \<and> t_commander s = Cmd_read \<and> length (ring_items (g_ringBuffer s)) = j"
proof (induction j)
  case 0
  let ?s0 = "server_init N D T :: 'a server"
  let ?s1 = "?s0\<lparr>g_burstPending := 100000\<rparr>"
  have "\<exists>es. srv_reach w N D T ?s1 es"
    using reach_snoc [OF srv_reach.start read_command [of ?s0 w "''BURST''" 0]]
    by (simp add: burst_line) (simp add: server_init_def)
  then obtain es1 where "srv_reach w N D T ?s1 es1" by blast
  moreover have "t_producer ?s1 = Prod_wait" "g_running ?s1" by (simp_all add: server_init_def)
  ultimately obtain es2 where r: "srv_reach w N D T (take_burst (w_rng42 w) ?s1) es2"
    using reach_snoc burst_begin by blast
  have "ring_items (ring_new N WireMessage_zero) = []"
    using ring_items_at [OF ring_new_at [OF N(1)]] by simp
  then show ?case
    using r by (intro exI [of _ "take_burst (w_rng42 w) ?s1"] exI [of _ es2])
      (simp add: take_burst_def Let_def server_init_def)
next
  case (Suc j)
  then obtain s es gen k where s: "srv_reach w N D T s es" "t_producer s = Prod_burst (100000 - j) k gen"
    "g_running s" "t_commander s = Cmd_read" "length (ring_items (g_ringBuffer s)) = j" by auto
  have n: "100000 - j = Suc (100000 - Suc j)" using Suc.prems N(2) by simp
  let ?s1 = "generate_one 0 (w_uniform w) (100000 - Suc j) k gen s"
  obtain es1 where r1: "srv_reach w N D T ?s1 es1"
    using reach_snoc [OF s(1) burst_message] s(2) n by metis
  obtain msg k' gen' where p1: "t_producer ?s1 = Prod_push msg (100000 - Suc j) k' gen'"
    using generate_one_effect(1) by blast
  have same: "g_ringBuffer ?s1 = g_ringBuffer s" "g_running ?s1" "t_commander ?s1 = Cmd_read"
    using s by (simp_all add: generate_one_effect)
  obtain s2 ok where push: "push_turn ?s1 msg = (s2, ok)" by (cases "push_turn ?s1 msg")
  obtain rb where rb: "tryPush (g_ringBuffer s) msg = (rb, ok)"
    and s2: "ok \<Longrightarrow> s2 = ?s1\<lparr>g_ringBuffer := rb, g_totalIngested := g_totalIngested ?s1 + 1\<rparr>"
    using push same(1) by (auto simp: push_turn_def split: prod.splits)
  have "ring_inv (g_ringBuffer s)" "ring_capacity (g_ringBuffer s) = N"
    using inv_reach [OF s(1) N(1) D] by (simp_all add: server_inv_def)
  note law = ring.push_law [OF this(1) rb]
  have ok: "ok" "length (ring_items rb) = Suc j" using law Suc.prems s(5) \<open>_ = N\<close> by auto
  obtain es2 where "srv_reach w N D T (s2\<lparr>t_producer := Prod_burst (100000 - Suc j) k' gen'\<rparr>) es2"
    using reach_snoc [OF r1 burst_push [OF p1 push]] ok(1) by auto
  then show ?case using ok same s2 by fastforce
qed

lemma reach_hung:
  assumes N: "cap_ok N" "N < 100000" and D: "0 < D" "cap_ok T"
  shows "\<exists>s es. srv_reach w N D T s es \<and> hung s"
proof -
  obtain s es gen k where s: "srv_reach w N D T s es" "t_producer s = Prod_burst (100000 - N) k gen"
    "g_running s" "t_commander s = Cmd_read" "length (ring_items (g_ringBuffer s)) = N"
    using burst_fills [OF assms le_refl] by blast
  have n: "100000 - N = Suc (99999 - N)" using N(2) by simp
  let ?s1 = "generate_one 0 (w_uniform w) (99999 - N) k gen s"
  obtain es1 where r1: "srv_reach w N D T ?s1 es1"
    using reach_snoc [OF s(1) burst_message] s(2) n by metis
  have s1: "\<exists>msg n k gen. t_producer ?s1 = Prod_push msg n k gen" "g_ringBuffer ?s1 = g_ringBuffer s"
    "g_running ?s1" "t_commander ?s1 = Cmd_read"
    using s generate_one_effect(1) [of 0 "w_uniform w" "99999 - N" k gen s] by (auto simp: generate_one_effect(2-))
  let ?s2 = "?s1\<lparr>g_running := False, t_commander := Cmd_done\<rparr>"
  obtain es2 where "srv_reach w N D T ?s2 es2"
    using reach_snoc [OF r1 read_command [OF s1(4,3), of w "''QUIT''" 0]] by (auto simp: quit_line)
  then obtain es3 where r3: "srv_reach w N D T (?s2\<lparr>t_consumerDone := True\<rparr>) es3"
    using reach_snoc consumer_exit [of ?s2 w] by fastforce
  have "ring_inv (g_ringBuffer s)" "ring_capacity (g_ringBuffer s) = N"
    using inv_reach [OF s(1) N(1) D] by (simp_all add: server_inv_def)
  then have "hung (?s2\<lparr>t_consumerDone := True\<rparr>)" using s1 s(5) by (auto simp: hung_def)
  with r3 show ?thesis by blast
qed

section \<open>Properties\<close>


text \<open>An order is typed, pushed and consumed.\<close>

definition ex_world :: "int world" where
  "ex_world = \<lparr>w_ticks = (\<lambda>_. 0), w_files = (\<lambda>_. None), w_uniform = ex_uniform, w_rng42 = 5\<rparr>"

definition ex_server :: "int server" where
  "ex_server = (server_init 2 3 4)\<lparr>g_userSeqNo := 2, t_commander := Cmd_push (ex_add 1 7 chB 100 5) []\<rparr>"

lemma ex_server_reachable: "srv_reach ex_world 2 3 4 ex_server [Ev_none]"
proof -
  let ?s0 = "server_init 2 3 4 :: int server"
  have p: "parseUserLine (\<lambda>_. 0) 0 ''A 7 B 100 5'' 1 WireMessage_zero = (True, ex_add 1 7 chB 100 5)"
    by code_simp
  have o: "order_line ''A 7 B 100 5''" "\<not> reset_line ''A 7 B 100 5''" by code_simp+
  have "command (w_ticks ex_world) (w_files ex_world) 0 ''A 7 B 100 5'' ?s0 = ex_server"
    using p o by (simp add: command_def ex_world_def ex_server_def server_init_def)
  moreover have "t_commander ?s0 = Cmd_read" "g_running ?s0" by (simp_all add: server_init_def)
  ultimately have "srv_step ex_world ?s0 Ev_none ex_server"
    using read_command [of ?s0 ex_world "''A 7 B 100 5''" 0] o by simp
  from srv_reach.step [OF srv_reach.start this] show ?thesis by simp
qed

lemma ex_server_run:
  "\<exists>s. srv_reach ex_world 2 3 4 s [Ev_none, Ev_push (Some (ex_add 1 7 chB 100 5))] \<and> g_running s
    \<and> \<not> t_consumerDone s \<and> t_commander s = Cmd_load [] \<and> g_ringBuffer s = fst (tryPush (ring_new 2 WireMessage_zero) (ex_add 1 7 chB 100 5))"
proof -
  let ?m = "ex_add 1 7 chB 100 5"
  have rb: "g_ringBuffer ex_server = ring_new 2 WireMessage_zero" by (simp add: ex_server_def server_init_def)
  have ok: "snd (tryPush (ring_new 2 WireMessage_zero) ?m)"
    by (simp add: tryPush_def push_full_def ring_new_def)
  obtain s' where push: "push_turn ex_server ?m = (s', True)"
    and s': "g_ringBuffer s' = fst (tryPush (ring_new 2 WireMessage_zero) ?m)" "g_running s'" "\<not> t_consumerDone s'"
    using ok rb by (cases "tryPush (ring_new 2 WireMessage_zero) ?m")
      (simp add: push_turn_def ex_server_def server_init_def)
  have "t_commander ex_server = Cmd_push ?m []" by (simp add: ex_server_def)
  from srv_reach.step [OF ex_server_reachable command_push [OF this push]] s' show ?thesis by fastforce
qed


text \<open>C32: A push never starves while the engine runs. Whenever the burst producer or the commander spins
  on a full ring, one turn of the consumer makes room: the next attempt of that thread succeeds, and
  it goes on.\<close>

theorem spinning_push_progresses:
  assumes "srv_reach w Capacity Depth TableCapacity s es"
    and "cap_ok Capacity" and "0 < Depth" and "cap_ok TableCapacity"
    and "g_running s" and "\<not> t_consumerDone s"
  shows "(\<forall>msg n k gen. t_producer s = Prod_push msg n k gen \<longrightarrow>
      (\<exists>e s1 s2. srv_step w s e s1 \<and> srv_step w s1 (Ev_push (Some msg)) s2 \<and> t_producer s2 = Prod_burst n k gen))
    \<and> (\<forall>msg rest. t_commander s = Cmd_push msg rest \<longrightarrow>
      (\<exists>e s1 s2. srv_step w s e s1 \<and> srv_step w s1 (Ev_push (Some msg)) s2 \<and> t_commander s2 = Cmd_load rest))"
proof -
  have ring: "ring_inv (g_ringBuffer s)" "0 < ring_capacity (g_ringBuffer s)"
    using inv_reach [OF assms(1-4)] assms(2) by (simp_all add: server_inv_def)
  let ?s1 = "consumer_turn s 0"
  have c: "srv_step w s (Ev_pop (snd (tryPop (g_ringBuffer s)))) ?s1" by (rule consume_next [OF assms(6,5)])
  obtain rb r where "tryPop (g_ringBuffer s) = (rb, r)" by (cases "tryPop (g_ringBuffer s)")
  then have room: "snd (tryPush (g_ringBuffer ?s1) msg)" for msg
    using pop_makes_room [OF ring(1) _ ring(2)] by simp
  have s2: "push_turn ?s1 msg = (fst (push_turn ?s1 msg), True)" for msg
    using room [of msg] by (cases "tryPush (g_ringBuffer ?s1) msg") (simp add: push_turn_def)
  show ?thesis
    using c burst_push [OF _ s2] command_push [OF _ s2] by fastforce
qed

theorem spinning_push_progresses_witness:
  "\<exists>e s1 s2. srv_step ex_world ex_server e s1 \<and> srv_step ex_world s1 (Ev_push (Some (ex_add 1 7 chB 100 5))) s2
     \<and> t_commander s2 = Cmd_load []"
proof -
  have "cap_ok 2" "cap_ok 4" by (simp_all add: cap_ok_def)
  moreover have "g_running ex_server" "\<not> t_consumerDone ex_server" "t_commander ex_server = Cmd_push (ex_add 1 7 chB 100 5) []"
    by (simp_all add: ex_server_def server_init_def)
  ultimately show ?thesis using spinning_push_progresses [OF ex_server_reachable] by simp
qed

text \<open>Shutting down during a burst can hang. With the ring size of the code (or any below the
  default burst of 100000), a run in which \<open>BURST\<close> and \<open>QUIT\<close> are typed can reach a state in which the
  consumer has left and the producer spins on a full ring; from there every run, however long, leaves
  the producer spinning, so \<open>main\<close> waits for it forever.\<close>

theorem quit_during_burst_hangs:
  assumes "cap_ok Capacity" and "Capacity < 100000" and "0 < Depth" and "cap_ok TableCapacity"
  shows "\<exists>s es. srv_reach w Capacity Depth TableCapacity s es \<and> \<not> g_running s
    \<and> (\<forall>s'. (\<lambda>a b. \<exists>e. srv_step w a e b)\<^sup>*\<^sup>* s s' \<longrightarrow> t_producer s' \<noteq> Prod_done)"
proof -
  obtain s es where s: "srv_reach w Capacity Depth TableCapacity s es" "hung s"
    using reach_hung [OF assms] by blast
  have "hung s'" if "(\<lambda>a b. \<exists>e. srv_step w a e b)\<^sup>*\<^sup>* s s'" for s'
    using that by induction (use s(2) hung_step in auto)
  then have "\<forall>s'. (\<lambda>a b. \<exists>e. srv_step w a e b)\<^sup>*\<^sup>* s s' \<longrightarrow> t_producer s' \<noteq> Prod_done"
    by (fastforce simp: hung_def)
  then show ?thesis using s by (auto simp: hung_def)
qed

theorem quit_during_burst_hangs_witness:
  "\<exists>s es. srv_reach ex_world 65536 5 2097152 s es \<and> \<not> g_running s"
proof -
  have "cap_ok 65536" "cap_ok 2097152"
    by (simp_all add: cap_ok_def)
  from quit_during_burst_hangs [OF this(1) _ _ this(2), of 5 ex_world] show ?thesis by auto
qed

text \<open>C39: \<open>RESET\<close> forgets the ring. It zeroes the book, the counters and the sequence number but leaves the
  messages waiting in the ring; the next one is then processed into the fresh book under its old
  number, and more messages are reported processed than ingested.\<close>

theorem reset_leaves_ring:
  assumes "srv_reach w Capacity Depth TableCapacity s es"
    and "cap_ok Capacity" and "0 < Depth" and "cap_ok TableCapacity"
    and "t_commander s = Cmd_read" and "g_running s" and "\<not> t_consumerDone s"
    and "ring_items (g_ringBuffer s) = msg # rest"
  shows "\<exists>s1 s2. srv_step w s Ev_reset s1 \<and> srv_step w s1 (Ev_pop (Some msg)) s2
    \<and> g_totalIngested s2 = 0 \<and> g_totalProcessed s2 = 1
    \<and> g_orderBook s2 = processMessage (LimitOrderBook_new Depth TableCapacity) msg"
proof -
  let ?s1 = "reset_server s"
  have "command (w_ticks w) (w_files w) 0 ''RESET'' s = ?s1"
    using reset_line_words by (simp add: command_def)
  then have s1: "srv_step w s Ev_reset ?s1"
    using read_command [OF assms(5,6), of w "''RESET''" 0] by (simp add: reset_line_def)
  have inv1: "server_inv Capacity Depth TableCapacity ?s1 (es @ [Ev_reset])"
    by (rule inv_step [OF s1 inv_reach [OF assms(1-4)] assms(3,4)])
  have "g_ringBuffer ?s1 = g_ringBuffer s" "g_running ?s1" "\<not> t_consumerDone ?s1"
    using assms(6,7) by (simp_all add: reset_server_def)
  moreover obtain rb r where pop: "tryPop (g_ringBuffer s) = (rb, r)" by (cases "tryPop (g_ringBuffer s)")
  moreover have "r = Some msg"
    using ring.pop_law [OF _ pop] inv1 assms(8) \<open>g_ringBuffer ?s1 = _\<close> by (auto simp: server_inv_def split: option.splits)
  ultimately have s2: "srv_step w ?s1 (Ev_pop (Some msg)) (consumer_turn ?s1 0)"
    using consume_next [of ?s1 w 0] by simp
  have "since_reset ((es @ [Ev_reset]) @ [Ev_pop (Some msg)]) = [Ev_pop (Some msg)]"
    by (simp add: since_reset_def)
  with inv_step [OF s2 inv1 assms(3,4)] have "g_totalIngested (consumer_turn ?s1 0) = 0
    \<and> g_totalProcessed (consumer_turn ?s1 0) = 1
    \<and> g_orderBook (consumer_turn ?s1 0) = processMessage (LimitOrderBook_new Depth TableCapacity) msg"
    by (simp add: server_inv_def popped_def [of "[_]"] accepted_def [of "[_]"])
  then show ?thesis using s1 s2 by blast
qed

theorem reset_leaves_ring_witness:
  "\<exists>s1 s2. srv_step ex_world s1 (Ev_pop (Some (ex_add 1 7 chB 100 5))) s2
     \<and> g_totalIngested s2 = 0 \<and> g_totalProcessed s2 = 1"
proof -
  let ?m = "ex_add 1 7 chB 100 5"
  obtain s where s: "srv_reach ex_world 2 3 4 s [Ev_none, Ev_push (Some ?m)]" "g_running s" "\<not> t_consumerDone s"
    "t_commander s = Cmd_load []" "g_ringBuffer s = fst (tryPush (ring_new 2 WireMessage_zero) ?m)"
    using ex_server_run by blast
  let ?s = "s\<lparr>t_commander := Cmd_read\<rparr>"
  have r: "srv_reach ex_world 2 3 4 ?s ([Ev_none, Ev_push (Some ?m)] @ [Ev_none])"
    by (rule srv_reach.step [OF s(1) load_done [OF s(4)]])
  have cap: "cap_ok 2" "cap_ok 4" by (simp_all add: cap_ok_def)
  have "accepted ([Ev_none, Ev_push (Some ?m)] @ [Ev_none]) = [?m]"
    "popped ([Ev_none, Ev_push (Some ?m)] @ [Ev_none]) = []" by (simp_all add: accepted_def popped_def)
  then have "ring_items (g_ringBuffer ?s) = [?m]"
    using inv_reach [OF r cap(1) _ cap(2)] by (simp add: server_inv_def)
  from reset_leaves_ring [OF r cap(1) _ cap(2) _ _ _ this] s(2,3) show ?thesis by auto
qed

end
