(* ===== verification/Shutdown.thy ===== *)
theory Shutdown
  imports StreamServer
begin

text \<open>
  The end of \<open>main\<close> in \<open>src/stream_server.cpp\<close>: once the command thread has ended, \<open>g_running\<close> is cleared
  and the producer, consumer and snapshot threads are joined. The consumer leaves at its next look at
  the flag, whatever is in the ring; the producer first finishes its burst. Whether the joins return
  therefore depends on the room left in the ring.
\<close>

section \<open>Stopped servers\<close>

text \<open>\<open>main\<close> gets past its joins when both loops have ended.\<close>

definition all_joined :: "'r server \<Rightarrow> bool" where
  "all_joined s \<longleftrightarrow> \<not> g_running s \<and> t_commander s = Cmd_done \<and> t_producer s = Prod_done \<and> t_consumerDone s"

fun to_push :: "'r producer \<Rightarrow> nat" where
  "to_push Prod_wait = 0" | "to_push (Prod_burst n k gen) = n" | "to_push (Prod_push msg n k gen) = Suc n"
| "to_push Prod_done = 0"

definition stopped :: "nat \<Rightarrow> 'r server \<Rightarrow> bool" where
  "stopped Capacity s \<longleftrightarrow> \<not> g_running s \<and> t_commander s = Cmd_done
     \<and> ring_inv (g_ringBuffer s) \<and> ring_capacity (g_ringBuffer s) = Capacity"

definition room :: "'r server \<Rightarrow> nat" where
  "room s = ring_capacity (g_ringBuffer s) - length (ring_items (g_ringBuffer s))"

abbreviation srv_steps :: "'r world \<Rightarrow> 'r server \<Rightarrow> 'r server \<Rightarrow> bool" where
  "srv_steps w \<equiv> (\<lambda>a b. \<exists>e. srv_step w a e b)\<^sup>*\<^sup>*"

lemma command_running:
  assumes "g_running s"
  shows "g_running (command f files now line s) \<or> t_commander (command f files now line s) = Cmd_done"
proof -
  let ?P = "\<lambda>x :: 'a server. g_running x \<or> t_commander x = Cmd_done"
  have if_inv: "?P x \<Longrightarrow> ?P y \<Longrightarrow> ?P (if c then x else y)" for c and x y :: "'a server" by simp
  show ?thesis
    unfolding command_def
    by (intro if_inv) (use assms in \<open>auto simp: Let_def loadFileIntoEngine_def reset_server_def
        split: prod.split option.split\<close>)
qed

lemma push_turn_frame:
  "push_turn s m = (s', ok) \<Longrightarrow> g_running s' = g_running s \<and> t_commander s' = t_commander s
     \<and> t_producer s' = t_producer s \<and> t_consumerDone s' = t_consumerDone s"
  by (auto simp: push_turn_def split: prod.splits if_splits)

text \<open>The flag is cleared only when the command thread is done.\<close>

lemma running_or_done:
  assumes "srv_reach w N D T s es"
  shows "g_running s \<or> t_commander s = Cmd_done"
  using assms
proof induction
  case start
  then show ?case by (simp add: server_init_def)
next
  case (step s es e s')
  from step(2) show ?case
  proof cases
    case (read_command line now)
    then show ?thesis using command_running [of s] by simp
  next
    case (command_push msg rest s1 ok)
    then show ?thesis using step(3) push_turn_frame [OF command_push(4)] by auto
  next
    case (burst_push msg n k gen s1 ok)
    then show ?thesis using step(3) push_turn_frame [OF burst_push(4)] by auto
  qed (use step(3) in \<open>auto simp: load_line_def take_burst_def generate_one_def Let_def split: prod.split\<close>)
qed

lemma reach_stopped:
  assumes "srv_reach w N D T s es" and "cap_ok N" "0 < D" "cap_ok T" and "\<not> g_running s"
  shows "stopped N s"
  using running_or_done [OF assms(1)] inv_reach [OF assms(1-4)] assms(5) by (auto simp: stopped_def server_inv_def)

section \<open>Too little room: the producer never ends\<close>

lemma stopped_step:
  assumes "srv_step w s e s'" and "stopped N s"
  shows "stopped N s' \<and> (room s < to_push (t_producer s) \<longrightarrow> room s' < to_push (t_producer s'))"
  using assms(1)
proof cases
  case (burst_push msg n k gen s1 ok)
  obtain rb where rb: "tryPush (g_ringBuffer s) msg = (rb, ok)" and s1: "g_ringBuffer s1 = rb"
    using burst_push(4) by (auto simp: push_turn_def split: prod.splits)
  have "ring_inv (g_ringBuffer s)" using assms(2) by (simp add: stopped_def)
  note law = ring.push_law [OF this rb]
  show ?thesis
    using assms(2) burst_push law s1 push_turn_frame [OF burst_push(4)] ring.items_bound [OF \<open>ring_inv _\<close>]
    by (cases ok) (auto simp: stopped_def room_def)
next
  case (burst_message n k gen now)
  obtain msg gen' where "t_producer s' = Prod_push msg n (k + 1) gen'"
    using generate_one_effect(1) burst_message(2) by metis
  then show ?thesis using assms(2) burst_message by (auto simp: stopped_def room_def generate_one_effect)
qed (use assms(2) in \<open>auto simp: stopped_def room_def\<close>)

section \<open>Enough room: everything ends\<close>

lemma steps_one: "srv_step w s e s' \<Longrightarrow> srv_steps w s s'"
  by (intro r_into_rtranclp exI)

lemma steps_snoc: "srv_steps w s s1 \<Longrightarrow> srv_step w s1 e s2 \<Longrightarrow> srv_steps w s s2"
  by (rule rtranclp_trans [OF _ steps_one])

lemma push_in_room:
  assumes "stopped N s" and "t_producer s = Prod_push msg n k gen" and "n < room s"
  shows "\<exists>s'. srv_steps w s s' \<and> stopped N s' \<and> t_producer s' = Prod_burst n k gen \<and> n \<le> room s'"
proof -
  obtain s1 ok where push: "push_turn s msg = (s1, ok)" by (cases "push_turn s msg")
  obtain rb where rb: "tryPush (g_ringBuffer s) msg = (rb, ok)" and s1: "g_ringBuffer s1 = rb"
    using push by (auto simp: push_turn_def split: prod.splits)
  have "ring_inv (g_ringBuffer s)" using assms(1) by (simp add: stopped_def)
  note law = ring.push_law [OF this rb]
  have ok: "ok" using law assms(3) by (auto simp: room_def split: if_splits)
  have step: "srv_step w s (Ev_push (Some msg)) (s1\<lparr>t_producer := Prod_burst n k gen\<rparr>)"
    using burst_push [OF assms(2) push] ok by simp
  have "n \<le> room (s1\<lparr>t_producer := Prod_burst n k gen\<rparr>)" using law ok s1 assms(3) by (simp add: room_def)
  then show ?thesis using steps_one [OF step] stopped_step [OF step assms(1)]
    by (intro exI [of _ "s1\<lparr>t_producer := Prod_burst n k gen\<rparr>"]) simp
qed

lemma burst_in_room:
  assumes "stopped N s" and "t_producer s = Prod_burst n k gen" and "n \<le> room s"
  shows "\<exists>s' k' gen'. srv_steps w s s' \<and> stopped N s' \<and> t_producer s' = Prod_burst 0 k' gen'"
  using assms
proof (induction n arbitrary: s k gen)
  case (Suc n)
  note step = burst_message [OF Suc.prems(2), where w = w and now = 0]
  let ?s1 = "generate_one 0 (w_uniform w) n k gen s"
  obtain msg gen' where p1: "t_producer ?s1 = Prod_push msg n (k + 1) gen'" using generate_one_effect(1) by metis
  have "n < room ?s1" using Suc.prems(3) by (simp add: room_def generate_one_effect)
  from push_in_room [OF _ p1 this, where w = w] stopped_step [OF step Suc.prems(1)] obtain s2 where
    s2: "srv_steps w ?s1 s2" "stopped N s2" "t_producer s2 = Prod_burst n (k + 1) gen'" "n \<le> room s2" by blast
  from Suc.IH [OF s2(2-4)] obtain s3 k' gen'' where
    s3: "srv_steps w s2 s3" "stopped N s3" "t_producer s3 = Prod_burst 0 k' gen''" by blast
  have "srv_steps w s s2" by (rule rtranclp_trans [OF steps_one [OF step] s2(1)])
  from rtranclp_trans [OF this s3(1)] s3(2,3) show ?case by blast
qed blast

lemma idle_ends:
  assumes "stopped N s" and "t_producer s \<in> {Prod_wait, Prod_done} \<or> (\<exists>k gen. t_producer s = Prod_burst 0 k gen)"
  shows "\<exists>s'. srv_steps w s s' \<and> all_joined s'"
proof -
  have "\<exists>s1. srv_steps w s s1 \<and> stopped N s1 \<and> t_producer s1 \<in> {Prod_wait, Prod_done}"
  proof (cases "t_producer s \<in> {Prod_wait, Prod_done}")
    case False
    then obtain k gen where "t_producer s = Prod_burst 0 k gen" using assms(2) by blast
    note step = burst_end [OF this, of w]
    show ?thesis using steps_one [OF step] stopped_step [OF step assms(1)]
      by (intro exI [of _ "s\<lparr>t_producer := Prod_wait\<rparr>"]) simp
  qed (use assms(1) in blast)
  then obtain s1 where s1: "srv_steps w s s1" "stopped N s1" "t_producer s1 \<in> {Prod_wait, Prod_done}" by blast
  have "\<exists>s2. srv_steps w s1 s2 \<and> stopped N s2 \<and> t_producer s2 = Prod_done"
  proof (cases "t_producer s1 = Prod_wait")
    case True
    have "\<not> g_running s1" using s1(2) by (simp add: stopped_def)
    note step = producer_exit [OF True this, of w]
    show ?thesis using steps_one [OF step] stopped_step [OF step s1(2)]
      by (intro exI [of _ "s1\<lparr>t_producer := Prod_done\<rparr>"]) simp
  qed (use s1 in blast)
  then obtain s2 where s2: "srv_steps w s1 s2" "stopped N s2" "t_producer s2 = Prod_done" by blast
  have run: "\<not> g_running s2" using s2(2) by (simp add: stopped_def)
  have "srv_steps w s (s2\<lparr>t_consumerDone := True\<rparr>)"
    using rtranclp_trans [OF s1(1) s2(1)] consumer_exit [OF run, of w] by (rule steps_snoc)
  then show ?thesis using s2 by (intro exI conjI) (auto simp: all_joined_def stopped_def)
qed

section \<open>Properties\<close>

text \<open>When shutting down works. In every reachable state in which \<open>g_running\<close> is cleared, whatever
  was typed and however the threads were interleaved, all threads can end, so that \<open>main\<close> returns, if
  and only if the messages the producer has yet to push fit into the room left in the ring. In the
  other case no schedule whatever ends the producer.\<close>

theorem shutdown_iff_room:
  assumes "srv_reach w Capacity Depth TableCapacity s es"
    and "cap_ok Capacity" and "0 < Depth" and "cap_ok TableCapacity" and "\<not> g_running s"
  shows "(\<exists>s'. (\<lambda>a b. \<exists>e. srv_step w a e b)\<^sup>*\<^sup>* s s' \<and> all_joined s')
    \<longleftrightarrow> to_push (t_producer s) \<le> Capacity - length (ring_items (g_ringBuffer s))"
proof -
  have st: "stopped Capacity s" by (rule reach_stopped [OF assms])
  then have r: "room s = Capacity - length (ring_items (g_ringBuffer s))" by (simp add: room_def stopped_def)
  have "\<not> all_joined s'" if less: "room s < to_push (t_producer s)" and steps: "srv_steps w s s'" for s'
  proof -
    from steps have "stopped Capacity s' \<and> room s' < to_push (t_producer s')"
    proof (induction rule: rtranclp_induct)
      case base
      then show ?case using st less by simp
    next
      case (step a b)
      then obtain e where "srv_step w a e b" by blast
      from stopped_step [OF this] step(3) show ?case by blast
    qed
    then show ?thesis by (auto simp: all_joined_def)
  qed
  moreover have "\<exists>s'. srv_steps w s s' \<and> all_joined s'" if le: "to_push (t_producer s) \<le> room s"
  proof -
    have "\<exists>s1. srv_steps w s s1 \<and> stopped Capacity s1
      \<and> (t_producer s1 \<in> {Prod_wait, Prod_done} \<or> (\<exists>k gen. t_producer s1 = Prod_burst 0 k gen))"
    proof (cases "t_producer s")
      case (Prod_burst n k gen)
      then show ?thesis using burst_in_room [OF st Prod_burst, where w = w] le by auto
    next
      case (Prod_push msg n k gen)
      then have "n < room s" using le by simp
      from push_in_room [OF st Prod_push this, where w = w] obtain s1 where
        s1: "srv_steps w s s1" "stopped Capacity s1" "t_producer s1 = Prod_burst n k gen" "n \<le> room s1" by blast
      from burst_in_room [OF s1(2-4), where w = w] rtranclp_trans [OF s1(1)] show ?thesis by blast
    qed (use st in auto)
    then obtain s1 where s1: "srv_steps w s s1" "stopped Capacity s1"
      "t_producer s1 \<in> {Prod_wait, Prod_done} \<or> (\<exists>k gen. t_producer s1 = Prod_burst 0 k gen)" by blast
    from idle_ends [OF s1(2,3), where w = w] rtranclp_trans [OF s1(1)] show ?thesis by blast
  qed
  ultimately show ?thesis unfolding r [symmetric] by (meson not_le)
qed

text \<open>The empty server, after \<open>QUIT\<close>.\<close>

theorem shutdown_iff_room_witness:
  "\<exists>s s'. \<not> g_running s \<and> (\<lambda>a b. \<exists>e. srv_step ex_world a e b)\<^sup>*\<^sup>* s s' \<and> all_joined s'"
proof -
  let ?init = "server_init 2 3 4 :: int server"
  let ?q = "?init\<lparr>g_running := False, t_commander := Cmd_done\<rparr>"
  have cap: "cap_ok 2" "cap_ok 4" by (simp_all add: cap_ok_def)
  have start: "t_commander ?init = Cmd_read" "g_running ?init" by (simp_all add: server_init_def)
  have "srv_reach ex_world 2 3 4 ?q ([] @ [if reset_line ''QUIT'' then Ev_reset else Ev_none])"
    using srv_reach.step [OF srv_reach.start read_command [OF start, of ex_world "''QUIT''" 0]] by (simp add: quit_line)
  moreover have "\<not> g_running ?q" "to_push (t_producer ?q) = 0" by (simp_all add: server_init_def)
  ultimately show ?thesis using shutdown_iff_room [of ex_world 2 3 4 ?q, OF _ cap(1) _ cap(2)] by fastforce
qed

end
