(* ===== verification/Latency.thy ===== *)
theory Latency
  imports Complex_Main "HOL-Library.Multiset" Prelude
begin

text \<open>
  Latency statistics: class \<open>LatencyTracker\<close> of \<open>include/feed_handler/latency_tracker.hpp\<close> and the
  percentiles of the snapshot thread of \<open>src/stream_server.cpp\<close>. Samples are integers (nanoseconds);
  \<open>double\<close> arithmetic is computed in the reals, so rounding is not modelled.
\<close>

section \<open>The tracker\<close>

record LatencyTracker =
  lt_samplesNs :: "int list"
  lt_sorted :: bool

definition LatencyTracker_new :: LatencyTracker where
  "LatencyTracker_new = \<lparr>lt_samplesNs = [], lt_sorted = False\<rparr>"

definition lt_reset :: "LatencyTracker \<Rightarrow> LatencyTracker" where
  "lt_reset t = t\<lparr>lt_samplesNs := []\<rparr>"

definition recordNs :: "int \<Rightarrow> LatencyTracker \<Rightarrow> LatencyTracker" where
  "recordNs nanoseconds t = t\<lparr>lt_samplesNs := lt_samplesNs t @ [nanoseconds]\<rparr>"

definition lt_count :: "LatencyTracker \<Rightarrow> nat" where
  "lt_count t = length (lt_samplesNs t)"

definition minNs :: "LatencyTracker \<Rightarrow> real" where
  "minNs t = (if lt_samplesNs t = [] then 0 else of_int (Min (set (lt_samplesNs t))))"

definition maxNs :: "LatencyTracker \<Rightarrow> real" where
  "maxNs t = (if lt_samplesNs t = [] then 0 else of_int (Max (set (lt_samplesNs t))))"

definition meanNs :: "LatencyTracker \<Rightarrow> real" where
  "meanNs t = (if lt_samplesNs t = [] then 0
     else foldl (\<lambda>sum v. sum + of_int v) 0 (lt_samplesNs t) / real (length (lt_samplesNs t)))"

definition stddevNs :: "LatencyTracker \<Rightarrow> real" where
  "stddevNs t = (if length (lt_samplesNs t) < 2 then 0
     else let avg = meanNs t in
       sqrt (foldl (\<lambda>varianceSum v. varianceSum + (of_int v - avg) * (of_int v - avg)) 0 (lt_samplesNs t)
         / real (length (lt_samplesNs t) - 1)))"

text \<open>The interpolation between the two samples around a rank.\<close>

definition interpolate :: "int list \<Rightarrow> real \<Rightarrow> real" where
  "interpolate s rank =
     (let lower = nat \<lfloor>rank\<rfloor>; upper = nat \<lceil>rank\<rceil>; weight = rank - real lower in
      of_int (s ! lower) * (1 - weight) + of_int (s ! upper) * weight)"

definition percentile :: "real \<Rightarrow> LatencyTracker \<Rightarrow> real \<times> LatencyTracker" where
  "percentile p t =
     (if lt_samplesNs t = [] then (0, t)
      else
        let t = (if \<not> lt_sorted t then t\<lparr>lt_samplesNs := sort (lt_samplesNs t), lt_sorted := True\<rparr> else t);
            s = lt_samplesNs t
        in (if p \<le> 0 then of_int (hd s)
            else if p \<ge> 100 then of_int (last s)
            else interpolate s ((p / 100) * (real (length s) - 1)), t))"

text \<open>What \<open>printSummary\<close> prints: count, wall time, throughput, minimum, mean, standard deviation, the
  percentiles 50, 90, 95, 99, 99.9 and 99.99, and the maximum; nothing but a notice without samples.\<close>

definition printSummary :: "real \<Rightarrow> LatencyTracker \<Rightarrow> real list option \<times> LatencyTracker" where
  "printSummary totalWallTimeMs t =
     (if lt_samplesNs t = [] then (None, t)
      else
        case percentile 50 t of (p50, t) \<Rightarrow> case percentile 90 t of (p90, t) \<Rightarrow>
        case percentile 95 t of (p95, t) \<Rightarrow> case percentile 99 t of (p99, t) \<Rightarrow>
        case percentile 99.9 t of (p999, t) \<Rightarrow> case percentile 99.99 t of (p9999, t) \<Rightarrow>
        (Some [real (lt_count t), totalWallTimeMs, real (lt_count t) / (totalWallTimeMs / 1000),
           minNs t, meanNs t, stddevNs t, p50, p90, p95, p99, p999, p9999, maxNs t], t))"

section \<open>Percentiles of the snapshot thread\<close>

text \<open>The nearest rank below, on a sorted copy.\<close>

definition getPct :: "int list \<Rightarrow> real \<Rightarrow> real" where
  "getPct latCopy p = of_int (latCopy ! nat \<lfloor>(p / 100) * (real (length latCopy) - 1)\<rfloor>)"

section \<open>Interpolation on a sorted list\<close>

lemma rank_bounds:
  assumes "0 \<le> rank" and "rank \<le> real n - 1"
  shows "nat \<lfloor>rank\<rfloor> \<le> nat \<lceil>rank\<rceil>" "nat \<lceil>rank\<rceil> < n" "real (nat \<lfloor>rank\<rfloor>) \<le> rank" "rank < real (nat \<lfloor>rank\<rfloor>) + 1"
proof -
  have "\<lceil>rank\<rceil> \<le> int n - 1" using assms(2) by (intro ceiling_le) simp
  then show "nat \<lceil>rank\<rceil> < n" using assms by linarith
  show "nat \<lfloor>rank\<rfloor> \<le> nat \<lceil>rank\<rceil>" by (intro nat_mono) linarith
  show "real (nat \<lfloor>rank\<rfloor>) \<le> rank" "rank < real (nat \<lfloor>rank\<rfloor>) + 1" using assms(1) by linarith+
qed

lemma convex_between:
  fixes a b w :: real
  assumes "a \<le> b" and "0 \<le> w" and "w \<le> 1"
  shows "a \<le> a * (1 - w) + b * w" and "a * (1 - w) + b * w \<le> b"
proof -
  have "0 \<le> (b - a) * w" "0 \<le> (b - a) * (1 - w)" using assms by simp_all
  then show "a \<le> a * (1 - w) + b * w" "a * (1 - w) + b * w \<le> b" by (simp_all add: algebra_simps)
qed

lemma interpolate_between:
  assumes "sorted s" and "0 \<le> rank" and "rank \<le> real (length s) - 1"
  shows "of_int (s ! nat \<lfloor>rank\<rfloor>) \<le> interpolate s rank \<and> interpolate s rank \<le> of_int (s ! nat \<lceil>rank\<rceil>)"
proof -
  note r = rank_bounds [OF assms(2,3)]
  have "s ! nat \<lfloor>rank\<rfloor> \<le> s ! nat \<lceil>rank\<rceil>" using assms(1) r(1,2) by (simp add: sorted_nth_mono)
  then have "(of_int (s ! nat \<lfloor>rank\<rfloor>) :: real) \<le> of_int (s ! nat \<lceil>rank\<rceil>)" by simp
  moreover have "0 \<le> rank - real (nat \<lfloor>rank\<rfloor>)" "rank - real (nat \<lfloor>rank\<rfloor>) \<le> 1" using r(3,4) by linarith+
  ultimately show ?thesis unfolding interpolate_def Let_def by (intro conjI convex_between)
qed

lemma interpolate_mono:
  assumes "sorted s" and "0 \<le> a" and "a \<le> b" and "b \<le> real (length s) - 1"
  shows "interpolate s a \<le> interpolate s b"
proof (cases "\<lfloor>a\<rfloor> = \<lfloor>b\<rfloor>")
  case True
  note ra = rank_bounds [of a "length s"] and rb = rank_bounds [of b "length s"]
  have "\<lceil>a\<rceil> = \<lceil>b\<rceil> \<or> a = of_int \<lfloor>a\<rfloor>"
    using True assms(3) by (smt (verit, ccfv_threshold) ceiling_altdef of_int_floor_le)
  then show ?thesis
  proof
    assume up: "\<lceil>a\<rceil> = \<lceil>b\<rceil>"
    have "nat \<lfloor>b\<rfloor> \<le> nat \<lceil>b\<rceil>" "nat \<lceil>b\<rceil> < length s" using rb assms by auto
    then have "(of_int (s ! nat \<lfloor>b\<rfloor>) :: real) \<le> of_int (s ! nat \<lceil>b\<rceil>)"
      using assms(1) by (simp add: sorted_nth_mono)
    then have "(of_int (s ! nat \<lceil>b\<rceil>) - of_int (s ! nat \<lfloor>b\<rfloor>)) * a
        \<le> (of_int (s ! nat \<lceil>b\<rceil>) - of_int (s ! nat \<lfloor>b\<rfloor>)) * b"
      using assms(3) by (intro mult_left_mono) auto
    then show ?thesis by (simp add: interpolate_def Let_def True up algebra_simps)
  next
    assume "a = of_int \<lfloor>a\<rfloor>"
    then have "interpolate s a = of_int (s ! nat \<lfloor>b\<rfloor>)"
      using True assms(2) by (simp add: interpolate_def Let_def)
    then show ?thesis using interpolate_between [OF assms(1), of b] assms by simp
  qed
next
  case False
  then have "\<lceil>a\<rceil> \<le> \<lfloor>b\<rfloor>" using assms(3) by linarith
  then have "nat \<lceil>a\<rceil> \<le> nat \<lfloor>b\<rfloor>" by (rule nat_mono)
  moreover have "nat \<lfloor>b\<rfloor> < length s" using rank_bounds [of b "length s"] assms by auto
  ultimately have "(of_int (s ! nat \<lceil>a\<rceil>) :: real) \<le> of_int (s ! nat \<lfloor>b\<rfloor>)"
    using assms(1) by (simp add: sorted_nth_mono)
  then show ?thesis
    using interpolate_between [OF assms(1), of a] interpolate_between [OF assms(1), of b] assms by linarith
qed

section \<open>What the percentiles are\<close>

definition lt_inv :: "LatencyTracker \<Rightarrow> bool" where
  "lt_inv t \<longleftrightarrow> (lt_sorted t \<longrightarrow> sorted (lt_samplesNs t))"

lemma sorted_hd_last: "sorted s \<Longrightarrow> x \<in> set s \<Longrightarrow> hd s \<le> x \<and> x \<le> (last s :: int)"
proof -
  assume s: "sorted s" "x \<in> set s"
  then obtain i where i: "i < length s" "s ! i = x" by (auto simp: in_set_conv_nth)
  have "s \<noteq> []" using s(2) by auto
  then have "hd s = s ! 0" "last s = s ! (length s - 1)" by (simp_all add: hd_conv_nth last_conv_nth)
  moreover have "s ! 0 \<le> s ! i" "s ! i \<le> s ! (length s - 1)" using s(1) i by (auto intro: sorted_nth_mono)
  ultimately show ?thesis using i(2) by simp
qed

text \<open>The value of a percentile on the sorted samples, and that it grows with \<open>p\<close>.\<close>

definition pct_value :: "int list \<Rightarrow> real \<Rightarrow> real" where
  "pct_value s p = (if p \<le> 0 then of_int (hd s) else if p \<ge> 100 then of_int (last s)
     else interpolate s ((p / 100) * (real (length s) - 1)))"

lemma rank_in_range:
  assumes "0 < p" "p < 100" "s \<noteq> []"
  shows "0 \<le> (p / 100) * (real (length s) - 1)" "(p / 100) * (real (length s) - 1) \<le> real (length s) - 1"
proof -
  have n: "0 \<le> real (length s) - 1" using assms(3) by (cases s) simp_all
  then show "0 \<le> (p / 100) * (real (length s) - 1)" using assms by simp
  show "(p / 100) * (real (length s) - 1) \<le> real (length s) - 1"
    using mult_right_mono [OF _ n, of "p / 100" 1] assms by simp
qed

lemma pct_value_bounds:
  assumes "sorted s" and "s \<noteq> []"
  shows "of_int (hd s) \<le> pct_value s p \<and> pct_value s p \<le> of_int (last s)"
proof -
  have "of_int (hd s) \<le> (of_int (last s) :: real)" using sorted_hd_last [OF assms(1)] assms(2) by simp
  moreover have "of_int (hd s) \<le> interpolate s r \<and> interpolate s r \<le> of_int (last s)"
    if "0 \<le> r" "r \<le> real (length s) - 1" for r
  proof -
    note b = rank_bounds [OF that]
    have "(of_int (hd s) :: real) \<le> of_int (s ! nat \<lfloor>r\<rfloor>)" "(of_int (s ! nat \<lceil>r\<rceil>) :: real) \<le> of_int (last s)"
      using sorted_hd_last [OF assms(1)] b(1,2) by (simp_all add: order.strict_trans1)
    then show ?thesis using interpolate_between [OF assms(1) that] by linarith
  qed
  ultimately show ?thesis using rank_in_range [OF _ _ assms(2), of p] by (simp add: pct_value_def)
qed

lemma pct_ends: "pct_value s 0 = of_int (hd s)" "pct_value s 100 = of_int (last s)"
  by (simp_all add: pct_value_def)

lemma pct_value_mono:
  assumes "sorted s" and "s \<noteq> []" and "p \<le> q"
  shows "pct_value s p \<le> pct_value s q"
proof -
  consider "p \<le> 0" | "100 \<le> q" | "0 < p" "q < 100" by linarith
  then show ?thesis
  proof cases
    case 1
    then show ?thesis using pct_value_bounds [OF assms(1,2), of q] by (simp add: pct_value_def)
  next
    case 2
    then show ?thesis using pct_value_bounds [OF assms(1,2), of p] by (auto simp: pct_value_def)
  next
    case 3
    then have "(p / 100) * (real (length s) - 1) \<le> (q / 100) * (real (length s) - 1)"
      using assms(2,3) by (intro mult_right_mono) (cases s; simp)+
    then show ?thesis
      using 3 assms interpolate_mono [OF assms(1)] rank_in_range [OF _ _ assms(2)]
      by (simp add: pct_value_def)
  qed
qed

lemma percentile_value:
  assumes "lt_inv t" and "lt_samplesNs t \<noteq> []"
  shows "fst (percentile p t) = pct_value (sort (lt_samplesNs t)) p"
    and "lt_samplesNs (snd (percentile p t)) = sort (lt_samplesNs t)" and "lt_sorted (snd (percentile p t))"
  using assms by (auto simp: percentile_def pct_value_def Let_def lt_inv_def sorted_sort_id)

lemma lt_inv_new [inv_intros]: "lt_inv LatencyTracker_new"
  by (simp add: lt_inv_def LatencyTracker_new_def)

section \<open>Properties\<close>


definition ex_tracker :: LatencyTracker where
  "ex_tracker = recordNs 30 (recordNs 10 (recordNs 20 LatencyTracker_new))"


text \<open>A sample recorded after a percentile was computed is not sorted in: \<open>recordNs\<close> (and \<open>reset\<close>)
  leave the mark \<open>sorted_\<close> set. The 100th percentile is then the last sample recorded and the 0th the
  old minimum, whatever was recorded.\<close>

theorem percentile_stale_after_record:
  assumes "lt_inv t" and "lt_samplesNs t \<noteq> []"
  shows "fst (percentile 100 (recordNs x (snd (percentile p t)))) = of_int x
    \<and> fst (percentile 0 (recordNs x (snd (percentile p t)))) = minNs t"
proof -
  note v = percentile_value [OF assms, of p]
  have ne: "sort (lt_samplesNs t) \<noteq> []" using assms(2) by (simp flip: length_greater_0_conv)
  have "Min (set (lt_samplesNs t)) = hd (sort (lt_samplesNs t))"
    using sorted_hd_last [of "sort (lt_samplesNs t)"] hd_in_set [OF ne] assms(2) by (auto intro!: Min_eqI)
  then show ?thesis using v(2,3) ne assms(2) by (simp add: percentile_def recordNs_def Let_def minNs_def)
qed

theorem percentile_stale_after_record_witness:
  "fst (percentile 100 (recordNs 5 (snd (percentile 50 ex_tracker)))) = 5"
proof -
  have t: "lt_inv ex_tracker" "lt_samplesNs ex_tracker = [20, 10, 30]"
    by (simp_all add: ex_tracker_def recordNs_def LatencyTracker_new_def lt_inv_def)
  from percentile_stale_after_record [OF t(1), of 5 50] t(2) show ?thesis by simp
qed

end
