(* ===== verification/Metrics.thy ===== *)
theory Metrics
  imports StreamServer Latency
begin

text \<open>
  Telemetry: what the snapshot thread of \<open>src/stream_server.cpp\<close> computes from the latency window and the
  book, and class \<open>PrometheusExporter\<close> of \<open>include/feed_handler/metrics_exporter.hpp\<close>: the text payload
  and the answers to HTTP requests. \<open>double\<close> values are reals; their decimal printing
  (\<open>std::to_string(double)\<close>) is the parameter \<open>show_double\<close>. The sockets, the thread and the clock of the
  exporter are left out.
\<close>

section \<open>The metrics\<close>

record MetricsData =
  md_totalIngested :: u64
  md_totalProcessed :: u64
  md_sequenceGaps :: u64
  md_tradesExecuted :: u64
  md_p50Ns :: real
  md_p90Ns :: real
  md_p99Ns :: real
  md_p999Ns :: real
  md_throughput :: real
  md_bucket_100ns :: u64
  md_bucket_250ns :: u64
  md_bucket_500ns :: u64
  md_bucket_1us :: u64
  md_bucket_2_5us :: u64
  md_bucket_5us :: u64
  md_bucket_10us :: u64
  md_bucket_25us :: u64
  md_bucket_50us :: u64
  md_bucket_100us :: u64
  md_bucket_inf :: u64
  md_latency_sum_ns :: real

definition MetricsData_zero :: MetricsData where
  "MetricsData_zero = \<lparr>md_totalIngested = 0, md_totalProcessed = 0, md_sequenceGaps = 0,
     md_tradesExecuted = 0, md_p50Ns = 0, md_p90Ns = 0, md_p99Ns = 0, md_p999Ns = 0, md_throughput = 0,
     md_bucket_100ns = 0, md_bucket_250ns = 0, md_bucket_500ns = 0, md_bucket_1us = 0,
     md_bucket_2_5us = 0, md_bucket_5us = 0, md_bucket_10us = 0, md_bucket_25us = 0, md_bucket_50us = 0,
     md_bucket_100us = 0, md_bucket_inf = 0, md_latency_sum_ns = 0\<rparr>"

section \<open>The snapshot\<close>

text \<open>One sample into the histogram: every bucket whose bound it does not exceed.\<close>

definition bump :: "bool \<Rightarrow> u64 \<Rightarrow> u64" where
  "bump c n = (if c then n + 1 else n)"

definition bucket_sample :: "MetricsData \<Rightarrow> int \<Rightarrow> MetricsData" where
  "bucket_sample m ns = m\<lparr>
     md_bucket_100ns := bump (ns \<le> 100) (md_bucket_100ns m),
     md_bucket_250ns := bump (ns \<le> 250) (md_bucket_250ns m),
     md_bucket_500ns := bump (ns \<le> 500) (md_bucket_500ns m),
     md_bucket_1us := bump (ns \<le> 1000) (md_bucket_1us m),
     md_bucket_2_5us := bump (ns \<le> 2500) (md_bucket_2_5us m),
     md_bucket_5us := bump (ns \<le> 5000) (md_bucket_5us m),
     md_bucket_10us := bump (ns \<le> 10000) (md_bucket_10us m),
     md_bucket_25us := bump (ns \<le> 25000) (md_bucket_25us m),
     md_bucket_50us := bump (ns \<le> 50000) (md_bucket_50us m),
     md_bucket_100us := bump (ns \<le> 100000) (md_bucket_100us m),
     md_bucket_inf := md_bucket_inf m + 1,
     md_latency_sum_ns := md_latency_sum_ns m + of_int ns\<rparr>"

text \<open>The percentiles and the histogram of the window; nothing without samples. The result is
  minimum, mean, the five percentiles, maximum and the metrics.\<close>

record latency_stats =
  ls_min :: real
  ls_mean :: real
  ls_p50 :: real
  ls_p90 :: real
  ls_p95 :: real
  ls_p99 :: real
  ls_p999 :: real
  ls_max :: real
  ls_metrics :: MetricsData

definition snapshot_latency :: "int list \<Rightarrow> latency_stats" where
  "snapshot_latency samples =
     (if samples = [] then
        \<lparr>ls_min = 0, ls_mean = 0, ls_p50 = 0, ls_p90 = 0, ls_p95 = 0, ls_p99 = 0, ls_p999 = 0, ls_max = 0,
         ls_metrics = MetricsData_zero\<rparr>
      else
        let latCopy = sort samples in
        \<lparr>ls_min = of_int (hd latCopy),
         ls_mean = foldl (\<lambda>sum v. sum + of_int v) 0 latCopy / real (length latCopy),
         ls_p50 = getPct latCopy 50, ls_p90 = getPct latCopy 90, ls_p95 = getPct latCopy 95,
         ls_p99 = getPct latCopy 99, ls_p999 = getPct latCopy 99.9, ls_max = of_int (last latCopy),
         ls_metrics = foldl bucket_sample MetricsData_zero latCopy\<rparr>)"

definition snapshot_throughput :: "real \<Rightarrow> u64 \<Rightarrow> u64 \<Rightarrow> real" where
  "snapshot_throughput dtSec currentProcessed lastProcessedCount =
     (let deltaProcessed = (if currentProcessed \<ge> lastProcessedCount then currentProcessed - lastProcessedCount else 0)
      in if dtSec > 0 then of_nat (unat deltaProcessed) / dtSec else 0)"

definition snapshot_metrics :: "real \<Rightarrow> 'r server \<Rightarrow> MetricsData" where
  "snapshot_metrics throughput s =
     (let st = snapshot_latency (g_latencySamples s) in
      (ls_metrics st)\<lparr>md_totalIngested := g_totalIngested s, md_totalProcessed := g_totalProcessed s,
        md_sequenceGaps := lob_sequenceGapsDetected (g_orderBook s),
        md_tradesExecuted := lob_tradesExecutedCount (g_orderBook s),
        md_p50Ns := ls_p50 st, md_p90Ns := ls_p90 st, md_p99Ns := ls_p99 st, md_p999Ns := ls_p999 st,
        md_throughput := throughput\<rparr>)"

section \<open>The payload\<close>

definition nl :: string where "nl = [CHR 0x0A]"
definition crlf :: string where "crlf = [CHR 0x0D, CHR 0x0A]"

definition show_u64 :: "u64 \<Rightarrow> string" where      \<comment> \<open>\<open>std::to_string(uint64_t)\<close>\<close>
  "show_u64 n = dec (unat n)"

definition metric :: "string \<Rightarrow> string \<Rightarrow> string \<Rightarrow> string \<Rightarrow> string" where
  "metric name help kind value =
     ''# HELP '' @ name @ '' '' @ help @ nl @ ''# TYPE '' @ name @ '' '' @ kind @ nl @ name @ '' '' @ value @ nl @ nl"

definition bucket_line :: "string \<Rightarrow> u64 \<Rightarrow> string" where
  \<open>bucket_line le n = ''feed_handler_latency_nanoseconds_bucket{le="'' @ le @ ''"} '' @ show_u64 n @ nl\<close>

definition buildMetricsPayload :: "(real \<Rightarrow> string) \<Rightarrow> MetricsData \<Rightarrow> string" where
  "buildMetricsPayload show_double d =
     metric ''feed_handler_messages_total'' ''Total packets ingested by feed handler'' ''counter''
       (show_u64 (md_totalIngested d))
     @ metric ''feed_handler_messages_processed_total'' ''Total messages processed into order book'' ''counter''
       (show_u64 (md_totalProcessed d))
     @ metric ''feed_handler_sequence_gaps_total'' ''Total sequence gaps detected'' ''counter''
       (show_u64 (md_sequenceGaps d))
     @ metric ''feed_handler_trades_executed_total'' ''Total fill trades executed'' ''counter''
       (show_u64 (md_tradesExecuted d))
     @ metric ''feed_handler_throughput_msgs_per_sec'' ''Current processing throughput'' ''gauge''
       (show_double (md_throughput d))
     @ metric ''feed_handler_latency_nanoseconds_p50'' ''Median processing latency'' ''gauge''
       (show_double (md_p50Ns d))
     @ metric ''feed_handler_latency_nanoseconds_p99'' ''99th percentile processing tail latency'' ''gauge''
       (show_double (md_p99Ns d))
     @ metric ''feed_handler_latency_nanoseconds_p999'' ''99.9th percentile processing tail latency'' ''gauge''
       (show_double (md_p999Ns d))
     @ ''# HELP feed_handler_latency_nanoseconds Wire-to-book latency in nanoseconds'' @ nl
     @ ''# TYPE feed_handler_latency_nanoseconds histogram'' @ nl
     @ bucket_line ''100'' (md_bucket_100ns d) @ bucket_line ''250'' (md_bucket_250ns d)
     @ bucket_line ''500'' (md_bucket_500ns d) @ bucket_line ''1000'' (md_bucket_1us d)
     @ bucket_line ''2500'' (md_bucket_2_5us d) @ bucket_line ''5000'' (md_bucket_5us d)
     @ bucket_line ''10000'' (md_bucket_10us d) @ bucket_line ''25000'' (md_bucket_25us d)
     @ bucket_line ''50000'' (md_bucket_50us d) @ bucket_line ''100000'' (md_bucket_100us d)
     @ bucket_line ''+Inf'' (md_bucket_inf d)
     @ ''feed_handler_latency_nanoseconds_sum '' @ show_double (md_latency_sum_ns d) @ nl
     @ ''feed_handler_latency_nanoseconds_count '' @ show_u64 (md_totalProcessed d) @ nl"

section \<open>HTTP\<close>

fun contains :: "string \<Rightarrow> string \<Rightarrow> bool" where      \<comment> \<open>\<open>s.find(p) != npos\<close>\<close>
  "contains p [] = (p = [])"
| "contains p (c # cs) = (starts_with p (c # cs) \<or> contains p cs)"

definition http_ok :: "string \<Rightarrow> string \<Rightarrow> string" where
  "http_ok contentType body = ''HTTP/1.1 200 OK'' @ crlf @ ''Content-Type: '' @ contentType @ crlf
     @ ''Content-Length: '' @ dec (length body) @ crlf @ ''Connection: close'' @ crlf @ crlf @ body"

definition healthz_body :: string where
  \<open>healthz_body = ''{"status":"healthy","engine":"QuantDesk C++20 LOB"}'' @ nl\<close>

definition readyz_body :: string where
  \<open>readyz_body = ''{"status":"ready","ready":true}'' @ nl\<close>

text \<open>The request is what one \<open>recv\<close> of at most 1023 bytes delivered, up to the first zero byte.\<close>

definition handle_request :: "(real \<Rightarrow> string) \<Rightarrow> MetricsData \<Rightarrow> string \<Rightarrow> string" where
  "handle_request show_double d received =
     (let req = takeWhile (\<lambda>c. (of_char c :: nat) \<noteq> 0) (take 1023 received) in
      if contains ''GET /healthz'' req then http_ok ''application/json'' healthz_body
      else if contains ''GET /readyz'' req then http_ok ''application/json'' readyz_body
      else http_ok ''text/plain; version=0.0.4'' (buildMetricsPayload show_double d))"

section \<open>The histogram counts\<close>

definition at_most :: "int \<Rightarrow> int list \<Rightarrow> u64" where
  "at_most b xs = of_nat (length (filter (\<lambda>x. x \<le> b) xs))"

lemma at_most_sort [simp]: "at_most b (sort xs) = at_most b xs"
proof -
  have "mset (filter (\<lambda>x. x \<le> b) (sort xs)) = mset (filter (\<lambda>x. x \<le> b) xs)" by (simp add: mset_filter)
  then have "length (filter (\<lambda>x. x \<le> b) (sort xs)) = length (filter (\<lambda>x. x \<le> b) xs)" by (rule mset_eq_length)
  then show ?thesis by (simp add: at_most_def)
qed

lemma at_most_Cons: "at_most b (x # xs) = bump (x \<le> b) (at_most b xs)"
  by (simp add: at_most_def bump_def)

lemma bump_add: "bump c n + k = bump c (n + k)"
  by (simp add: bump_def)

definition bucket_counts :: "MetricsData \<Rightarrow> int list \<Rightarrow> bool" where
  "bucket_counts m xs \<longleftrightarrow>
     md_bucket_100ns m = at_most 100 xs \<and> md_bucket_250ns m = at_most 250 xs
     \<and> md_bucket_500ns m = at_most 500 xs \<and> md_bucket_1us m = at_most 1000 xs
     \<and> md_bucket_2_5us m = at_most 2500 xs \<and> md_bucket_5us m = at_most 5000 xs
     \<and> md_bucket_10us m = at_most 10000 xs \<and> md_bucket_25us m = at_most 25000 xs
     \<and> md_bucket_50us m = at_most 50000 xs \<and> md_bucket_100us m = at_most 100000 xs
     \<and> md_bucket_inf m = of_nat (length xs) \<and> md_latency_sum_ns m = of_int (sum_list xs)"

lemma bucket_counts_snoc: "bucket_counts m xs \<Longrightarrow> bucket_counts (bucket_sample m x) (xs @ [x])"
  by (simp add: bucket_counts_def bucket_sample_def at_most_def bump_def)

lemma bucket_counts_all: "bucket_counts (foldl bucket_sample MetricsData_zero xs) xs"
proof (induction xs rule: rev_induct)
  case Nil
  then show ?case by (simp add: bucket_counts_def MetricsData_zero_def at_most_def)
next
  case (snoc x xs)
  then show ?case using bucket_counts_snoc by simp
qed

lemma bucket_counts_sorted: "bucket_counts m (sort xs) \<Longrightarrow> bucket_counts m xs"
proof -
  have "sum_list (sort xs) = sum_list xs" by (metis mset_sort sum_mset_sum_list)
  then show "bucket_counts m (sort xs) \<Longrightarrow> bucket_counts m xs" by (simp add: bucket_counts_def)
qed

lemma snapshot_counts: "bucket_counts (ls_metrics (snapshot_latency xs)) xs"
proof (cases "xs = []")
  case True
  then show ?thesis using bucket_counts_all [of "[]"] by (simp add: snapshot_latency_def)
next
  case False
  then show ?thesis
    using bucket_counts_sorted [OF bucket_counts_all [of "sort xs"]] by (simp add: snapshot_latency_def Let_def)
qed

section \<open>Reading a response\<close>

text \<open>What a client does: the body is what follows the first empty line, its length is the number
  after the header name.\<close>

fun http_body :: "string \<Rightarrow> string" where
  "http_body [] = []"
| "http_body (c # cs) = (if starts_with (crlf @ crlf) (c # cs) then drop 4 (c # cs) else http_body cs)"

fun after :: "string \<Rightarrow> string \<Rightarrow> string" where
  "after p [] = []"
| "after p (c # cs) = (if starts_with p (c # cs) then drop (length p) (c # cs) else after p cs)"

definition content_length :: "string \<Rightarrow> int" where
  "content_length r = digits_val 0 (after ''Content-Length: '' r)"

abbreviation cr :: char where "cr \<equiv> CHR 0x0D"

lemma http_body_skip: "cr \<notin> set xs \<Longrightarrow> http_body (xs @ r) = http_body r"
  by (induction xs) (auto simp: starts_with_def crlf_def)

lemma http_body_line: "c \<noteq> cr \<Longrightarrow> http_body (crlf @ c # r) = http_body (c # r)"
  by (simp add: starts_with_def crlf_def)

lemma http_body_end: "http_body (crlf @ crlf @ body) = body"
  by (simp add: starts_with_def crlf_def)

lemma after_skip: "CHR ''C'' \<notin> set xs \<Longrightarrow> after ''Content-Length: '' (xs @ r) = after ''Content-Length: '' r"
  by (induction xs) (auto simp: starts_with_def)

lemma after_type: "after ''Content-Length: '' (''Content-Type: '' @ r) = after ''Content-Length: '' r"
  by (simp add: starts_with_def)

lemma after_length: "after ''Content-Length: '' (''Content-Length: '' @ r) = r"
  by (simp add: starts_with_def)

lemma dec_no_cr: "cr \<notin> set (dec n)"
  using dec_digits [of n] by (auto simp: list_all_iff is_digit_def)

lemma http_ok_framed:
  assumes "cr \<notin> set contentType" and "CHR ''C'' \<notin> set contentType"
  shows "http_body (http_ok contentType body) = body \<and> content_length (http_ok contentType body) = int (length body)"
proof
  let ?rest = "dec (length body) @ crlf @ ''Connection: close'' @ crlf @ crlf @ body"
  have at_close: "http_body (crlf @ ''Connection: close'' @ crlf @ crlf @ body) = body"
    using http_body_line [of "CHR ''C''" "''onnection: close'' @ crlf @ crlf @ body"]
      http_body_skip [of "''Connection: close''" "crlf @ crlf @ body"] http_body_end by simp
  have at_len: "http_body (crlf @ ''Content-Length: '' @ ?rest) = body"
    using http_body_line [of "CHR ''C''" "''ontent-Length: '' @ ?rest"]
      http_body_skip [of "''Content-Length: ''" ?rest] http_body_skip [OF dec_no_cr] at_close by simp
  have at_typ: "http_body (crlf @ ''Content-Type: '' @ contentType @ crlf @ ''Content-Length: '' @ ?rest) = body"
    using http_body_line [of "CHR ''C''" "''ontent-Type: '' @ contentType @ crlf @ ''Content-Length: '' @ ?rest"]
      http_body_skip [of "''Content-Type: ''" "contentType @ crlf @ ''Content-Length: '' @ ?rest"]
      http_body_skip [OF assms(1)] at_len by simp
  show "http_body (http_ok contentType body) = body"
    unfolding http_ok_def
    using http_body_skip [of "''HTTP/1.1 200 OK''"] at_typ by simp
  have "after ''Content-Length: '' (http_ok contentType body) = ?rest"
    unfolding http_ok_def
    using after_skip [of "''HTTP/1.1 200 OK'' @ crlf"] after_skip [of "contentType @ crlf"] assms(2)
      after_type after_length by (simp add: crlf_def)
  then show "content_length (http_ok contentType body) = int (length body)"
    using dec_digits digits_val_append digits_val_dec by (simp add: content_length_def crlf_def is_digit_def)
qed

lemma contains_prefix: "starts_with p s \<Longrightarrow> contains p s"
  by (cases s) (auto simp: starts_with_def)

lemma starts_with_cut:
  assumes "starts_with p received" and "length p \<le> 1023" and "\<forall>c \<in> set p. (of_char c :: nat) \<noteq> 0"
  shows "starts_with p (takeWhile (\<lambda>c. (of_char c :: nat) \<noteq> 0) (take 1023 received))"
proof -
  have "received = p @ drop (length p) received"
    using assms(1) append_take_drop_id [of "length p" received] by (simp add: starts_with_def)
  then have "take 1023 received = p @ take (1023 - length p) (drop (length p) received)"
    using assms(2) by (metis take_all take_append)
  then show ?thesis using assms(3) by (simp add: starts_with_def takeWhile_append2)
qed

section \<open>Properties\<close>

text \<open>C33: The exported histogram is the exact cumulative distribution of the latency window, in every
  reachable state of the server: each bucket counts the samples up to its bound, the last one all of
  them, and the sum is their sum. The window never holds more than 201000 samples while the exported
  \<open>_count\<close> is the number of messages processed, so beyond that number it is not the \<open>+Inf\<close> bucket.\<close>

theorem histogram_of_window:
  assumes "srv_reach w Capacity Depth TableCapacity s es"
    and "cap_ok Capacity" and "0 < Depth" and "cap_ok TableCapacity"
  shows "let m = snapshot_metrics throughput s; n = length (popped (since_reset es)) in
    bucket_counts m (g_latencySamples s) \<and> unat (md_bucket_inf m) \<le> 201000 \<and> md_totalProcessed m = of_nat n
    \<and> (201000 < n \<and> n < 2 ^ 64 \<longrightarrow> md_bucket_inf m \<noteq> md_totalProcessed m)"
proof -
  let ?m = "snapshot_metrics throughput s" and ?n = "length (popped (since_reset es))"
  have inv: "server_inv Capacity Depth TableCapacity s es" by (rule inv_reach [OF assms])
  have counts: "bucket_counts ?m (g_latencySamples s)"
    using snapshot_counts [of "g_latencySamples s"] by (simp add: snapshot_metrics_def Let_def bucket_counts_def)
  have "length (g_latencySamples s) \<le> 201000"
    using inv by (simp add: server_inv_def latency_ok_def LATENCY_WINDOW_def)
  then have inf: "unat (md_bucket_inf ?m) \<le> 201000"
    using counts by (simp add: bucket_counts_def unat_u64)
  have n: "md_totalProcessed ?m = of_nat ?n"
    using inv by (simp add: snapshot_metrics_def Let_def server_inv_def)
  then have "md_bucket_inf ?m \<noteq> md_totalProcessed ?m" if "201000 < ?n" "?n < 2 ^ 64"
    using inf that by (auto simp: unat_u64)
  then show ?thesis using counts inf n by (simp add: Let_def)
qed

theorem histogram_of_window_witness:
  "bucket_counts (snapshot_metrics 0 ex_server) (g_latencySamples ex_server)"
proof -
  have "cap_ok 2" "cap_ok 4" by (simp_all add: cap_ok_def)
  with histogram_of_window [OF ex_server_reachable, of 0] show ?thesis by (simp add: Let_def)
qed

text \<open>Every HTTP request gets a well-framed answer. Whatever bytes were received, the response has
  one empty line, its \<open>Content-Length\<close> is the length of what follows it, and that is the health
  text, the readiness text or the current metrics; a request that begins with \<open>GET /healthz\<close> gets the
  health text.\<close>

theorem http_response_framed:
  "http_body (handle_request show_double d received)
      \<in> {healthz_body, readyz_body, buildMetricsPayload show_double d}
    \<and> content_length (handle_request show_double d received)
      = int (length (http_body (handle_request show_double d received)))
    \<and> (starts_with ''GET /healthz'' received \<longrightarrow> http_body (handle_request show_double d received) = healthz_body)"
proof -
  have json: "cr \<notin> set ''application/json''" "CHR ''C'' \<notin> set ''application/json''"
    and plain: "cr \<notin> set ''text/plain; version=0.0.4''" "CHR ''C'' \<notin> set ''text/plain; version=0.0.4''"
    by simp_all
  have "contains ''GET /healthz'' (takeWhile (\<lambda>c. (of_char c :: nat) \<noteq> 0) (take 1023 received))"
    if "starts_with ''GET /healthz'' received"
    by (intro contains_prefix starts_with_cut that) simp_all
  then show ?thesis
    using http_ok_framed [OF json] http_ok_framed [OF plain] by (simp add: handle_request_def Let_def)
qed

theorem http_response_framed_witness:
  "http_body (handle_request (\<lambda>_. ''0'') MetricsData_zero ''GET /healthz HTTP/1.1'') = healthz_body"
proof -
  have "starts_with ''GET /healthz'' ''GET /healthz HTTP/1.1''" by code_simp
  then show ?thesis using http_response_framed [of "\<lambda>_. ''0''" MetricsData_zero] by blast
qed

end
