(* ===== verification/Exporter.thy ===== *)
theory Exporter
  imports Metrics
begin

text \<open>
  The life of a \<open>PrometheusExporter\<close> (\<open>include/feed_handler/metrics_exporter.hpp\<close>): \<open>start\<close>, \<open>updateMetrics\<close>
  and \<open>stop\<close>, called by its owner, and the server thread that \<open>start\<close> launches, one step per look at
  \<open>running_\<close>, \<open>select\<close>, \<open>recv\<close> and answer. The system calls are the steps of the environment: the listening
  socket can be set up or not, clients connect, and a client may take any time before it sends
  anything. The answers are those of \<open>Metrics.handle_request\<close>.
\<close>

section \<open>State\<close>

text \<open>The server thread; \<open>X_none\<close> is a thread object that is not joinable. In \<open>X_recv\<close> the thread waits in
  \<open>recv\<close>, with \<open>None\<close> while the client has sent nothing. A client that closes its side delivers the
  empty string. The last three fields of the record are not members of the class: the connections waiting
  to be accepted, each with what its client has sent, the answers sent so far, and whether the owner is
  waiting in \<open>stop\<close>. The two platform branches of the code take the same steps; the map names the POSIX
  one.\<close>

datatype x_thread = X_none | X_setup | X_check | X_select | X_recv "string option" | X_respond string | X_finished

record exporter =
  x_port :: u16
  x_running :: bool
  x_serverThread :: x_thread
  x_data :: MetricsData
  x_pending :: "string option list"
  x_sent :: "string list"
  x_stopping :: bool

definition exporter_new :: exporter where
  "exporter_new = \<lparr>x_port = 9090, x_running = False, x_serverThread = X_none, x_data = MetricsData_zero,
     x_pending = [], x_sent = [], x_stopping = False\<rparr>"

section \<open>The owner's calls\<close>

text \<open>Assigning to a joinable \<open>std::thread\<close> ends the program (\<open>None\<close>). The result of \<open>start\<close> is \<open>true\<close>.\<close>

definition exporter_start :: "u16 \<Rightarrow> exporter \<Rightarrow> (exporter \<times> bool) option" where
  "exporter_start port x =
     (let x = x\<lparr>x_port := port, x_running := True\<rparr>
      in if x_serverThread x \<noteq> X_none then None
         else Some (x\<lparr>x_serverThread := X_setup\<rparr>, True))"

definition updateMetrics :: "MetricsData \<Rightarrow> exporter \<Rightarrow> exporter" where
  "updateMetrics data x = x\<lparr>x_data := data\<rparr>"

text \<open>\<open>stop\<close> up to the call of \<open>join\<close>, and the return of \<open>join\<close>, possible when the thread has ended.\<close>

definition stop_begin :: "exporter \<Rightarrow> exporter" where
  "stop_begin x =
     (if x_running x then
        let x = x\<lparr>x_running := False\<rparr>
        in if x_serverThread x \<noteq> X_none then x\<lparr>x_stopping := True\<rparr> else x
      else x)"

definition stop_join :: "exporter \<Rightarrow> exporter option" where
  "stop_join x = (if x_stopping x \<and> x_serverThread x = X_finished
     then Some (x\<lparr>x_serverThread := X_none, x_stopping := False\<rparr>) else None)"

section \<open>The server thread\<close>

text \<open>One step, given whether the listening socket can be created, bound and opened, and whether
  \<open>select\<close> and \<open>accept\<close> give a connection that is pending. \<open>None\<close>: the thread waits or has ended.\<close>

definition server_step :: "(real \<Rightarrow> string) \<Rightarrow> bool \<Rightarrow> bool \<Rightarrow> exporter \<Rightarrow> exporter option" where
  "server_step show_double listening ready x =
     (case x_serverThread x of
        X_setup \<Rightarrow> Some (x\<lparr>x_serverThread := (if listening then X_check else X_finished)\<rparr>)
      | X_check \<Rightarrow> (if x_running x then Some (x\<lparr>x_serverThread := X_select\<rparr>)
                     else Some (x\<lparr>x_serverThread := X_finished, x_pending := []\<rparr>))
      | X_select \<Rightarrow>
          (case x_pending x of
             c # cs \<Rightarrow> if ready then Some (x\<lparr>x_serverThread := X_recv c, x_pending := cs\<rparr>)
                       else Some (x\<lparr>x_serverThread := X_check\<rparr>)
           | [] \<Rightarrow> Some (x\<lparr>x_serverThread := X_check\<rparr>))
      | X_recv (Some received) \<Rightarrow> Some (x\<lparr>x_serverThread := X_respond received\<rparr>)
      | X_respond received \<Rightarrow> Some (x\<lparr>x_serverThread := X_check,
            x_sent := x_sent x @ [handle_request show_double (x_data x) received]\<rparr>)
      | _ \<Rightarrow> None)"

section \<open>Interleavings\<close>

datatype actor = Server | Client | Other

definition is_listening :: "exporter \<Rightarrow> bool" where
  "is_listening x \<longleftrightarrow> x_serverThread x \<notin> {X_none, X_setup, X_finished}"

inductive exp_step :: "(real \<Rightarrow> string) \<Rightarrow> actor \<Rightarrow> exporter \<Rightarrow> exporter \<Rightarrow> bool" for show_double where
  start: "\<not> x_stopping x \<Longrightarrow> exporter_start port x = Some (x', ok) \<Longrightarrow> exp_step show_double Other x x'"
| update: "exp_step show_double Other x (updateMetrics data x)"
| stop: "\<not> x_stopping x \<Longrightarrow> exp_step show_double Other x (stop_begin x)"
| join: "stop_join x = Some x' \<Longrightarrow> exp_step show_double Other x x'"
| connect: "is_listening x \<Longrightarrow> exp_step show_double Other x (x\<lparr>x_pending := x_pending x @ [c]\<rparr>)"
| send: "x_serverThread x = X_recv None
    \<Longrightarrow> exp_step show_double Client x (x\<lparr>x_serverThread := X_recv (Some bytes)\<rparr>)"
| turn: "server_step show_double listening ready x = Some x' \<Longrightarrow> exp_step show_double Server x x'"

inductive_cases server_turnE: "exp_step show_double Server x x'"

inductive exp_reach :: "(real \<Rightarrow> string) \<Rightarrow> exporter \<Rightarrow> bool" for show_double where
  init: "exp_reach show_double exporter_new"
| step: "exp_reach show_double x \<Longrightarrow> exp_step show_double a x x' \<Longrightarrow> exp_reach show_double x'"

section \<open>Invariant and measure\<close>

text \<open>The flag, the thread object and a call of \<open>stop\<close> agree.\<close>

definition exp_inv :: "exporter \<Rightarrow> bool" where
  "exp_inv x \<longleftrightarrow> (x_serverThread x \<noteq> X_none \<longleftrightarrow> x_running x \<or> x_stopping x) \<and> \<not> (x_running x \<and> x_stopping x)"

lemma exp_inv_step: "exp_step show_double a x x' \<Longrightarrow> exp_inv x \<Longrightarrow> exp_inv x'"
  by (cases rule: exp_step.cases, assumption)
    (auto simp: exp_inv_def exporter_start_def updateMetrics_def stop_begin_def stop_join_def server_step_def Let_def
      split: x_thread.splits option.splits list.splits if_splits)

lemma exp_inv_reach: "exp_reach show_double x \<Longrightarrow> exp_inv x"
proof (induction rule: exp_reach.induct)
  case init
  show ?case by (simp add: exp_inv_def exporter_new_def)
qed (rule exp_inv_step)

text \<open>What is left to do once the flag is down.\<close>

fun turns_left :: "x_thread \<Rightarrow> nat" where
  "turns_left X_setup = 2" | "turns_left X_check = 1" | "turns_left X_select = 4"
| "turns_left (X_recv (Some bytes)) = 3" | "turns_left (X_respond bytes) = 2" | "turns_left _ = 0"

lemma turns_left_recv [simp]: "turns_left (X_recv c) < 4"
  by (cases c) simp_all

abbreviation server_turn :: "(real \<Rightarrow> string) \<Rightarrow> exporter \<Rightarrow> exporter \<Rightarrow> bool" where
  "server_turn show_double \<equiv> exp_step show_double Server"

lemma turn_counts:
  assumes "server_turn show_double x x'" and "x_stopping x" "exp_inv x"
  shows "x_stopping x' \<and> exp_inv x' \<and> turns_left (x_serverThread x') < turns_left (x_serverThread x)"
proof -
  have "\<not> x_running x" using assms(2,3) by (simp add: exp_inv_def)
  with assms(1,2) have "x_stopping x' \<and> turns_left (x_serverThread x') < turns_left (x_serverThread x)"
    by (elim server_turnE)
      (auto simp: server_step_def split: x_thread.splits option.splits list.splits if_splits)
  then show ?thesis using exp_inv_step [OF assms(1,3)] by simp
qed

lemma turns_bounded:
  "(server_turn show_double ^^ n) x x' \<Longrightarrow> x_stopping x \<Longrightarrow> exp_inv x
    \<Longrightarrow> x_stopping x' \<and> exp_inv x' \<and> n + turns_left (x_serverThread x') \<le> turns_left (x_serverThread x)"
proof (induction n arbitrary: x')
  case (Suc n)
  from Suc.prems(1) obtain y where y: "(server_turn show_double ^^ n) x y" "server_turn show_double y x'" by auto
  show ?case using turn_counts [OF y(2)] Suc.IH [OF y(1) Suc.prems(2,3)] by simp
qed simp

lemma turns_left_le: "turns_left pc \<le> 4"
  by (cases pc rule: turns_left.cases) auto

lemma blocked:
  assumes "\<nexists>y. server_turn show_double x y"
  shows "x_serverThread x \<in> {X_none, X_finished, X_recv None}"
proof (rule ccontr)
  assume "\<not> ?thesis"
  then have "server_step show_double True True x \<noteq> None"
    by (auto simp: server_step_def split: x_thread.splits option.splits list.splits)
  then show False using assms turn by blast
qed

text \<open>A client that has connected and sends nothing keeps the thread in \<open>recv\<close>.\<close>

lemma silent_client_step:
  assumes "exp_step show_double a x x'" and "a \<noteq> Client" and "x_stopping x" "x_serverThread x = X_recv None"
  shows "x_stopping x' \<and> x_serverThread x' = X_recv None"
  using assms by cases (auto simp: updateMetrics_def stop_join_def server_step_def)

lemma silent_client_run:
  assumes "(\<lambda>x x'. \<exists>a. a \<noteq> Client \<and> exp_step show_double a x x')\<^sup>*\<^sup>* x x'"
    and "x_stopping x" "x_serverThread x = X_recv None"
  shows "x_stopping x' \<and> x_serverThread x' = X_recv None"
  using assms by induction (auto dest: silent_client_step)

text \<open>When the socket cannot be set up the thread ends, and \<open>start\<close> has returned \<open>true\<close>: the exporter counts
  as running and nobody answers.\<close>

lemma start_hides_bind_failure:
  assumes "x_serverThread x = X_none"
  shows "\<exists>x1 x2. exporter_start port x = Some (x1, True) \<and> server_step show_double False ready x1 = Some x2
    \<and> x_running x2 \<and> (\<forall>listening ready. server_step show_double listening ready x2 = None)"
  using assms by (simp add: exporter_start_def server_step_def Let_def)

lemma second_start_aborts:
  assumes "exporter_start port x = Some (x1, True)"
  shows "exporter_start port' x1 = None"
  using assms by (auto simp: exporter_start_def Let_def split: if_splits)

section \<open>Properties\<close>

text \<open>C18: When \<open>stop\<close> returns. Once \<open>stop\<close> waits in \<open>join\<close>, in any reachable state, the server thread takes
  at most four more steps of its own, and where it can take no further step it has ended, so that
  \<open>join\<close> returns, or it waits in \<open>recv\<close> for a client that has connected and sent nothing. In that
  case \<open>join\<close> stays blocked through every continuation in which this client remains silent,
  whatever other clients and threads do; and so does the \<open>main\<close> of the stream server.\<close>

theorem exporter_stop_returns:
  assumes "exp_reach show_double x" and "x_stopping x"
  shows "(\<forall>n x'. (server_turn show_double ^^ n) x x' \<longrightarrow> n \<le> 4)
    \<and> (\<forall>x'. (server_turn show_double)\<^sup>*\<^sup>* x x' \<and> (\<nexists>y. server_turn show_double x' y)
        \<longrightarrow> stop_join x' \<noteq> None \<or> x_serverThread x' = X_recv None)
    \<and> (x_serverThread x = X_recv None \<longrightarrow>
        (\<forall>x'. (\<lambda>x x'. \<exists>a. a \<noteq> Client \<and> exp_step show_double a x x')\<^sup>*\<^sup>* x x' \<longrightarrow> stop_join x' = None))"
proof (intro conjI)
  note inv = exp_inv_reach [OF assms(1)]
  show "\<forall>n x'. (server_turn show_double ^^ n) x x' \<longrightarrow> n \<le> 4"
    using turns_bounded [OF _ assms(2) inv] turns_left_le [of "x_serverThread x"] by (meson add_leD1 le_trans)
  show "\<forall>x'. (server_turn show_double)\<^sup>*\<^sup>* x x' \<and> (\<nexists>y. server_turn show_double x' y)
      \<longrightarrow> stop_join x' \<noteq> None \<or> x_serverThread x' = X_recv None"
  proof (intro allI impI, elim conjE)
    fix x' assume "(server_turn show_double)\<^sup>*\<^sup>* x x'" and stuck: "\<nexists>y. server_turn show_double x' y"
    then obtain n where "(server_turn show_double ^^ n) x x'" by (auto simp: rtranclp_is_Sup_relpowp)
    then have "x_stopping x' \<and> exp_inv x'" using turns_bounded [OF _ assms(2) inv] by blast
    then show "stop_join x' \<noteq> None \<or> x_serverThread x' = X_recv None"
      using blocked [OF stuck] by (auto simp: exp_inv_def stop_join_def)
  qed
  show "x_serverThread x = X_recv None \<longrightarrow>
      (\<forall>x'. (\<lambda>x x'. \<exists>a. a \<noteq> Client \<and> exp_step show_double a x x')\<^sup>*\<^sup>* x x' \<longrightarrow> stop_join x' = None)"
    using silent_client_run [OF _ assms(2)] by (auto simp: stop_join_def)
qed

text \<open>A client connects to a started exporter, sends nothing, and \<open>stop\<close> is called.\<close>

definition ex_stopping :: exporter where
  "ex_stopping = exporter_new\<lparr>x_serverThread := X_recv None, x_stopping := True\<rparr>"

lemma ex_stopping_reachable: "exp_reach show_double ex_stopping"
proof -
  let ?at = "\<lambda>pc ps. exporter_new\<lparr>x_running := True, x_serverThread := pc, x_pending := ps\<rparr>"
  note defs = exporter_start_def exporter_new_def server_step_def stop_begin_def is_listening_def ex_stopping_def
  have "exp_reach show_double (?at X_setup [])"
    using exp_reach.step [OF exp_reach.init start [of exporter_new 9090 _ True]] by (simp add: defs)
  then have "exp_reach show_double (?at X_check [])"
    using exp_reach.step [OF _ turn [of show_double True True]] by (simp add: defs)
  then have "exp_reach show_double (?at X_select [])"
    using exp_reach.step [OF _ turn [of show_double True True]] by (simp add: defs)
  then have "exp_reach show_double (?at X_select [None])"
    using exp_reach.step [OF _ connect [of "?at X_select []" show_double None]] by (simp add: defs)
  then have "exp_reach show_double (?at (X_recv None) [])"
    using exp_reach.step [OF _ turn [of show_double True True]] by (simp add: defs)
  then show ?thesis
    using exp_reach.step [OF _ stop [of "?at (X_recv None) []" show_double]] by (simp add: defs)
qed

theorem exporter_stop_returns_witness:
  "\<not> (\<exists>x'. (\<lambda>x x'. \<exists>a. a \<noteq> Client \<and> exp_step (\<lambda>_. ''0'') a x x')\<^sup>*\<^sup>* ex_stopping x' \<and> stop_join x' \<noteq> None)"
  using exporter_stop_returns [OF ex_stopping_reachable, of "\<lambda>_. ''0''"] by (auto simp: ex_stopping_def)

end
