(* ===== verification/Snapshot.thy ===== *)
theory Snapshot
  imports Metrics
begin

text \<open>
  What the engine publishes: the floating-point getters \<open>midPrice\<close> and \<open>microPrice\<close> of
  \<open>include/feed_handler/order_book.hpp\<close> (over the reals), and the JSON line the snapshot thread of
  \<open>src/stream_server.cpp\<close> prints every 50 ms for the Python bridge, which reads it line by line.
\<close>

section \<open>Mid and micro price\<close>

definition midPrice :: "LimitOrderBook \<Rightarrow> real" where
  "midPrice b =
     (if hasBids b \<and> hasAsks b
      then 0.5 * (of_int (sint (lvl_price (lob_bids b ! 0))) + of_int (sint (lvl_price (lob_asks b ! 0)))) else 0)"

definition microPrice :: "LimitOrderBook \<Rightarrow> real" where
  "microPrice b =
     (if \<not> hasBids b \<or> \<not> hasAsks b then 0
      else
        let qBid = of_int (sint (lvl_quantity (lob_bids b ! 0)));
            qAsk = of_int (sint (lvl_quantity (lob_asks b ! 0)));
            totalVol = qBid + qAsk
        in if totalVol \<le> 0 then midPrice b
           else (of_int (sint (lvl_price (lob_bids b ! 0))) * qAsk
                 + of_int (sint (lvl_price (lob_asks b ! 0))) * qBid) / totalVol)"

text \<open>\<open>OrderTable::loadFactor\<close>: the share of the slots that have ever been used.\<close>

definition loadFactor :: "OrderTable \<Rightarrow> real" where
  "loadFactor t = real (unat (ot_occupiedCount t)) / real (table_capacity t)"

lemma loadFactor_range:
  assumes "table_inv t"
  shows "0 \<le> loadFactor t \<and> loadFactor t \<le> 1"
proof -
  have cap: "0 < table_capacity t" "table_capacity t < 2 ^ 63" using table_invD(1) [OF assms] by (auto simp: cap_ok_def)
  have le: "length (filter rec_occupied (ot_table t)) \<le> table_capacity t" by simp
  then have "unat (ot_occupiedCount t) = length (filter rec_occupied (ot_table t))"
    unfolding table_invD(3) [OF assms] using cap(2) by (intro unat_u64 le_less_trans [OF le]) simp
  then show ?thesis using le cap(1) by (simp add: loadFactor_def divide_le_eq_1)
qed

lemma best_level_pos:
  assumes "side_ok ascending ls" and "ls \<noteq> []" and "lvl_active (ls ! 0)"
  shows "0 < sint (lvl_quantity (ls ! 0))"
proof -
  have "lvl_pos (ls ! 0)" using assms by (cases ls) (auto simp: side_ok_def actives_def)
  then show ?thesis by (simp add: lvl_pos_def word_sless_alt)
qed

lemma weighted_between:
  fixes p q a b :: real
  assumes "0 < a" and "0 < b"
  shows "(p * b + q * a) / (a + b) = p + (q - p) * (a / (a + b))"
    and "min p q \<le> (p * b + q * a) / (a + b) \<and> (p * b + q * a) / (a + b) \<le> max p q"
proof -
  show "(p * b + q * a) / (a + b) = p + (q - p) * (a / (a + b))" using assms by (simp add: field_simps)
  have "min p q * b \<le> p * b" "min p q * a \<le> q * a" "p * b \<le> max p q * b" "q * a \<le> max p q * a"
    using assms by simp_all
  then have "min p q * (a + b) \<le> p * b + q * a" "p * b + q * a \<le> max p q * (a + b)"
    by (simp_all only: distrib_left)
  then show "min p q \<le> (p * b + q * a) / (a + b) \<and> (p * b + q * a) / (a + b) \<le> max p q"
    using assms by (simp add: pos_le_divide_eq pos_divide_le_eq)
qed

section \<open>The JSON line\<close>

definition show_i32 :: "i32 \<Rightarrow> string" where      \<comment> \<open>\<open>std::to_string(int)\<close>\<close>
  "show_i32 n = (if sint n < 0 then ''-'' @ dec (nat (- sint n)) else dec (nat (sint n)))"

definition show_bool :: "bool \<Rightarrow> string" where
  "show_bool b = (if b then ''true'' else ''false'')"

definition show_char :: "byte \<Rightarrow> string" where      \<comment> \<open>\<open>std::string(1, c)\<close>\<close>
  "show_char c = [char_of (unat c)]"

fun commas :: "string list \<Rightarrow> string" where
  "commas [] = []"
| "commas [x] = x"
| "commas (x # y # ys) = x @ '','' @ commas (y # ys)"

definition level_json :: "PriceLevel \<Rightarrow> string" where
  \<open>level_json l = ''{"price":'' @ show_i32 (lvl_price l) @ '','' @ ''"qty":'' @ show_i32 (lvl_quantity l) @ '',''
     @ ''"orders":'' @ show_i32 (lvl_orderCount l) @ '','' @ ''"active":'' @ show_bool (lvl_active l) @ ''}''\<close>

definition packet_json :: "PacketRecord \<Rightarrow> string" where
  \<open>packet_json p = ''{"type":"'' @ show_char (pkt_type p) @ ''",'' @ ''"seqNo":'' @ show_u64 (pkt_seqNo p) @ '',''
     @ ''"ts":'' @ show_u64 (pkt_timestampNs p) @ '','' @ ''"orderId":'' @ show_u64 (pkt_orderId p) @ '',''
     @ ''"side":"'' @ show_char (pkt_side p) @ ''",'' @ ''"price":'' @ show_i32 (pkt_price p) @ '',''
     @ ''"qty":'' @ show_i32 (pkt_quantity p) @ ''}''\<close>

definition snapshot_json :: "(real \<Rightarrow> string) \<Rightarrow> real \<Rightarrow> 'r server \<Rightarrow> string" where
  \<open>snapshot_json show_double currentThroughput s =
     (let st = snapshot_latency (g_latencySamples s); b = g_orderBook s in
      ''{"type":"snapshot",''
      @ ''"totalIngested":'' @ show_u64 (g_totalIngested s) @ '',''
      @ ''"totalProcessed":'' @ show_u64 (g_totalProcessed s) @ '',''
      @ ''"throughput":'' @ show_double currentThroughput @ '',''
      @ ''"isStreaming":true,'' @ ''"targetRate":0,''
      @ ''"latency":{''
      @ ''"min":'' @ show_double (ls_min st) @ '','' @ ''"mean":'' @ show_double (ls_mean st) @ '',''
      @ ''"p50":'' @ show_double (ls_p50 st) @ '','' @ ''"p90":'' @ show_double (ls_p90 st) @ '',''
      @ ''"p95":'' @ show_double (ls_p95 st) @ '','' @ ''"p99":'' @ show_double (ls_p99 st) @ '',''
      @ ''"p999":'' @ show_double (ls_p999 st) @ '','' @ ''"max":'' @ show_double (ls_max st) @ ''},''
      @ ''"bids":['' @ commas (map level_json (lob_bids b)) @ ''],''
      @ ''"asks":['' @ commas (map level_json (lob_asks b)) @ ''],''
      @ ''"analytics":{''
      @ ''"spread":'' @ show_i32 (spread b) @ '','' @ ''"mid":'' @ show_double (midPrice b) @ '',''
      @ ''"micro":'' @ show_double (microPrice b) @ '',''
      @ ''"trades":'' @ show_u64 (lob_tradesExecutedCount b) @ '',''
      @ ''"gaps":'' @ show_u64 (lob_sequenceGapsDetected b) @ '',''
      @ ''"hasBids":'' @ show_bool (hasBids b) @ '','' @ ''"hasAsks":'' @ show_bool (hasAsks b) @ ''},''
      @ ''"tape":['' @ commas (map packet_json (snapshot_tape (g_recentTape s) (g_tapeHead s))) @ '']}'')\<close>

section \<open>Messages in the server are of known types\<close>

definition typed :: "WireMessage \<Rightarrow> bool" where
  "typed m \<longleftrightarrow> msgType m \<in> {chA, chX, chE} \<and> (msgType m = chA \<longrightarrow> add_side (wire_add m) \<in> {chB, chS})"

lemma typed_valid: "isValid m \<Longrightarrow> typed m"
  by (auto simp: typed_def isValid_def split: if_splits)

lemma typed_parsed: "parseUserLine f now line seq out = (True, m) \<Longrightarrow> typed m"
  using parseUserLine_cases [of f now line seq out m] parse_add_sound parse_cancel_sound parse_exec_sound typed_valid
  by (fastforce simp: typed_def)

lemma typed_cross: "typed (cross_msg now s)"
  by (simp add: typed_def cross_msg_def)

lemma typed_burst: "in_range u \<Longrightarrow> burst_step nowNs u k g = (m, g') \<Longrightarrow> typed m"
  using burst.step_valid typed_valid by blast

definition typed_inv :: "'r server \<Rightarrow> event list \<Rightarrow> bool" where
  "typed_inv s es \<longleftrightarrow> list_all typed (accepted es)
     \<and> (case t_commander s of Cmd_push m _ \<Rightarrow> typed m | _ \<Rightarrow> True)
     \<and> (case t_producer s of Prod_push m _ _ _ \<Rightarrow> typed m | _ \<Rightarrow> True)"


lemma typed_command:
  assumes "typed_inv s es" and "t_commander s = Cmd_read"
  shows "typed_inv (command f files now line s) es"
proof -
  have if_inv: "typed_inv x es \<Longrightarrow> typed_inv y es \<Longrightarrow> typed_inv (if c then x else y) es" for c and x y :: "'a server"
    by simp
  show ?thesis
    unfolding command_def
    by (intro if_inv) (use assms in \<open>auto simp: typed_inv_def Let_def loadFileIntoEngine_def reset_server_def
        typed_cross dest: typed_parsed split: prod.split option.split\<close>)
qed

lemma typed_load_line:
  "typed_inv s es \<Longrightarrow> t_commander s = Cmd_load (line # rest) \<Longrightarrow> typed_inv (load_line f now line rest s) es"
  by (auto simp: typed_inv_def load_line_def dest: typed_parsed split: prod.split)

lemma typed_generate:
  assumes "typed_inv s es" and "in_range u"
  shows "typed_inv (generate_one now u n k gen s) es"
proof -
  obtain m g' where b: "burst_step (\<lambda>_. now) u k (gen\<lparr>g_seq := g_userSeqNo s\<rparr>) = (m, g')"
    by (cases "burst_step (\<lambda>_. now) u k (gen\<lparr>g_seq := g_userSeqNo s\<rparr>)")
  then show ?thesis using assms typed_burst [OF assms(2) b] by (simp add: typed_inv_def generate_one_def)
qed

lemma push_turn_threads:
  "push_turn s m = (s', ok) \<Longrightarrow> t_commander s' = t_commander s \<and> t_producer s' = t_producer s"
  by (auto simp: push_turn_def split: prod.splits if_splits)

lemma typed_quiet: "typed_inv s es \<Longrightarrow> accepted_by e = [] \<Longrightarrow> typed_inv s (es @ [e])"
  by (simp add: typed_inv_def)

lemma typed_step:
  assumes "srv_step w s e s'" and inv: "typed_inv s es" and u: "in_range (w_uniform w)"
  shows "typed_inv s' (es @ [e])"
  using assms(1)
proof cases
  case (read_command line now)
  then show ?thesis using typed_quiet [OF typed_command [OF inv read_command(3)]] by simp
next
  case (load_next line rest now)
  then show ?thesis using typed_quiet [OF typed_load_line [OF inv load_next(3)]] by simp
next
  case (command_push msg rest s1 ok)
  then show ?thesis using inv push_turn_threads [OF command_push(4)] by (auto simp: typed_inv_def)
next
  case (burst_push msg n k gen s1 ok)
  then show ?thesis using inv push_turn_threads [OF burst_push(4)] by (auto simp: typed_inv_def)
next
  case (burst_message n k gen now)
  then show ?thesis using typed_quiet [OF typed_generate [OF inv u]] by simp
next
  case (consume_next elapsed)
  then show ?thesis using inv by (simp add: typed_inv_def)
next
  case burst_begin
  then show ?thesis using inv by (simp add: typed_inv_def take_burst_def Let_def)
qed (use inv in \<open>simp_all add: typed_inv_def\<close>)

lemma typed_reach:
  "srv_reach w N D T s es \<Longrightarrow> in_range (w_uniform w) \<Longrightarrow> typed_inv s es"
proof (induction rule: srv_reach.induct)
  case start
  then show ?case by (simp add: typed_inv_def server_init_def)
next
  case (step s es e s')
  then show ?case using typed_step by blast
qed

section \<open>Printable characters\<close>

definition printable :: "char \<Rightarrow> bool" where
  "printable c \<longleftrightarrow> (32 :: nat) \<le> of_char c \<and> of_char c < (127 :: nat)"

lemma printable_dec [simp]: "list_all printable (dec n)"
proof -
  have "is_digit c \<Longrightarrow> printable c" for c by (auto simp: is_digit_def printable_def)
  then show ?thesis using dec_digits [of n] by (auto simp: list_all_iff)
qed

lemma printable_numbers [simp]: "list_all printable (show_i32 i)" "list_all printable (show_u64 n)"
  by (simp_all add: show_i32_def show_u64_def) (simp add: printable_def)

lemma printable_bool [simp]: "list_all printable (show_bool b)"
  by (simp add: show_bool_def) (simp add: printable_def)

lemma printable_commas: "list_all (list_all printable) xs \<Longrightarrow> list_all printable (commas xs)"
  by (induction xs rule: commas.induct) (simp_all add: printable_def)

lemma printable_level [simp]: "list_all printable (level_json l)"
  unfolding level_json_def list_all_append
  by (intro conjI printable_numbers printable_bool; code_simp)

lemma packet_record_letters:
  assumes "typed m"
  shows "pkt_type (packet_record m) \<in> {chA, chX, chE}"
    and "pkt_side (packet_record m) \<in> {chB, chS, chX, chE}"
  using assms by (auto simp: packet_record_def typed_def Let_def)

lemma printable_letter: "c \<in> {chA, chX, chE, chB, chS} \<Longrightarrow> list_all printable (show_char c)"
  by (auto simp: show_char_def printable_def)

lemma printable_packet:
  assumes "typed m"
  shows "list_all printable (packet_json (packet_record m))"
proof -
  have letters: "list_all printable (show_char (pkt_type (packet_record m)))"
    "list_all printable (show_char (pkt_side (packet_record m)))"
    using packet_record_letters [OF assms] by (auto intro!: printable_letter)
  show ?thesis
    unfolding packet_json_def list_all_append by (intro conjI printable_numbers letters; code_simp)
qed

section \<open>Properties\<close>

lemma snapshot_tape_typed:
  assumes "srv_reach w Capacity Depth TableCapacity s es" and "in_range (w_uniform w)"
    and "cap_ok Capacity" and "0 < Depth" and "cap_ok TableCapacity"
    and "length (popped (since_reset es)) < 2 ^ 64"
  shows "\<exists>ms. list_all typed ms \<and> snapshot_tape (g_recentTape s) (g_tapeHead s) = map packet_record ms"
proof -
  have inv: "server_inv Capacity Depth TableCapacity s es" by (rule inv_reach [OF assms(1,3-5)])
  let ?ms = "popped (since_reset es)" and ?pkts = "map packet_record (popped (since_reset es))"
  have "fst (tape_run ?pkts) = g_recentTape s" "snd (tape_run ?pkts) = g_tapeHead s"
    using inv by (metis fst_conv server_inv_def, metis snd_conv server_inv_def)
  then have tape: "snapshot_tape (g_recentTape s) (g_tapeHead s) = map packet_record (take 30 (rev ?ms))"
    using snapshot_tape_recent [of ?pkts] assms(6) by (simp add: take_map rev_map)
  have "list_all typed (popped es)"
    using typed_reach [OF assms(1,2)] inv by (simp add: typed_inv_def server_inv_def)
  moreover have "es = rev (dropWhile (\<lambda>e. e \<noteq> Ev_reset) (rev es)) @ since_reset es"
    unfolding since_reset_def by (metis rev_append rev_rev_ident takeWhile_dropWhile_id)
  then have "set (popped (since_reset es)) \<subseteq> set (popped es)"
    unfolding popped_def by (metis concat_append map_append set_append sup_ge2)
  ultimately have "list_all typed (take 30 (rev ?ms))"
    by (auto simp: list_all_iff dest!: in_set_takeD)
  with tape show ?thesis by blast
qed

lemma snapshot_json_printable:
  assumes "list_all typed ms" and "snapshot_tape (g_recentTape s) (g_tapeHead s) = map packet_record ms"
    and show_double: "\<And>x. list_all printable (show_double x)"
  shows "list_all printable (snapshot_json show_double throughput s)"
proof -
  have levels: "list_all printable (commas (map level_json ls))" for ls
    by (rule printable_commas, induction ls) simp_all
  have packets: "list_all printable (commas (map packet_json (map packet_record ms)))"
    using assms(1) printable_packet by (intro printable_commas) (auto simp: list_all_iff)
  show ?thesis
    unfolding snapshot_json_def Let_def assms(2) list_all_append
    by (intro conjI levels packets show_double printable_numbers printable_bool; code_simp)
qed

text \<open>The snapshot is one line of printable characters. In every reachable state of the server,
  whatever was typed, loaded or generated, the JSON text the snapshot thread prints contains only
  printable ASCII - no newline inside the line the bridge reads, no control byte from a packet.\<close>

theorem snapshot_one_line:
  assumes "srv_reach w Capacity Depth TableCapacity s es" and "in_range (w_uniform w)"
    and "cap_ok Capacity" and "0 < Depth" and "cap_ok TableCapacity"
    and "length (popped (since_reset es)) < 2 ^ 64"
    and show_double: "\<And>x. list_all printable (show_double x)"
  shows "list_all printable (snapshot_json show_double throughput s)"
proof -
  obtain ms where ms: "list_all typed ms" "snapshot_tape (g_recentTape s) (g_tapeHead s) = map packet_record ms"
    using snapshot_tape_typed [OF assms(1-6)] by blast
  then show ?thesis by (rule snapshot_json_printable) (rule show_double)
qed

theorem snapshot_one_line_witness:
  "list_all printable (snapshot_json (\<lambda>_. ''0'') 0 ex_server)"
proof (rule snapshot_one_line [OF ex_server_reachable])
  show "in_range (w_uniform ex_world)" using ex_uniform_range by (simp add: ex_world_def)
qed (simp_all add: cap_ok_def printable_def since_reset_def popped_def)

text \<open>C40: The micro price in any reachable book with both sides quoted is the bid plus the spread times the
  share of the bid in the top quantities, so it and the mid price lie between the two best prices; the
  fallback for an empty top of book is never taken there.\<close>

theorem micro_price_weighted:
  assumes "0 < Depth" and "cap_ok TableCapacity"
    and book: "b = processAll (LimitOrderBook_new Depth TableCapacity) ms"
    and "hasBids b" and "hasAsks b"
  shows "microPrice b = of_int (sint (bestBidPrice b))
      + (of_int (sint (bestAskPrice b)) - of_int (sint (bestBidPrice b)))
        * (of_int (sint (bestBidQuantity b)) / (of_int (sint (bestBidQuantity b)) + of_int (sint (bestAskQuantity b))))
    \<and> (\<forall>x \<in> {microPrice b, midPrice b}.
        min (of_int (sint (bestBidPrice b))) (of_int (sint (bestAskPrice b))) \<le> x
        \<and> x \<le> max (of_int (sint (bestBidPrice b))) (of_int (sint (bestAskPrice b))))"
proof -
  have "lob_inv b" using lob_inv_new [OF assms(1,2)] processAll_inv book by blast
  then have pos: "0 < sint (lvl_quantity (lob_bids b ! 0))" "0 < sint (lvl_quantity (lob_asks b ! 0))"
    using best_level_pos assms(4,5) by (auto simp: lob_inv_def hasBids_def hasAsks_def)
  have best: "bestBidPrice b = lvl_price (lob_bids b ! 0)" "bestAskPrice b = lvl_price (lob_asks b ! 0)"
    "bestBidQuantity b = lvl_quantity (lob_bids b ! 0)" "bestAskQuantity b = lvl_quantity (lob_asks b ! 0)"
    using assms(4,5) by (simp_all add: hasBids_def hasAsks_def bestBidPrice_def bestAskPrice_def
        bestBidQuantity_def bestAskQuantity_def)
  have q: "0 < (of_int (sint (bestBidQuantity b)) :: real)" "0 < (of_int (sint (bestAskQuantity b)) :: real)"
    unfolding best of_int_0_less_iff by (rule pos)+
  then have "\<not> (of_int (sint (bestBidQuantity b)) + of_int (sint (bestAskQuantity b)) \<le> (0 :: real))"
    by linarith
  then have micro: "microPrice b = (of_int (sint (bestBidPrice b)) * of_int (sint (bestAskQuantity b))
      + of_int (sint (bestAskPrice b)) * of_int (sint (bestBidQuantity b)))
      / (of_int (sint (bestBidQuantity b)) + of_int (sint (bestAskQuantity b)))"
    using assms(4,5) best by (simp add: microPrice_def Let_def)
  have mid: "midPrice b = 0.5 * (of_int (sint (bestBidPrice b)) + of_int (sint (bestAskPrice b)))"
    using assms(4,5) best by (simp add: midPrice_def)
  note w = weighted_between [OF q]
  have "min p q \<le> 0.5 * (p + q) \<and> 0.5 * (p + q) \<le> max p q" for p q :: real by (auto simp: min_def max_def)
  then show ?thesis unfolding micro mid using w by auto
qed

theorem micro_price_weighted_witness:
  "microPrice (processAll (LimitOrderBook_new 3 4) [ex_add 1 7 chB 100 30, ex_add 2 8 chS 104 10]) = 103"
proof -
  let ?b = "processAll (LimitOrderBook_new 3 4) [ex_add 1 7 chB 100 30, ex_add 2 8 chS 104 10]"
  have "cap_ok 4" by (simp add: cap_ok_def)
  moreover have "hasBids ?b" "hasAsks ?b" "sint (bestBidPrice ?b) = 100" "sint (bestAskPrice ?b) = 104"
    "sint (bestBidQuantity ?b) = 30" "sint (bestAskQuantity ?b) = 10" by code_simp+
  ultimately show ?thesis
    using micro_price_weighted [of 3 4 ?b, OF _ _ refl] by (simp del: processAll_simps)
qed

end
