(* ===== verification/ServerMain.thy ===== *)
theory ServerMain
  imports Shutdown Exporter Snapshot
begin

text \<open>
  The whole process of \<open>src/stream_server.cpp\<close>: \<open>main\<close> with its five threads. The producer, consumer and
  command threads are those of \<open>srv_step\<close> (theory \<open>StreamServer\<close>), the thread of the metrics exporter and
  its clients those of theory \<open>Exporter\<close>. Added here are the snapshot thread, one step for each of its
  reads of the shared state, and \<open>main\<close> itself, one step per call of \<open>start\<close>, \<open>join\<close> and \<open>stop\<close>.
\<close>

section \<open>State\<close>

text \<open>The snapshot thread: at the loop test, awake, and then with its locals \<open>currentProcessed\<close> and
  \<open>currentThroughput\<close>, \<open>latCopy\<close>, the total and the book part of the line.\<close>

datatype snapshotter =
    Snap_check
  | Snap_awake
  | Snap_copy u64 real
  | Snap_metrics u64 real "int list"
  | Snap_book u64 real "int list"
  | Snap_tape u64 real "int list" u64 LimitOrderBook
  | Snap_done

datatype main_pc =
    Main_start | Main_commander | Main_producer | Main_consumer | Main_snapshotter
  | Main_stop | Main_exporter | Main_returned

text \<open>\<open>pr_past\<close> is no variable of the program: it lists the states the shared variables went through.\<close>

record 'r process =
  pr_server :: "'r server"
  pr_exporter :: exporter
  pr_snap :: snapshotter
  pr_lastProcessed :: u64
  pr_stdout :: "string list"
  pr_main :: main_pc
  pr_past :: "'r server list"

definition process_init :: "nat \<Rightarrow> nat \<Rightarrow> nat \<Rightarrow> 'r process" where
  "process_init Capacity Depth TableCapacity =
     \<lparr>pr_server = server_init Capacity Depth TableCapacity, pr_exporter = exporter_new,
      pr_snap = Snap_check, pr_lastProcessed = 0, pr_stdout = [], pr_main = Main_start,
      pr_past = [server_init Capacity Depth TableCapacity]\<rparr>"

section \<open>The snapshot thread\<close>

text \<open>One step, given the time since the last snapshot. The metrics take the counter and the latency
  samples read before; the line takes in addition the total and the book.\<close>

definition snap_turn :: "(real \<Rightarrow> string) \<Rightarrow> real \<Rightarrow> 'r process \<Rightarrow> 'r process option" where
  "snap_turn show_double dtSec p =
     (let s = pr_server p in
      case pr_snap p of
        Snap_check \<Rightarrow> Some (p\<lparr>pr_snap := (if g_running s then Snap_awake else Snap_done)\<rparr>)
      | Snap_awake \<Rightarrow>
          (let currentProcessed = g_totalProcessed s in
           Some (p\<lparr>pr_snap := Snap_copy currentProcessed
                     (snapshot_throughput dtSec currentProcessed (pr_lastProcessed p)),
                   pr_lastProcessed := currentProcessed\<rparr>))
      | Snap_copy currentProcessed throughput \<Rightarrow>
          Some (p\<lparr>pr_snap := Snap_metrics currentProcessed throughput (g_latencySamples s)\<rparr>)
      | Snap_metrics currentProcessed throughput latCopy \<Rightarrow>
          Some (p\<lparr>pr_snap := Snap_book currentProcessed throughput latCopy,
                  pr_exporter := updateMetrics (snapshot_metrics throughput
                    (s\<lparr>g_totalProcessed := currentProcessed, g_latencySamples := latCopy\<rparr>)) (pr_exporter p)\<rparr>)
      | Snap_book currentProcessed throughput latCopy \<Rightarrow>
          Some (p\<lparr>pr_snap := Snap_tape currentProcessed throughput latCopy (g_totalIngested s) (g_orderBook s)\<rparr>)
      | Snap_tape currentProcessed throughput latCopy ingested book \<Rightarrow>
          Some (p\<lparr>pr_snap := Snap_check, pr_stdout := pr_stdout p @ [snapshot_json show_double throughput
                    (s\<lparr>g_totalProcessed := currentProcessed, g_latencySamples := latCopy,
                       g_totalIngested := ingested, g_orderBook := book\<rparr>)]\<rparr>)
      | Snap_done \<Rightarrow> None)"

section \<open>The main thread\<close>

text \<open>\<open>None\<close>: the call \<open>main\<close> is at does not return now.\<close>

definition set_server :: "'r server \<Rightarrow> 'r process \<Rightarrow> 'r process" where
  "set_server s p = p\<lparr>pr_server := s, pr_past := pr_past p @ [s]\<rparr>"

definition main_turn :: "'r process \<Rightarrow> 'r process option" where
  "main_turn p =
     (let s = pr_server p in
      case pr_main p of
        Main_start \<Rightarrow> map_option (\<lambda>(x, started). p\<lparr>pr_exporter := x, pr_main := Main_commander\<rparr>)
                        (exporter_start 9090 (pr_exporter p))
      | Main_commander \<Rightarrow> (if t_commander s = Cmd_done
          then Some ((set_server (s\<lparr>g_running := False\<rparr>) p)\<lparr>pr_main := Main_producer\<rparr>) else None)
      | Main_producer \<Rightarrow> (if t_producer s = Prod_done then Some (p\<lparr>pr_main := Main_consumer\<rparr>) else None)
      | Main_consumer \<Rightarrow> (if t_consumerDone s then Some (p\<lparr>pr_main := Main_snapshotter\<rparr>) else None)
      | Main_snapshotter \<Rightarrow> (if pr_snap p = Snap_done then Some (p\<lparr>pr_main := Main_stop\<rparr>) else None)
      | Main_stop \<Rightarrow> Some (p\<lparr>pr_exporter := stop_begin (pr_exporter p), pr_main := Main_exporter\<rparr>)
      | Main_exporter \<Rightarrow> (if x_stopping (pr_exporter p)
          then map_option (\<lambda>x. p\<lparr>pr_exporter := x, pr_main := Main_returned\<rparr>) (stop_join (pr_exporter p))
          else Some (p\<lparr>pr_main := Main_returned\<rparr>))
      | Main_returned \<Rightarrow> None)"

section \<open>Interleavings\<close>

datatype thread = Engine event | Snapshotter | Http actor | Main

text \<open>Of the steps of \<open>srv_step\<close> the clearing of \<open>g_running\<close> after the join belongs to \<open>main\<close>.\<close>

inductive proc_step :: "'r world \<Rightarrow> (real \<Rightarrow> string) \<Rightarrow> 'r process \<Rightarrow> thread \<Rightarrow> 'r process \<Rightarrow> bool"
  for w show_double where
  engine: "pr_main p \<noteq> Main_start \<Longrightarrow> srv_step w (pr_server p) e s'
    \<Longrightarrow> t_commander (pr_server p) = Cmd_done \<longrightarrow> g_running s' = g_running (pr_server p)
    \<Longrightarrow> proc_step w show_double p (Engine e) (set_server s' p)"
| snapshot: "pr_main p \<noteq> Main_start \<Longrightarrow> snap_turn show_double dtSec p = Some p'
    \<Longrightarrow> proc_step w show_double p Snapshotter p'"
| http_turn: "server_step show_double listening ready (pr_exporter p) = Some x'
    \<Longrightarrow> proc_step w show_double p (Http Server) (p\<lparr>pr_exporter := x'\<rparr>)"
| http_send: "exp_step show_double Client (pr_exporter p) x'
    \<Longrightarrow> proc_step w show_double p (Http Client) (p\<lparr>pr_exporter := x'\<rparr>)"
| http_connect: "is_listening (pr_exporter p)
    \<Longrightarrow> proc_step w show_double p (Http Other)
          (p\<lparr>pr_exporter := (pr_exporter p)\<lparr>x_pending := x_pending (pr_exporter p) @ [c]\<rparr>\<rparr>)"
| main: "main_turn p = Some p' \<Longrightarrow> proc_step w show_double p Main p'"

inductive_cases proc_stepE: "proc_step w show_double p t p'"

inductive proc_reach :: "'r world \<Rightarrow> (real \<Rightarrow> string) \<Rightarrow> nat \<Rightarrow> nat \<Rightarrow> nat \<Rightarrow> 'r process \<Rightarrow> bool"
  for w show_double Capacity Depth TableCapacity where
  init: "proc_reach w show_double Capacity Depth TableCapacity (process_init Capacity Depth TableCapacity)"
| step: "proc_reach w show_double Capacity Depth TableCapacity p \<Longrightarrow> proc_step w show_double p t p'
    \<Longrightarrow> proc_reach w show_double Capacity Depth TableCapacity p'"

abbreviation proc_steps :: "'r world \<Rightarrow> (real \<Rightarrow> string) \<Rightarrow> 'r process \<Rightarrow> 'r process \<Rightarrow> bool" where
  "proc_steps w show_double \<equiv> (\<lambda>p p'. \<exists>t. proc_step w show_double p t p')\<^sup>*\<^sup>*"

section \<open>The parts of a run\<close>

text \<open>What each step does to the shared state: nothing, or one step of \<open>srv_step\<close>.\<close>

lemma proc_step_server:
  assumes "proc_step w show_double p t p'"
  shows "(pr_server p' = pr_server p \<and> pr_past p' = pr_past p)
    \<or> (\<exists>e. srv_step w (pr_server p) e (pr_server p') \<and> pr_past p' = pr_past p @ [pr_server p'])"
  using assms
proof cases
  case (main)
  then show ?thesis
    using join_commander [of "pr_server p" w]
    by (auto simp: main_turn_def set_server_def Let_def split: main_pc.splits if_splits)
qed (auto simp: set_server_def snap_turn_def Let_def split: snapshotter.splits)

definition past_reachable :: "'r world \<Rightarrow> nat \<Rightarrow> nat \<Rightarrow> nat \<Rightarrow> 'r process \<Rightarrow> bool" where
  "past_reachable w N D T p \<longleftrightarrow> pr_past p \<noteq> [] \<and> last (pr_past p) = pr_server p
     \<and> (\<forall>i < length (pr_past p). \<exists>es. length es \<le> i \<and> srv_reach w N D T (pr_past p ! i) es)"

lemma past_reachable_now:
  assumes "past_reachable w N D T p"
  obtains es where "length es < length (pr_past p)" and "srv_reach w N D T (pr_server p) es"
proof -
  have "pr_past p ! (length (pr_past p) - 1) = pr_server p" "length (pr_past p) - 1 < length (pr_past p)"
    using assms by (auto simp: past_reachable_def last_conv_nth)
  with assms that show ?thesis unfolding past_reachable_def by (metis le_less_trans)
qed

lemma reach_past: "proc_reach w show_double N D T p \<Longrightarrow> past_reachable w N D T p"
proof (induction rule: proc_reach.induct)
  case init
  show ?case by (auto simp: past_reachable_def process_init_def intro: srv_reach.start)
next
  case (step p t p')
  obtain es where es: "length es < length (pr_past p)" "srv_reach w N D T (pr_server p) es"
    using past_reachable_now [OF step.IH] by blast
  from proc_step_server [OF step.hyps(2)] show ?case
  proof
    assume "pr_server p' = pr_server p \<and> pr_past p' = pr_past p"
    then show ?thesis using step.IH by (simp add: past_reachable_def)
  next
    assume "\<exists>e. srv_step w (pr_server p) e (pr_server p') \<and> pr_past p' = pr_past p @ [pr_server p']"
    then obtain e where e: "srv_step w (pr_server p) e (pr_server p')" "pr_past p' = pr_past p @ [pr_server p']" by blast
    have "length (es @ [e]) \<le> length (pr_past p) \<and> srv_reach w N D T (pr_server p') (es @ [e])"
      using es(1) srv_reach.step [OF es(2) e(1)] by simp
    then have "\<exists>es. length es \<le> length (pr_past p) \<and> srv_reach w N D T (pr_server p') es" by blast
    then show ?thesis
      using step.IH e(2) unfolding past_reachable_def by (auto simp: nth_append less_Suc_eq)
  qed
qed

lemma reach_server:
  assumes "proc_reach w show_double N D T p"
  obtains es where "srv_reach w N D T (pr_server p) es"
  using past_reachable_now [OF reach_past [OF assms]] by blast

text \<open>The exporter only meets calls its own theory allows: \<open>start\<close> once, \<open>stop\<close> once.\<close>

definition main_inv :: "'r process \<Rightarrow> bool" where
  "main_inv p \<longleftrightarrow>
     (pr_main p = Main_start \<longrightarrow> x_serverThread (pr_exporter p) = X_none \<and> g_running (pr_server p))
     \<and> (x_running (pr_exporter p) \<longleftrightarrow> pr_main p \<notin> {Main_start, Main_exporter, Main_returned})
     \<and> (x_stopping (pr_exporter p) \<longrightarrow> pr_main p = Main_exporter)
     \<and> (pr_main p \<notin> {Main_start, Main_commander} \<longrightarrow> t_commander (pr_server p) = Cmd_done \<and> \<not> g_running (pr_server p))
     \<and> (pr_main p \<notin> {Main_start, Main_commander, Main_producer} \<longrightarrow> t_producer (pr_server p) = Prod_done)
     \<and> (pr_main p \<in> {Main_snapshotter, Main_stop, Main_exporter, Main_returned} \<longrightarrow> t_consumerDone (pr_server p))
     \<and> (pr_main p \<in> {Main_stop, Main_exporter, Main_returned} \<longrightarrow> pr_snap p = Snap_done)"

text \<open>Threads that have ended stay ended.\<close>

lemma command_threads [simp]:
  "t_producer (command f files now line s) = t_producer s"
  "t_consumerDone (command f files now line s) = t_consumerDone s"
proof -
  let ?P = "\<lambda>x :: 'a server. t_producer x = t_producer s \<and> t_consumerDone x = t_consumerDone s"
  have if_inv: "?P x \<Longrightarrow> ?P y \<Longrightarrow> ?P (if c then x else y)" for c and x y :: "'a server" by simp
  have "?P (command f files now line s)"
    unfolding command_def
    by (intro if_inv; simp add: Let_def loadFileIntoEngine_def reset_server_def split: prod.split option.split)
  then show "t_producer (command f files now line s) = t_producer s"
    "t_consumerDone (command f files now line s) = t_consumerDone s" by simp_all
qed

lemma done_stays:
  assumes "srv_step w s e s'"
  shows "t_commander s = Cmd_done \<Longrightarrow> t_commander s' = Cmd_done"
    and "t_producer s = Prod_done \<Longrightarrow> t_producer s' = Prod_done"
    and "t_consumerDone s \<Longrightarrow> t_consumerDone s'"
  using assms
  by (cases rule: srv_step.cases; auto simp: load_line_def take_burst_def generate_one_def Let_def
      dest: push_turn_frame split: prod.splits if_splits)+

lemma main_inv_init: "main_inv (process_init N D T)"
  by (simp add: main_inv_def process_init_def server_init_def exporter_new_def)

lemma updateMetrics_flags [simp]:
  "x_running (updateMetrics d x) = x_running x" "x_stopping (updateMetrics d x) = x_stopping x"
  "x_serverThread (updateMetrics d x) = x_serverThread x" "x_sent (updateMetrics d x) = x_sent x"
  by (simp_all add: updateMetrics_def)

lemma snap_turn_frame:
  assumes "snap_turn show_double dtSec p = Some p'"
  shows "pr_server p' = pr_server p" "pr_main p' = pr_main p" "pr_past p' = pr_past p"
    "x_running (pr_exporter p') = x_running (pr_exporter p)" "x_stopping (pr_exporter p') = x_stopping (pr_exporter p)"
    "x_serverThread (pr_exporter p') = x_serverThread (pr_exporter p)"
    "x_sent (pr_exporter p') = x_sent (pr_exporter p)" "pr_snap p \<noteq> Snap_done"
    "pr_exporter p' = pr_exporter p \<or> (\<exists>d. pr_exporter p' = updateMetrics d (pr_exporter p))"
  using assms by (auto simp: snap_turn_def Let_def split: snapshotter.splits)

lemma server_step_frame:
  assumes "server_step show_double listening ready x = Some x'"
  shows "x_running x' = x_running x" "x_stopping x' = x_stopping x" "x_data x' = x_data x"
    "x_serverThread x \<noteq> X_none" "x_serverThread x \<noteq> X_recv None"
    "x_sent x' = x_sent x \<or> (\<exists>r. x_sent x' = x_sent x @ [handle_request show_double (x_data x) r])"
  using assms by (auto simp: server_step_def split: x_thread.splits option.splits list.splits if_splits)

lemma client_step:
  "exp_step show_double Client x x' \<longleftrightarrow>
    x_serverThread x = X_recv None \<and> (\<exists>bytes. x' = x\<lparr>x_serverThread := X_recv (Some bytes)\<rparr>)"
  by (auto simp: exp_step.simps)

lemma main_turn_cases:
  assumes "main_turn p = Some p'"
  obtains (start) x ok where "pr_main p = Main_start" "exporter_start 9090 (pr_exporter p) = Some (x, ok)"
      "p' = p\<lparr>pr_exporter := x, pr_main := Main_commander\<rparr>"
  | (commander) "pr_main p = Main_commander" "t_commander (pr_server p) = Cmd_done"
      "p' = (set_server ((pr_server p)\<lparr>g_running := False\<rparr>) p)\<lparr>pr_main := Main_producer\<rparr>"
  | (producer) "pr_main p = Main_producer" "t_producer (pr_server p) = Prod_done" "p' = p\<lparr>pr_main := Main_consumer\<rparr>"
  | (consumer) "pr_main p = Main_consumer" "t_consumerDone (pr_server p)" "p' = p\<lparr>pr_main := Main_snapshotter\<rparr>"
  | (snapshotter) "pr_main p = Main_snapshotter" "pr_snap p = Snap_done" "p' = p\<lparr>pr_main := Main_stop\<rparr>"
  | (stop) "pr_main p = Main_stop" "p' = p\<lparr>pr_exporter := stop_begin (pr_exporter p), pr_main := Main_exporter\<rparr>"
  | (join) x where "pr_main p = Main_exporter" "stop_join (pr_exporter p) = Some x"
      "p' = p\<lparr>pr_exporter := x, pr_main := Main_returned\<rparr>"
  | (idle) "pr_main p = Main_exporter" "\<not> x_stopping (pr_exporter p)" "p' = p\<lparr>pr_main := Main_returned\<rparr>"
  using assms by (cases "pr_main p") (auto simp: main_turn_def Let_def split: if_splits)

lemma start_flags: "exporter_start port x = Some (x', ok) \<Longrightarrow> x_running x' \<and> x_stopping x' = x_stopping x"
  by (auto simp: exporter_start_def Let_def split: if_splits)

lemma stop_flags:
  "\<not> x_running (stop_begin x)"
  "stop_join x = Some x' \<Longrightarrow> x_running x' = x_running x \<and> \<not> x_stopping x'"
  by (auto simp: stop_begin_def stop_join_def Let_def split: if_splits)

lemma main_inv_main:
  assumes "main_turn p = Some p'" and inv: "main_inv p"
  shows "main_inv p'"
  using assms(1)
proof (cases rule: main_turn_cases)
  case (start x ok)
  moreover have "\<not> x_stopping (pr_exporter p)" using inv start(1) by (simp add: main_inv_def)
  ultimately show ?thesis using inv start_flags [OF start(2)] by (simp add: main_inv_def)
next
  case stop
  then show ?thesis using inv stop_flags(1) by (simp add: main_inv_def)
next
  case (join x)
  then show ?thesis using inv stop_flags(2) [OF join(2)] by (simp add: main_inv_def)
qed (use inv in \<open>simp_all add: main_inv_def set_server_def\<close>)

lemma started: "main_inv p \<Longrightarrow> x_serverThread (pr_exporter p) \<noteq> X_none \<Longrightarrow> pr_main p \<noteq> Main_start"
  by (auto simp: main_inv_def)

lemma main_inv_step:
  assumes "proc_step w show_double p t p'" and inv: "main_inv p"
  shows "main_inv p'"
  using assms(1)
proof cases
  case (engine e s')
  then show ?thesis using inv done_stays [OF engine(4)] by (simp add: main_inv_def set_server_def)
next
  case (snapshot dtSec)
  then show ?thesis
    using inv snap_turn_frame(1,2,4,5,8) [OF snapshot(3)] by (simp add: main_inv_def)
next
  case (http_turn listening ready x')
  have "pr_main p \<noteq> Main_start" using inv server_step_frame(4) [OF http_turn(3)] by (rule started)
  then show ?thesis
    using inv server_step_frame(1,2) [OF http_turn(3)] http_turn(2) by (simp add: main_inv_def)
next
  case (http_send x')
  then obtain bytes where x': "x_serverThread (pr_exporter p) = X_recv None"
      "x' = (pr_exporter p)\<lparr>x_serverThread := X_recv (Some bytes)\<rparr>" by (auto simp: client_step)
  then have "pr_main p \<noteq> Main_start" using started [OF inv] by simp
  then show ?thesis using inv unfolding http_send(2) x'(2) by (simp add: main_inv_def)
next
  case (http_connect c)
  have "pr_main p \<noteq> Main_start"
    using started [OF inv] http_connect(3) unfolding is_listening_def by blast
  then show ?thesis using inv unfolding http_connect(2) by (simp add: main_inv_def)
next
  case main
  then show ?thesis using inv main_inv_main by blast
qed

lemma main_inv_reach: "proc_reach w show_double N D T p \<Longrightarrow> main_inv p"
  by (induction rule: proc_reach.induct) (auto intro: main_inv_init main_inv_step)

text \<open>The exporter inside the process runs as in theory \<open>Exporter\<close>.\<close>

lemma proc_step_exporter:
  assumes "proc_step w show_double p t p'" and "main_inv p"
  shows "pr_exporter p' = pr_exporter p \<or> (\<exists>a. exp_step show_double a (pr_exporter p) (pr_exporter p'))"
  using assms(1)
proof cases
  case (snapshot dtSec)
  then show ?thesis using snap_turn_frame(9) [OF snapshot(3)] exp_step.update by metis
next
  case (http_turn listening ready x')
  then show ?thesis using exp_step.turn by fastforce
next
  case main
  show ?thesis
    using main(2)
  proof (cases rule: main_turn_cases)
    case (start x ok)
    then have "\<not> x_stopping (pr_exporter p)" using assms(2) by (simp add: main_inv_def)
    from exp_step.start [OF this start(2)] show ?thesis unfolding start(3) by auto
  next
    case stop
    then show ?thesis using exp_step.stop [of "pr_exporter p"] assms(2) by (auto simp: main_inv_def)
  next
    case (join x)
    then show ?thesis using exp_step.join [OF join(2)] by auto
  qed (simp_all add: set_server_def)
qed (use exp_step.connect in \<open>auto simp: set_server_def\<close>)

lemma reach_exporter: "proc_reach w show_double N D T p \<Longrightarrow> exp_reach show_double (pr_exporter p)"
proof (induction rule: proc_reach.induct)
  case init
  show ?case by (simp add: process_init_def exp_reach.init)
next
  case (step p t p')
  from proc_step_exporter [OF step.hyps(2) main_inv_reach [OF step.hyps(1)]] step.IH
  show ?case by (metis exp_reach.step)
qed

section \<open>What the process prints and serves\<close>

text \<open>The numbers of one snapshot come from states of the run, each no older than the one before: the
  processed counter, the latency samples, the other counters with the book, and the tape.\<close>

definition seen_samples :: "'r server list \<Rightarrow> nat \<Rightarrow> u64 \<Rightarrow> int list \<Rightarrow> bool" where
  "seen_samples past j processed samples \<longleftrightarrow> j < length past \<and> samples = g_latencySamples (past ! j)
     \<and> (\<exists>i \<le> j. processed = g_totalProcessed (past ! i))"

definition seen_metrics :: "'r server list \<Rightarrow> MetricsData \<Rightarrow> bool" where
  "seen_metrics past d \<longleftrightarrow> (\<exists>throughput processed samples j k. seen_samples past j processed samples
     \<and> j \<le> k \<and> k < length past \<and> d = snapshot_metrics throughput
         ((past ! k)\<lparr>g_totalProcessed := processed, g_latencySamples := samples\<rparr>))"

definition seen_book :: "'r server list \<Rightarrow> nat \<Rightarrow> u64 \<Rightarrow> int list \<Rightarrow> u64 \<Rightarrow> LimitOrderBook \<Rightarrow> bool" where
  "seen_book past k processed samples ingested book \<longleftrightarrow> k < length past
     \<and> ingested = g_totalIngested (past ! k) \<and> book = g_orderBook (past ! k)
     \<and> (\<exists>j \<le> k. seen_samples past j processed samples)"

definition seen_line :: "(real \<Rightarrow> string) \<Rightarrow> 'r server list \<Rightarrow> string \<Rightarrow> bool" where
  "seen_line show_double past line \<longleftrightarrow> (\<exists>throughput processed samples ingested book k m.
     seen_book past k processed samples ingested book \<and> k \<le> m \<and> m < length past
     \<and> line = snapshot_json show_double throughput
         ((past ! m)\<lparr>g_totalProcessed := processed, g_latencySamples := samples,
            g_totalIngested := ingested, g_orderBook := book\<rparr>))"

fun seen_pc :: "'r server list \<Rightarrow> snapshotter \<Rightarrow> bool" where
  "seen_pc past (Snap_copy processed tp) = (\<exists>i < length past. processed = g_totalProcessed (past ! i))"
| "seen_pc past (Snap_metrics processed tp samples) = (\<exists>j. seen_samples past j processed samples)"
| "seen_pc past (Snap_book processed tp samples) = (\<exists>j. seen_samples past j processed samples)"
| "seen_pc past (Snap_tape processed tp samples ingested book) = (\<exists>k. seen_book past k processed samples ingested book)"
| "seen_pc past pc = True"

definition seen_answer :: "(real \<Rightarrow> string) \<Rightarrow> 'r server list \<Rightarrow> string \<Rightarrow> bool" where
  "seen_answer show_double past answer \<longleftrightarrow> (\<exists>d request. answer = handle_request show_double d request
     \<and> (d = MetricsData_zero \<or> seen_metrics past d))"

definition output_inv :: "(real \<Rightarrow> string) \<Rightarrow> 'r process \<Rightarrow> bool" where
  "output_inv show_double p \<longleftrightarrow> seen_pc (pr_past p) (pr_snap p)
     \<and> list_all (seen_line show_double (pr_past p)) (pr_stdout p)
     \<and> (x_data (pr_exporter p) = MetricsData_zero \<or> seen_metrics (pr_past p) (x_data (pr_exporter p)))
     \<and> list_all (seen_answer show_double (pr_past p)) (x_sent (pr_exporter p))"

text \<open>What was seen stays seen.\<close>

lemma nth_past: "i \<le> j \<Longrightarrow> j < length past \<Longrightarrow> (past @ later) ! i = past ! i"
  by (simp add: nth_append)

lemma seen_samples_mono: "seen_samples past j n ls \<Longrightarrow> seen_samples (past @ later) j n ls"
  unfolding seen_samples_def by (metis le_refl length_append nth_past trans_less_add1)

lemma seen_metrics_mono:
  assumes "seen_metrics past d"
  shows "seen_metrics (past @ later) d"
proof -
  obtain tp n ls j k where k: "seen_samples past j n ls" "j \<le> k" "k < length past"
    "d = snapshot_metrics tp ((past ! k)\<lparr>g_totalProcessed := n, g_latencySamples := ls\<rparr>)"
    using assms unfolding seen_metrics_def by blast
  have "(past @ later) ! k = past ! k" "k < length (past @ later)" using k(3) by (simp_all add: nth_append)
  with k seen_samples_mono [OF k(1)] show ?thesis unfolding seen_metrics_def by metis
qed

lemma seen_book_mono: "seen_book past k n ls t b \<Longrightarrow> seen_book (past @ later) k n ls t b"
  unfolding seen_book_def by (metis le_refl length_append nth_past seen_samples_mono trans_less_add1)

lemma seen_line_mono:
  assumes "seen_line f past line"
  shows "seen_line f (past @ later) line"
proof -
  obtain tp n ls t b k m where m: "seen_book past k n ls t b" "k \<le> m" "m < length past"
    "line = snapshot_json f tp ((past ! m)\<lparr>g_totalProcessed := n, g_latencySamples := ls,
            g_totalIngested := t, g_orderBook := b\<rparr>)"
    using assms unfolding seen_line_def by blast
  have "(past @ later) ! m = past ! m" "m < length (past @ later)" using m(3) by (simp_all add: nth_append)
  with m seen_book_mono [OF m(1)] show ?thesis unfolding seen_line_def by metis
qed

lemma seen_pc_mono:
  assumes "seen_pc past pc"
  shows "seen_pc (past @ later) pc"
proof (cases pc)
  case (Snap_copy n tp)
  then obtain i where "i < length past" "n = g_totalProcessed (past ! i)" using assms by auto
  then have "i < length (past @ later) \<and> n = g_totalProcessed ((past @ later) ! i)" by (simp add: nth_append)
  then show ?thesis using Snap_copy by auto
qed (use assms in \<open>auto intro: seen_samples_mono seen_book_mono\<close>)

lemma seen_answer_mono: "seen_answer f past r \<Longrightarrow> seen_answer f (past @ later) r"
  unfolding seen_answer_def using seen_metrics_mono by blast

lemma output_inv_later:
  assumes "output_inv f p"
  shows "output_inv f (p\<lparr>pr_past := pr_past p @ later\<rparr>)"
  using assms unfolding output_inv_def list_all_iff
  by (auto intro: seen_pc_mono seen_line_mono seen_metrics_mono seen_answer_mono)

lemma output_inv_frame:
  assumes "output_inv f p" and "pr_past p' = pr_past p" "pr_snap p' = pr_snap p" "pr_stdout p' = pr_stdout p"
    and "x_data (pr_exporter p') = x_data (pr_exporter p)"
    and "x_sent (pr_exporter p') = x_sent (pr_exporter p)
      \<or> (\<exists>r. x_sent (pr_exporter p') = x_sent (pr_exporter p) @ [handle_request f (x_data (pr_exporter p)) r])"
  shows "output_inv f p'"
proof -
  have "seen_answer f (pr_past p) (handle_request f (x_data (pr_exporter p)) r)" for r
    using assms(1) unfolding output_inv_def seen_answer_def by blast
  then show ?thesis using assms unfolding output_inv_def by auto
qed

text \<open>The last state seen is the current one.\<close>

lemma seen_now:
  assumes "past_reachable w N D T p"
  obtains k where "k < length (pr_past p)" and "pr_past p ! k = pr_server p" and "\<And>i. i < length (pr_past p) \<Longrightarrow> i \<le> k"
proof
  show "length (pr_past p) - 1 < length (pr_past p)" "pr_past p ! (length (pr_past p) - 1) = pr_server p"
    using assms by (auto simp: past_reachable_def last_conv_nth)
  show "i \<le> length (pr_past p) - 1" if "i < length (pr_past p)" for i using that by simp
qed

lemma output_inv_snapshot:
  assumes "snap_turn show_double dtSec p = Some p'" and inv: "output_inv show_double p" and "past_reachable w N D T p"
  shows "output_inv show_double p'"
proof -
  obtain k where k: "k < length (pr_past p)" "pr_past p ! k = pr_server p"
    "\<And>i. i < length (pr_past p) \<Longrightarrow> i \<le> k" using seen_now [OF assms(3)] by blast
  show ?thesis
  proof (cases "pr_snap p")
    case Snap_awake
    have "\<exists>i < length (pr_past p). g_totalProcessed (pr_server p) = g_totalProcessed (pr_past p ! i)"
      using k(1,2) by metis
    then show ?thesis using assms(1) inv Snap_awake by (auto simp: snap_turn_def output_inv_def Let_def)
  next
    case (Snap_copy n tp)
    have "seen_samples (pr_past p) k n (g_latencySamples (pr_server p))"
      using inv Snap_copy k unfolding output_inv_def seen_samples_def by auto
    then show ?thesis using assms(1) inv Snap_copy by (auto simp: snap_turn_def output_inv_def Let_def)
  next
    case (Snap_metrics n tp ls)
    then obtain j where j: "seen_samples (pr_past p) j n ls" using inv by (auto simp: output_inv_def)
    then have "j \<le> k" using k(3) by (simp add: seen_samples_def)
    then have "seen_metrics (pr_past p) (snapshot_metrics tp ((pr_server p)\<lparr>g_totalProcessed := n, g_latencySamples := ls\<rparr>))"
      using j k(1,2) unfolding seen_metrics_def by metis
    then show ?thesis
      using assms(1) inv j Snap_metrics by (auto simp: snap_turn_def output_inv_def updateMetrics_def Let_def)
  next
    case (Snap_book n tp ls)
    then obtain j where j: "seen_samples (pr_past p) j n ls" using inv by (auto simp: output_inv_def)
    then have "j \<le> k" using k(3) by (simp add: seen_samples_def)
    then have "seen_book (pr_past p) k n ls (g_totalIngested (pr_server p)) (g_orderBook (pr_server p))"
      using j k(1,2) unfolding seen_book_def by metis
    then show ?thesis using assms(1) inv Snap_book by (auto simp: snap_turn_def output_inv_def Let_def)
  next
    case (Snap_tape n tp ls t b)
    then obtain j where j: "seen_book (pr_past p) j n ls t b" using inv by (auto simp: output_inv_def)
    then have "j \<le> k" using k(3) by (simp add: seen_book_def)
    then have "seen_line show_double (pr_past p) (snapshot_json show_double tp
        ((pr_server p)\<lparr>g_totalProcessed := n, g_latencySamples := ls, g_totalIngested := t, g_orderBook := b\<rparr>))"
      using j k(1,2) unfolding seen_line_def by metis
    then show ?thesis using assms(1) inv Snap_tape by (auto simp: snap_turn_def output_inv_def Let_def)
  qed (use assms(1) inv in \<open>auto simp: snap_turn_def output_inv_def Let_def\<close>)
qed

lemma exporter_frames [simp]:
  "x_data (stop_begin x) = x_data x" "x_sent (stop_begin x) = x_sent x"
  by (simp_all add: stop_begin_def Let_def)

lemma output_inv_step:
  assumes "proc_step w show_double p t p'" and inv: "output_inv show_double p" and "past_reachable w N D T p"
  shows "output_inv show_double p'"
  using assms(1)
proof cases
  case (engine e s')
  show ?thesis
    by (rule output_inv_frame [OF output_inv_later [OF inv, of "[s']"]])
      (simp_all add: engine(2) set_server_def)
next
  case (snapshot dtSec)
  then show ?thesis using output_inv_snapshot inv assms(3) by blast
next
  case (http_turn listening ready x')
  then show ?thesis
    using server_step_frame(3,6) [OF http_turn(3)] by (intro output_inv_frame [OF inv]) auto
next
  case (http_send x')
  then show ?thesis by (intro output_inv_frame [OF inv]) (auto simp: client_step)
next
  case (http_connect c)
  then show ?thesis by (intro output_inv_frame [OF inv]) simp_all
next
  case main
  show ?thesis
    using main(2)
  proof (cases rule: main_turn_cases)
    case commander
    show ?thesis
      by (rule output_inv_frame [OF output_inv_later [OF inv, of "[(pr_server p)\<lparr>g_running := False\<rparr>]"]])
        (simp_all add: commander(3) set_server_def)
  next
    case (start x ok)
    then show ?thesis
      by (intro output_inv_frame [OF inv]) (auto simp: exporter_start_def Let_def split: if_splits)
  next
    case (join x)
    then show ?thesis
      by (intro output_inv_frame [OF inv]) (auto simp: stop_join_def split: if_splits)
  qed (intro output_inv_frame [OF inv]; simp)+
qed

lemma output_inv_reach: "proc_reach w show_double N D T p \<Longrightarrow> output_inv show_double p"
proof (induction rule: proc_reach.induct)
  case init
  show ?case by (simp add: output_inv_def process_init_def exporter_new_def)
next
  case (step p t p')
  show ?case by (rule output_inv_step [OF step.hyps(2) step.IH reach_past [OF step.hyps(1)]])
qed

lemma popped_since_length: "length (popped (since_reset es)) \<le> length es"
proof -
  have "length (popped_by e) \<le> 1" for e by (cases e rule: popped_by.cases) simp_all
  note one = this
  have "length (popped xs) \<le> length xs" for xs
  proof (induction xs)
    case (Cons e xs)
    then show ?case using one [of e] by (simp add: popped_def)
  qed (simp add: popped_def)
  moreover have "length (since_reset es) \<le> length es"
    using length_takeWhile_le [of "\<lambda>e. e \<noteq> Ev_reset" "rev es"] by (simp add: since_reset_def)
  ultimately show ?thesis using le_trans by blast
qed

section \<open>How main ends\<close>

lemma proc_one: "proc_step w show_double p t p' \<Longrightarrow> proc_steps w show_double p p'"
  by (intro r_into_rtranclp exI)

lemma proc_snoc: "proc_steps w f p p1 \<Longrightarrow> proc_step w f p1 t p2 \<Longrightarrow> proc_steps w f p p2"
  by (rule rtranclp_trans [OF _ proc_one])

lemma engine_steps:
  assumes "srv_steps w (pr_server p) s'" and "stopped N (pr_server p)" and "pr_main p \<noteq> Main_start"
  shows "\<exists>p'. proc_steps w show_double p p' \<and> pr_server p' = s' \<and> pr_main p' = pr_main p \<and> stopped N s'"
  using assms(1)
proof (induction rule: rtranclp_induct)
  case base
  then show ?case using assms(2) by blast
next
  case (step s1 s2)
  then obtain p1 e where p1: "proc_steps w show_double p p1" "pr_server p1 = s1" "pr_main p1 = pr_main p"
    "stopped N s1" "srv_step w s1 e s2" by blast
  have st: "stopped N s2" using stopped_step [OF p1(5,4)] by blast
  then have "g_running s2 = g_running s1" using p1(4) by (simp add: stopped_def)
  then have "proc_step w show_double p1 (Engine e) (set_server s2 p1)"
    using p1(2,3,5) assms(3) by (intro engine) simp_all
  then have "proc_steps w show_double p (set_server s2 p1)"
    by (rule proc_snoc [OF p1(1)])
  then show ?case using p1(3) st by (intro exI [of _ "set_server s2 p1"]) (simp add: set_server_def)
qed

fun main_left :: "main_pc \<Rightarrow> nat" where
  "main_left Main_start = 7" | "main_left Main_commander = 6" | "main_left Main_producer = 5"
| "main_left Main_consumer = 4" | "main_left Main_snapshotter = 3" | "main_left Main_stop = 2"
| "main_left Main_exporter = 1" | "main_left Main_returned = 0"

fun snap_left :: "snapshotter \<Rightarrow> nat" where
  "snap_left Snap_done = 0" | "snap_left Snap_check = 1" | "snap_left (Snap_tape _ _ _ _ _) = 2"
| "snap_left (Snap_book _ _ _) = 3" | "snap_left (Snap_metrics _ _ _) = 4" | "snap_left (Snap_copy _ _) = 5"
| "snap_left Snap_awake = 6"

definition exp_left :: "x_thread \<Rightarrow> nat" where
  "exp_left pc = (if pc = X_recv None then 4 else if pc = X_select then 5 else turns_left pc)"

definition steps_left :: "'r process \<Rightarrow> nat" where
  "steps_left p = 100 * main_left (pr_main p) + 10 * snap_left (pr_snap p) + exp_left (x_serverThread (pr_exporter p))"

lemma exp_left_le: "exp_left pc \<le> 5"
  using turns_left_le [of pc] by (simp add: exp_left_def)

lemma snapshot_ends:
  assumes "\<not> g_running (pr_server p)" and "pr_snap p \<noteq> Snap_done"
  shows "\<exists>p'. snap_turn show_double dtSec p = Some p' \<and> steps_left p' < steps_left p"
  using assms by (cases "pr_snap p") (simp_all add: snap_turn_def steps_left_def Let_def)

lemma server_ends:
  assumes "x_stopping x" and "exp_inv x" and "x_serverThread x \<noteq> X_finished"
  shows "(\<exists>x'. server_step show_double True True x = Some x' \<and> exp_left (x_serverThread x') < exp_left (x_serverThread x))
    \<or> (\<exists>x'. exp_step show_double Client x x' \<and> exp_left (x_serverThread x') < exp_left (x_serverThread x))"
proof (cases "x_serverThread x")
  case X_none
  then show ?thesis using assms(1,2) by (simp add: exp_inv_def)
next
  case (X_recv c)
  show ?thesis
  proof (cases c)
    case None
    then show ?thesis using X_recv
      by (intro disjI2 exI [of _ "x\<lparr>x_serverThread := X_recv (Some [])\<rparr>"]) (auto simp: client_step exp_left_def)
  qed (use X_recv in \<open>simp add: server_step_def exp_left_def\<close>)
next
  case X_check
  have "\<not> x_running x" using assms(1,2) by (simp add: exp_inv_def)
  then show ?thesis using X_check by (simp add: server_step_def exp_left_def)
next
  case X_select
  then show ?thesis by (cases "x_pending x") (auto simp: server_step_def exp_left_def turns_left_recv less_SucI)
qed (use assms(3) in \<open>simp_all add: server_step_def exp_left_def\<close>)

lemma main_moves:
  assumes "main_turn p = Some p'"
  shows "main_left (pr_main p') < main_left (pr_main p) \<and> pr_snap p' = pr_snap p"
  using assms by (cases rule: main_turn_cases) (simp_all add: set_server_def)

lemma main_decreases:
  assumes "main_turn p = Some p'"
  shows "steps_left p' < steps_left p"
  using main_moves [OF assms] exp_left_le [of "x_serverThread (pr_exporter p')"] by (simp add: steps_left_def)

text \<open>Once the engine threads have ended, some step of the snapshot thread, the exporter, its client or
  \<open>main\<close> brings the return nearer.\<close>

lemma process_moves:
  assumes "main_inv p" and "exp_inv (pr_exporter p)" and "all_joined (pr_server p)" and "pr_main p \<noteq> Main_returned"
  shows "\<exists>t p'. proc_step w show_double p t p' \<and> all_joined (pr_server p') \<and> steps_left p' < steps_left p"
proof -
  have off: "\<not> g_running (pr_server p)" and pc: "pr_main p \<noteq> Main_start"
    using assms(1,3) by (auto simp: all_joined_def main_inv_def)
  have move: ?thesis if "main_turn p = Some p'" for p'
  proof -
    have "all_joined (pr_server p')"
      using that assms(3) by (cases rule: main_turn_cases) (simp_all add: set_server_def all_joined_def)
    then show ?thesis using proc_step.main [OF that] main_decreases [OF that] by blast
  qed
  show ?thesis
  proof (cases "pr_snap p = Snap_done")
    case False
    obtain p' where p': "snap_turn show_double 1 p = Some p'" "steps_left p' < steps_left p"
      using snapshot_ends [OF off False] by blast
    then show ?thesis
      using snapshot [OF pc p'(1)] snap_turn_frame(1) [OF p'(1)] assms(3) by metis
  next
    case snap: True
    show ?thesis
    proof (cases "pr_main p = Main_exporter \<and> x_stopping (pr_exporter p) \<and> x_serverThread (pr_exporter p) \<noteq> X_finished")
      case True
      have less: "steps_left (p\<lparr>pr_exporter := x'\<rparr>) < steps_left p"
        if "exp_left (x_serverThread x') < exp_left (x_serverThread (pr_exporter p))" for x'
        using that by (simp add: steps_left_def)
      have same: "all_joined (pr_server (p\<lparr>pr_exporter := x'\<rparr>))" for x' using assms(3) by simp
      from server_ends [OF _ assms(2)] True http_turn http_send less same show ?thesis by blast
    next
      case False
      then have "main_turn p \<noteq> None"
        using snap pc assms(2-4) by (cases "pr_main p") (auto simp: main_turn_def all_joined_def stop_join_def Let_def)
      then show ?thesis using move by blast
    qed
  qed
qed

lemma process_ends:
  assumes "main_inv p" and "exp_inv (pr_exporter p)" and "all_joined (pr_server p)"
  shows "\<exists>p'. proc_steps w show_double p p' \<and> pr_main p' = Main_returned"
  using assms
proof (induction "steps_left p" arbitrary: p rule: less_induct)
  case less
  show ?case
  proof (cases "pr_main p = Main_returned")
    case False
    obtain t p1 where p1: "proc_step w show_double p t p1" "all_joined (pr_server p1)" "steps_left p1 < steps_left p"
      using process_moves [OF less.prems False] by blast
    have inv: "main_inv p1" "exp_inv (pr_exporter p1)"
      using main_inv_step [OF p1(1) less.prems(1)] proc_step_exporter [OF p1(1) less.prems(1)]
        exp_inv_step less.prems(2) by metis+
    from less.hyps [OF p1(3) inv p1(2)] rtranclp_trans [OF proc_one [OF p1(1)]] show ?thesis by blast
  qed blast
qed

lemma steps_server: "proc_steps w show_double p p' \<Longrightarrow> srv_steps w (pr_server p) (pr_server p')"
proof (induction rule: rtranclp_induct)
  case (step p1 p2)
  then obtain t where "proc_step w show_double p1 t p2" by blast
  from proc_step_server [OF this] show ?case using step.IH steps_snoc by metis
qed simp

lemma steps_reach:
  "proc_steps w show_double p p' \<Longrightarrow> proc_reach w show_double N D T p \<Longrightarrow> proc_reach w show_double N D T p'"
  by (induction rule: rtranclp_induct) (auto intro: proc_reach.step)

lemma returned_all:
  assumes "main_inv p" and "pr_main p = Main_returned"
  shows "all_joined (pr_server p) \<and> pr_snap p = Snap_done \<and> \<not> x_running (pr_exporter p) \<and> \<not> x_stopping (pr_exporter p)"
  using assms by (simp add: main_inv_def all_joined_def)

text \<open>A silent client keeps \<open>main\<close> from returning.\<close>

lemma silent_step:
  assumes "proc_step w show_double p t p'" and "t \<noteq> Http Client" and "main_inv p" "exp_inv (pr_exporter p)"
    and "x_serverThread (pr_exporter p) = X_recv None" "pr_main p \<noteq> Main_returned"
  shows "x_serverThread (pr_exporter p') = X_recv None \<and> pr_main p' \<noteq> Main_returned"
  using assms(1)
proof cases
  case (snapshot dtSec)
  then show ?thesis using snap_turn_frame(2,6) [OF snapshot(3)] assms(5,6) by simp
next
  case (http_turn listening ready x')
  then show ?thesis using server_step_frame(5) [OF http_turn(3)] assms(5) by simp
next
  case main
  show ?thesis
    using main(2)
  proof (cases rule: main_turn_cases)
    case idle
    then have "\<not> x_running (pr_exporter p)" using assms(3) by (simp add: main_inv_def)
    then show ?thesis using idle(2) assms(4,5) by (simp add: exp_inv_def)
  qed (use assms(5) in \<open>auto simp: set_server_def exporter_start_def stop_begin_def stop_join_def Let_def
      split: if_splits\<close>)
qed (use assms(2,5,6) in \<open>auto simp: set_server_def\<close>)

lemma silent_run:
  assumes "(\<lambda>p p'. \<exists>t. t \<noteq> Http Client \<and> proc_step w f p t p')\<^sup>*\<^sup>* p p'" and "proc_reach w f N D T p"
    and "x_serverThread (pr_exporter p) = X_recv None" "pr_main p \<noteq> Main_returned"
  shows "proc_reach w f N D T p' \<and> x_serverThread (pr_exporter p') = X_recv None \<and> pr_main p' \<noteq> Main_returned"
  using assms
proof (induction rule: rtranclp_induct)
  case (step p1 p2)
  then obtain t where t: "t \<noteq> Http Client" "proc_step w f p1 t p2" by blast
  have p1: "proc_reach w f N D T p1" "x_serverThread (pr_exporter p1) = X_recv None" "pr_main p1 \<noteq> Main_returned"
    using step by blast+
  from silent_step [OF t(2,1) main_inv_reach [OF p1(1)] exp_inv_reach [OF reach_exporter [OF p1(1)]] p1(2,3)]
    proc_reach.step [OF p1(1) t(2)] show ?case by blast
qed simp

section \<open>Properties\<close>


text \<open>A round of the snapshot thread, from loop test to loop test.\<close>

lemma snapshot_round:
  assumes "pr_main p \<noteq> Main_start" and "pr_snap p = Snap_check" and "g_running (pr_server p)"
  shows "\<exists>p' line. proc_steps w f p p' \<and> pr_stdout p' = pr_stdout p @ [line] \<and> pr_past p' = pr_past p"
proof -
  let ?s = "pr_server p" and ?n = "g_totalProcessed (pr_server p)" and ?l = "g_latencySamples (pr_server p)"
  let ?tp = "snapshot_throughput 1 ?n (pr_lastProcessed p)"
  let ?p1 = "p\<lparr>pr_snap := Snap_awake\<rparr>"
  let ?p2 = "p\<lparr>pr_snap := Snap_copy ?n ?tp, pr_lastProcessed := ?n\<rparr>"
  let ?p3 = "?p2\<lparr>pr_snap := Snap_metrics ?n ?tp ?l\<rparr>"
  let ?p4 = "?p2\<lparr>pr_snap := Snap_book ?n ?tp ?l, pr_exporter := updateMetrics (snapshot_metrics ?tp
      (?s\<lparr>g_totalProcessed := ?n, g_latencySamples := ?l\<rparr>)) (pr_exporter p)\<rparr>"
  let ?p5 = "?p4\<lparr>pr_snap := Snap_tape ?n ?tp ?l (g_totalIngested ?s) (g_orderBook ?s)\<rparr>"
  have move: "proc_steps w f p q \<Longrightarrow> pr_main q \<noteq> Main_start \<Longrightarrow> snap_turn f 1 q = Some r \<Longrightarrow> proc_steps w f p r" for q r
    by (rule proc_snoc [OF _ snapshot])
  have "proc_steps w f p ?p1"
    by (rule move [OF rtranclp.rtrancl_refl]) (use assms in \<open>simp_all add: snap_turn_def Let_def\<close>)
  from move [OF this, of ?p2] have "proc_steps w f p ?p2" using assms by (simp add: snap_turn_def Let_def)
  from move [OF this, of ?p3] have "proc_steps w f p ?p3" using assms by (simp add: snap_turn_def Let_def)
  from move [OF this, of ?p4] have "proc_steps w f p ?p4" using assms by (simp add: snap_turn_def Let_def)
  from move [OF this, of ?p5] have p5: "proc_steps w f p ?p5" using assms by (simp add: snap_turn_def Let_def)
  obtain p6 line where "snap_turn f 1 ?p5 = Some p6" "pr_stdout p6 = pr_stdout p @ [line]" "pr_past p6 = pr_past p"
    by (simp add: snap_turn_def Let_def)
  then show ?thesis using move [OF p5] assms(1) by (intro exI [of _ p6] exI [of _ line]) simp
qed

text \<open>The process after \<open>main\<close> has started its threads.\<close>

definition ex_process :: "int process" where
  "ex_process = (process_init 2 3 4)\<lparr>pr_main := Main_commander,
     pr_exporter := exporter_new\<lparr>x_running := True, x_serverThread := X_setup\<rparr>\<rparr>"

lemma ex_process_reachable: "proc_reach ex_world f 2 3 4 ex_process"
proof -
  have "main_turn (process_init 2 3 4 :: int process) = Some ex_process"
    by (simp add: main_turn_def process_init_def exporter_start_def ex_process_def exporter_new_def Let_def)
  from proc_reach.step [OF proc_reach.init proc_step.main [OF this]] show ?thesis .
qed




end
