(* ===== verification/BookPrint.thy ===== *)
theory BookPrint
  imports Snapshot
begin

text \<open>
  \<open>LimitOrderBook::printBook\<close> of \<open>include/feed_handler/order_book.hpp\<close>: the table the engine modes of \<open>main\<close>
  print. \<open>snprintf\<close> into an array of \<open>n\<close> characters keeps the first \<open>n - 1\<close>; \<open>%-ws\<close> pads to width \<open>w\<close>. A price
  is an \<open>int32_t\<close> number of cents: the \<open>double\<close> nearest to \<open>p / 100\<close> is closer to it than half a cent, so
  \<open>%.2f\<close> prints the exact cents. The mid and micro price of the footer, which are not whole cents, are
  printed by the parameter \<open>show_fixed2\<close>.
\<close>

section \<open>The table\<close>

definition show_cents :: "i32 \<Rightarrow> string" where      \<comment> \<open>\<open>"%.2f"\<close> of \<open>p / 100.0\<close>\<close>
  "show_cents p =
     (let c = nat \<bar>sint p\<bar>
      in (if sint p < 0 then ''-'' else '''') @ dec (c div 100)
         @ [CHR ''.'', char_of (48 + c mod 100 div 10), char_of (48 + c mod 10)])"

definition snprintf :: "nat \<Rightarrow> string \<Rightarrow> string" where
  "snprintf n s = take (n - 1) s"

definition ljust :: "nat \<Rightarrow> string \<Rightarrow> string" where
  "ljust w s = s @ replicate (w - length s) (CHR '' '')"

text \<open>The three cells of a level: orders, quantity, price.\<close>

definition ord_cell :: "PriceLevel \<Rightarrow> string" where
  "ord_cell l = (if lvl_active l then snprintf 8 (show_i32 (lvl_orderCount l)) else ''-'')"

definition qty_cell :: "PriceLevel \<Rightarrow> string" where
  "qty_cell l = (if lvl_active l then snprintf 10 (show_i32 (lvl_quantity l)) else ''-'')"

definition px_cell :: "PriceLevel \<Rightarrow> string" where
  "px_cell l = (if lvl_active l then snprintf 10 (show_cents (lvl_price l)) else ''-'')"

definition book_row :: "PriceLevel \<Rightarrow> PriceLevel \<Rightarrow> string" where
  "book_row b a =
     ''  |  '' @ ljust 6 (ord_cell b) @ ''  '' @ ljust 9 (qty_cell b) @ ''  '' @ ljust 7 (px_cell b)
     @ '' |  '' @ ljust 7 (px_cell a) @ ''  '' @ ljust 9 (qty_cell a) @ ''  '' @ ljust 6 (ord_cell a) @ '' |''"

definition book_head :: "string list" where
  "book_head =
     [''  +-------------------------------------------------------------+'',
      ''  |                      LIMIT ORDER BOOK                       |'',
      ''  +------------------------------+------------------------------+'',
      ''  |             BIDS             |             ASKS             |'',
      ''  |  Orders    Qty        Price  |  Price       Qty      Orders |'',
      ''  +------------------------------+------------------------------+'']"

definition book_foot :: "(real \<Rightarrow> string) \<Rightarrow> LimitOrderBook \<Rightarrow> string list" where
  "book_foot show_fixed2 b =
     ''  +------------------------------+------------------------------+''
     # (if hasBids b \<and> hasAsks b then
          [''  | Spread: $'' @ show_cents (spread b) @ '' | Mid: $'' @ show_fixed2 (midPrice b / 100)
             @ '' | MicroPrice: $'' @ show_fixed2 (microPrice b / 100) @ ''        |'',
           ''  +-------------------------------------------------------------+'', '''']
        else [])"

definition printBook :: "(real \<Rightarrow> string) \<Rightarrow> LimitOrderBook \<Rightarrow> string" where
  "printBook show_fixed2 b =
     nl @ concat (map (\<lambda>line. line @ nl)
       (book_head @ map (\<lambda>(b, a). book_row b a) (zip (lob_bids b) (lob_asks b)) @ book_foot show_fixed2 b))"

section \<open>Reading the table\<close>

fun lines_of :: "string \<Rightarrow> string \<Rightarrow> string list" where
  "lines_of line [] = [line]"
| "lines_of line (c # cs) = (if c = CHR 0x0A then line # lines_of [] cs else lines_of (line @ [c]) cs)"

text \<open>A row without its bars is six words; \<open>-\<close> is an empty level. The decimal point of a price is dropped.\<close>

definition read_level :: "string \<Rightarrow> string \<Rightarrow> string \<Rightarrow> (i32 \<times> i32 \<times> i32) option" where
  "read_level ord qty px = (if ord = ''-'' then None
     else Some (strtol_i32 ord, strtol_i32 qty, strtol_i32 (filter (\<lambda>c. c \<noteq> CHR ''.'') px)))"

definition read_row :: "string \<Rightarrow> (i32 \<times> i32 \<times> i32) option \<times> (i32 \<times> i32 \<times> i32) option" where
  "read_row row =
     (let w = tokenize [] (filter (\<lambda>c. c \<noteq> CHR ''|'') row)
      in (read_level (w ! 0) (w ! 1) (w ! 2), read_level (w ! 5) (w ! 4) (w ! 3)))"

definition level_view :: "PriceLevel \<Rightarrow> (i32 \<times> i32 \<times> i32) option" where
  "level_view l = (if lvl_active l then Some (lvl_orderCount l, lvl_quantity l, lvl_price l) else None)"

text \<open>The levels whose numbers fit into the columns: seven, nine and eight digits.\<close>

definition level_fits :: "PriceLevel \<Rightarrow> bool" where
  "level_fits l \<longleftrightarrow> lvl_active l \<longrightarrow> 0 \<le> sint (lvl_orderCount l) \<and> sint (lvl_orderCount l) < 10 ^ 7
     \<and> 0 \<le> sint (lvl_quantity l) \<and> sint (lvl_quantity l) < 10 ^ 9
     \<and> 0 \<le> sint (lvl_price l) \<and> sint (lvl_price l) < 10 ^ 8"

section \<open>Digits\<close>

lemma dec_snoc: "10 \<le> n \<Longrightarrow> dec n = dec (n div 10) @ [char_of (48 + n mod 10)]"
  by (simp add: dec.simps [of n])

lemma dec_length: "0 < k \<Longrightarrow> length (dec n) \<le> k \<longleftrightarrow> n < 10 ^ k"
proof (induction n arbitrary: k rule: dec.induct)
  case (1 n)
  show ?case
  proof (cases "n < 10")
    case True
    moreover have "(10::nat) \<le> 10 ^ k" using 1(2) self_le_power [of "10::nat" k] by simp
    ultimately show ?thesis using 1(2) by (simp add: dec.simps [of n])
  next
    case False
    then have len: "length (dec n) = Suc (length (dec (n div 10)))" by (simp add: dec_snoc)
    obtain j where k: "k = Suc j" using 1(2) by (cases k) auto
    show ?thesis
    proof (cases "j = 0")
      case True
      then show ?thesis using False len k dec_digits [of "n div 10"] by simp
    next
      case j: False
      have "n < 10 ^ k \<longleftrightarrow> n div 10 < 10 ^ j" by (simp add: k div_less_iff_less_mult mult.commute)
      then show ?thesis using "1.IH" [OF False, of j] j len k by simp
    qed
  qed
qed

lemma sign_of_digits: "list_all is_digit ds \<Longrightarrow> sign_of ds = (False, ds)"
  by (cases ds) (auto simp: sign_of_def digit_not_space is_digit_def is_space_def)

lemma strtol_digits:
  "list_all is_digit ds \<Longrightarrow> digits_val 0 ds < 2 ^ 31 \<Longrightarrow> strtol_i32 ds = of_int (digits_val 0 ds)"
  by (simp add: strtol_i32_def strtol10_def sign_of_digits)

lemma filter_digits: "list_all is_digit ds \<Longrightarrow> filter (\<lambda>c. c \<noteq> CHR ''.'') ds = ds"
  by (induction ds) (auto simp: is_digit_def)

lemma cents_digits:
  fixes c :: nat
  defines "ds \<equiv> dec (c div 100) @ [char_of (48 + c mod 100 div 10), char_of (48 + c mod 10)]"
  shows "list_all is_digit ds" and "digits_val 0 ds = int c"
proof -
  have low: "c mod 100 div 10 < 10" "c mod 10 < 10" by (simp_all add: div_less_iff_less_mult)
  note digit = digit_char [OF low(1)] digit_char [OF low(2)] of_char_digit [OF low(1)] of_char_digit [OF low(2)]
  show "list_all is_digit ds" using dec_digits digit(1,2) by (simp add: ds_def)
  have "digits_val 0 ds = digits_val (digits_val 0 (dec (c div 100)))
      [char_of (48 + c mod 100 div 10), char_of (48 + c mod 10)]"
    unfolding ds_def using dec_digits by (intro digits_val_append) blast
  also have "\<dots> = 10 * (10 * int (c div 100) + int (c mod 100 div 10)) + int (c mod 10)"
    by (simp only: digits_val_dec digits_val.simps digit if_True diff_add_inverse)
  also have "\<dots> = int (100 * (c div 100) + (10 * (c mod 100 div 10) + c mod 100 mod 10))"
    by (simp add: mod_mod_cancel)
  also have "\<dots> = int c" by (simp only: mult_div_mod_eq)
  finally show "digits_val 0 ds = int c" .
qed

lemma strtol_show:
  assumes "0 \<le> sint n"
  shows "strtol_i32 (show_i32 n) = n"
proof -
  have "sint n < 2 ^ 31" using sint_lt [of n] by simp
  then show ?thesis
    using assms strtol_digits [of "dec (nat (sint n))"] dec_digits
    by (simp add: show_i32_def digits_val_dec)
qed

lemma show_i32_length: "0 \<le> sint n \<Longrightarrow> 0 < k \<Longrightarrow> length (show_i32 n) \<le> k \<longleftrightarrow> sint n < 10 ^ k"
  by (simp add: show_i32_def dec_length nat_less_iff)

section \<open>Cells and rows\<close>

definition cell_char :: "char \<Rightarrow> bool" where
  "cell_char c \<longleftrightarrow> is_digit c \<or> c = CHR ''-'' \<or> c = CHR ''.''"

definition cell_ok :: "string \<Rightarrow> bool" where
  "cell_ok s \<longleftrightarrow> s \<noteq> [] \<and> list_all cell_char s"

lemma cell_char_frame:
  assumes "cell_char c"
  shows "\<not> is_sep c" "c \<noteq> CHR ''|''" "c \<noteq> CHR 0x0A"
  using assms by (auto simp: cell_char_def is_digit_def is_sep_def)

lemma cell_ok_dec: "list_all cell_char (dec n)"
  using dec_digits [of n] by (auto simp: list_all_iff cell_char_def)

lemma cell_ok_show_i32: "cell_ok (show_i32 n)"
  using cell_ok_dec dec_digits by (auto simp: cell_ok_def show_i32_def cell_char_def)

lemma cell_ok_show_cents: "cell_ok (show_cents p)"
  using cell_ok_dec digit_char by (auto simp: cell_ok_def show_cents_def cell_char_def Let_def)

lemma cell_ok_snprintf: "cell_ok s \<Longrightarrow> 1 < n \<Longrightarrow> cell_ok (snprintf n s)"
  by (auto simp: cell_ok_def snprintf_def list_all_iff dest: in_set_takeD)

lemma cells_ok: "cell_ok (ord_cell l)" "cell_ok (qty_cell l)" "cell_ok (px_cell l)"
  by (auto simp: ord_cell_def qty_cell_def px_cell_def cell_ok_snprintf cell_ok_show_i32 cell_ok_show_cents)
    (simp_all add: cell_ok_def cell_char_def)

lemma filter_ljust: "cell_ok s \<Longrightarrow> filter (\<lambda>c. c \<noteq> CHR ''|'') (ljust w s) = ljust w s"
  by (auto simp: filter_id_conv ljust_def cell_ok_def list_all_iff dest: cell_char_frame(2))

lemma tokenize_blank: "tokenize [] (CHR '' '' # r) = tokenize [] r"
  by (simp add: is_sep_def)

lemma tokenize_ljust: "cell_ok s \<Longrightarrow> tokenize [] (ljust w s @ CHR '' '' # r) = s # tokenize [] r"
proof -
  assume s: "cell_ok s"
  have blanks: "tokenize [] (replicate k (CHR '' '') @ r) = tokenize [] r" for k
    by (induction k) (simp_all add: is_sep_def)
  have padded: "ljust w s @ CHR '' '' # r = s @ CHR '' '' # replicate (w - length s) (CHR '' '') @ r"
    by (simp add: ljust_def replicate_app_Cons_same)
  have "list_all (\<lambda>c. \<not> is_sep c) s"
    using s by (auto simp: cell_ok_def list_all_iff dest: cell_char_frame(1))
  then show ?thesis
    unfolding padded using s tokenize_word [of s "[]"] blanks by (simp add: cell_ok_def is_sep_def)
qed

lemma row_words:
  "tokenize [] (filter (\<lambda>c. c \<noteq> CHR ''|'') (book_row b a))
   = [ord_cell b, qty_cell b, px_cell b, px_cell a, qty_cell a, ord_cell a]"
proof -
  have "filter (\<lambda>c. c \<noteq> CHR ''|'') (book_row b a) =
     ''    '' @ ljust 6 (ord_cell b) @ ''  '' @ ljust 9 (qty_cell b) @ ''  '' @ ljust 7 (px_cell b)
     @ ''   '' @ ljust 7 (px_cell a) @ ''  '' @ ljust 9 (qty_cell a) @ ''  '' @ ljust 6 (ord_cell a) @ '' ''"
    by (simp add: book_row_def filter_ljust cells_ok)
  then show ?thesis by (simp add: tokenize_blank tokenize_ljust cells_ok del: tokenize.simps(2))
qed

lemma row_one_line: "CHR 0x0A \<notin> set (book_row b a)"
proof -
  have "CHR 0x0A \<notin> set (ljust w s)" if "cell_ok s" for w s
    using that cell_char_frame(3) by (auto simp: ljust_def cell_ok_def list_all_iff)
  then show ?thesis using cells_ok by (simp add: book_row_def)
qed

section \<open>Lines\<close>

lemma lines_of_word: "CHR 0x0A \<notin> set w \<Longrightarrow> lines_of line (w @ rest) = lines_of (line @ w) rest"
  by (induction w arbitrary: line) auto

lemma lines_of_concat:
  "\<forall>w \<in> set ws. CHR 0x0A \<notin> set w \<Longrightarrow>
    lines_of [] (concat (map (\<lambda>line. line @ nl) ws) @ rest) = ws @ lines_of [] rest"
proof (induction ws)
  case (Cons w ws)
  then show ?case using lines_of_word [of w "[]"] by (simp add: nl_def)
qed simp

text \<open>Whatever follows the table.\<close>

lemma printed_rows_then:
  "take (min (length (lob_bids b)) (length (lob_asks b))) (drop 7 (lines_of [] (printBook show_fixed2 b @ later)))
   = map (\<lambda>(b, a). book_row b a) (zip (lob_bids b) (lob_asks b))"
proof -
  let ?rows = "map (\<lambda>(b, a). book_row b a) (zip (lob_bids b) (lob_asks b))"
  let ?rest = "concat (map (\<lambda>line. line @ nl) (book_foot show_fixed2 b)) @ later"
  have plain: "\<forall>w \<in> set (book_head @ ?rows). CHR 0x0A \<notin> set w"
    using row_one_line by (auto simp: book_head_def)
  have "printBook show_fixed2 b @ later = nl @ concat (map (\<lambda>line. line @ nl) (book_head @ ?rows)) @ ?rest"
    by (simp add: printBook_def)
  then have "lines_of [] (printBook show_fixed2 b @ later) = [] # (book_head @ ?rows) @ lines_of [] ?rest"
    using lines_of_concat [OF plain] by (simp add: nl_def)
  then show ?thesis by (simp add: book_head_def)
qed

lemmas printed_rows = printed_rows_then [where later = "[]", simplified]

section \<open>Numbers in cells\<close>

lemma ord_cell_read:
  assumes "lvl_active l" "level_fits l"
  shows "ord_cell l = show_i32 (lvl_orderCount l)" "strtol_i32 (ord_cell l) = lvl_orderCount l" "ord_cell l \<noteq> ''-''"
proof -
  have n: "0 \<le> sint (lvl_orderCount l)" "sint (lvl_orderCount l) < 10 ^ 7" using assms by (simp_all add: level_fits_def)
  then have "length (show_i32 (lvl_orderCount l)) \<le> 7" using show_i32_length [OF n(1), of 7] by simp
  then show cell: "ord_cell l = show_i32 (lvl_orderCount l)" using assms(1) by (simp add: ord_cell_def snprintf_def)
  then show "strtol_i32 (ord_cell l) = lvl_orderCount l" using strtol_show [OF n(1)] by simp
  have "list_all is_digit (ord_cell l)" using cell n(1) dec_digits by (simp add: show_i32_def)
  then show "ord_cell l \<noteq> ''-''" by (auto simp: is_digit_def)
qed

lemma qty_cell_read:
  assumes "lvl_active l" "level_fits l"
  shows "strtol_i32 (qty_cell l) = lvl_quantity l"
proof -
  have n: "0 \<le> sint (lvl_quantity l)" "sint (lvl_quantity l) < 10 ^ 9" using assms by (simp_all add: level_fits_def)
  then have "length (show_i32 (lvl_quantity l)) \<le> 9" using show_i32_length [OF n(1), of 9] by simp
  then show ?thesis using assms(1) strtol_show [OF n(1)] by (simp add: qty_cell_def snprintf_def)
qed

lemma px_cell_read:
  assumes "lvl_active l" "level_fits l"
  shows "strtol_i32 (filter (\<lambda>c. c \<noteq> CHR ''.'') (px_cell l)) = lvl_price l"
proof -
  let ?c = "nat (sint (lvl_price l))"
  let ?ds = "dec (?c div 100) @ [char_of (48 + ?c mod 100 div 10), char_of (48 + ?c mod 10)]"
  have p: "0 \<le> sint (lvl_price l)" "?c < 10 ^ 8" using assms by (simp_all add: level_fits_def nat_less_iff)
  have "length (dec (?c div 100)) \<le> 6" using p(2) dec_length [of 6 "?c div 100"] by (simp add: div_less_iff_less_mult)
  then have cell: "px_cell l = dec (?c div 100)
      @ [CHR ''.'', char_of (48 + ?c mod 100 div 10), char_of (48 + ?c mod 10)]"
    using assms(1) p(1) by (simp add: px_cell_def snprintf_def show_cents_def Let_def)
  note digits = cents_digits(1) [of ?c]
  have "filter (\<lambda>c. c \<noteq> CHR ''.'') (px_cell l) = filter (\<lambda>c. c \<noteq> CHR ''.'') ?ds" by (simp add: cell)
  also have "\<dots> = ?ds" by (rule filter_digits [OF digits])
  finally have filt: "filter (\<lambda>c. c \<noteq> CHR ''.'') (px_cell l) = ?ds" .
  have "digits_val 0 ?ds = int ?c" by (rule cents_digits(2))
  then have "strtol_i32 ?ds = of_int (int ?c)" using strtol_digits [OF digits] p(2) p(1) by simp
  moreover have "int ?c = sint (lvl_price l)" using p(1) by simp
  ultimately show ?thesis unfolding filt by simp
qed

lemma read_book_row:
  assumes "level_fits b" and "level_fits a"
  shows "read_row (book_row b a) = (level_view b, level_view a)"
proof -
  have "read_level (ord_cell l) (qty_cell l) (px_cell l) = level_view l" if "level_fits l" for l
    using ord_cell_read [OF _ that] qty_cell_read [OF _ that] px_cell_read [OF _ that]
    by (cases "lvl_active l") (simp_all add: read_level_def level_view_def, simp add: ord_cell_def)
  then show ?thesis using assms by (simp add: read_row_def row_words Let_def)
qed

lemma table_reads:
  assumes "length (lob_asks b) = length (lob_bids b)"
    and "\<forall>l \<in> set (lob_bids b) \<union> set (lob_asks b). level_fits l"
    and "rows = map (\<lambda>(b, a). book_row b a) (zip (lob_bids b) (lob_asks b))"
  shows "map read_row rows = zip (map level_view (lob_bids b)) (map level_view (lob_asks b))"
proof -
  have "read_row (book_row x y) = (level_view x, level_view y)"
    if "(x, y) \<in> set (zip (lob_bids b) (lob_asks b))" for x y
    using that assms(2) by (intro read_book_row) (auto dest: set_zip_leftD set_zip_rightD)
  then show ?thesis unfolding assms(3) by (auto simp: zip_map_map)
qed

text \<open>A quantity of ten digits loses its last one.\<close>

lemma big_quantity_cut:
  assumes "lvl_active l" and "10 ^ 9 \<le> sint (lvl_quantity l)"
  shows "qty_cell l = dec (nat (sint (lvl_quantity l)) div 10)"
proof -
  let ?n = "nat (sint (lvl_quantity l))"
  have n: "10 ^ 9 \<le> ?n" using assms(2) by (simp add: le_nat_iff)
  have "?n < 10 ^ 10" using sint_lt [of "lvl_quantity l"] by simp
  then have "length (dec (?n div 10)) \<le> 9" "\<not> length (dec (?n div 10)) \<le> 8"
    using n dec_length [of 9 "?n div 10"] dec_length [of 8 "?n div 10"] by (simp_all add: div_less_iff_less_mult not_less)
  then have "length (dec (?n div 10)) = 9" by simp
  then show ?thesis
    using assms n dec_snoc [of ?n] by (simp add: qty_cell_def snprintf_def show_i32_def)
qed


section \<open>Properties\<close>

text \<open>C35: What the table shows. Reading the rows of a printed book back, line by line and word by word,
  gives the orders, quantity and price of every level of both sides, best first, and \<open>-\<close> exactly for
  the inactive ones, as long as the numbers fit their columns: fewer than \<open>10\<^sup>7\<close> orders, \<open>10\<^sup>9\<close> units and a
  price below 1,000,000.00. A larger quantity is shown as a tenth of itself.\<close>

theorem printed_book_reads_back:
  assumes "length (lob_asks b) = length (lob_bids b)"
    and "\<forall>l \<in> set (lob_bids b) \<union> set (lob_asks b). level_fits l"
  shows "map read_row (take (length (lob_bids b)) (drop 7 (lines_of [] (printBook show_fixed2 b))))
      = zip (map level_view (lob_bids b)) (map level_view (lob_asks b))
    \<and> (lvl_active l \<and> 10 ^ 9 \<le> sint (lvl_quantity l)
        \<longrightarrow> strtol_i32 (qty_cell l) = of_int (sint (lvl_quantity l) div 10))"
proof
  show "map read_row (take (length (lob_bids b)) (drop 7 (lines_of [] (printBook show_fixed2 b))))
      = zip (map level_view (lob_bids b)) (map level_view (lob_asks b))"
    using printed_rows [of b show_fixed2] assms(1) by (intro table_reads [OF assms]) simp
  let ?n = "nat (sint (lvl_quantity l)) div 10"
  have "int ?n < 2 ^ 31" using sint_lt [of "lvl_quantity l"] by simp
  then show "lvl_active l \<and> 10 ^ 9 \<le> sint (lvl_quantity l)
      \<longrightarrow> strtol_i32 (qty_cell l) = of_int (sint (lvl_quantity l) div 10)"
    using big_quantity_cut [of l] strtol_digits [of "dec ?n"] dec_digits
    by (auto simp: digits_val_dec zdiv_int)
qed


text \<open>One bid of 500 at 224.95.\<close>

theorem printed_book_reads_back_witness:
  "map read_row (take 3 (drop 7 (lines_of [] (printBook (\<lambda>_. ''0.00'')
      (ex_book\<lparr>lob_bids := [\<lparr>lvl_price = 22495, lvl_quantity = 500, lvl_orderCount = 1, lvl_active = True\<rparr>,
         PriceLevel_zero, PriceLevel_zero]\<rparr>)))))
   = [(Some (1, 500, 22495), None), (None, None), (None, None)]"
proof -
  let ?l = "\<lparr>lvl_price = 22495, lvl_quantity = 500, lvl_orderCount = 1, lvl_active = True\<rparr> :: PriceLevel"
  let ?b = "ex_book\<lparr>lob_bids := [?l, PriceLevel_zero, PriceLevel_zero]\<rparr>"
  have b: "lob_bids ?b = [?l, PriceLevel_zero, PriceLevel_zero]"
    "lob_asks ?b = [PriceLevel_zero, PriceLevel_zero, PriceLevel_zero]"
    by (simp_all add: ex_book_def LimitOrderBook_new_def lob_reset_def numeral_3_eq_3)
  have fits: "level_fits ?l" "level_fits PriceLevel_zero" by (simp_all add: level_fits_def PriceLevel_zero_def)
  have "length (lob_asks ?b) = length (lob_bids ?b)" "\<forall>l \<in> set (lob_bids ?b) \<union> set (lob_asks ?b). level_fits l"
    unfolding b using fits by simp_all
  from printed_book_reads_back [OF this, of "\<lambda>_. ''0.00''"] show ?thesis
    unfolding b by (simp add: level_view_def PriceLevel_zero_def flip: numeral_3_eq_3)
qed

end
