(* ===== verification/LiveUdp.thy ===== *)
theory LiveUdp
  imports PcapReplay OrderBook
begin

text \<open>
  The live mode: class \<open>UDPReceiver\<close> of \<open>include/feed_handler/udp_receiver.hpp\<close> and the receive loop of
  \<open>runLiveUDP\<close> in \<open>src/main.cpp\<close>. The results of \<open>socket\<close>, \<open>bind\<close> and \<open>recv\<close> are arguments; theory
  \<open>UdpSockets\<close> adds the descriptors. What the loop pushes reaches the book in the same
  order, which is the property of the ring buffer.
\<close>

section \<open>The receiver\<close>

definition INVALID_SOCK :: int where "INVALID_SOCK = -1"

record UDPReceiver =
  udp_sock :: int

definition UDPReceiver_new :: UDPReceiver where
  "UDPReceiver_new = \<lparr>udp_sock = INVALID_SOCK\<rparr>"

definition closeSocket :: "UDPReceiver \<Rightarrow> UDPReceiver" where
  "closeSocket r = (if udp_sock r \<noteq> INVALID_SOCK then r\<lparr>udp_sock := INVALID_SOCK\<rparr> else r)"

definition udp_bind :: "int \<Rightarrow> int \<Rightarrow> UDPReceiver \<Rightarrow> UDPReceiver \<times> bool" where
  "udp_bind socket_result bind_result r =
     (let r = r\<lparr>udp_sock := socket_result\<rparr> in
      if udp_sock r = INVALID_SOCK then (r, False)
      else if bind_result \<noteq> 0 then (closeSocket r, False)
      else (r, True))"

text \<open>What \<open>recv\<close> can report: a datagram (of any length), nothing waiting, or an error.\<close>

datatype recv_outcome = Recv_datagram "byte list" | Recv_would_block | Recv_error

text \<open>\<open>recv\<close> writes at most \<open>sizeof(WireMessage)\<close> bytes and leaves the rest of the buffer alone.\<close>

definition receive :: "UDPReceiver \<Rightarrow> recv_outcome \<Rightarrow> WireMessage \<Rightarrow> int \<times> WireMessage" where
  "receive r outcome msg =
     (if udp_sock r = INVALID_SOCK then (-1, msg)
      else case outcome of
        Recv_datagram d \<Rightarrow>
          (let len = min (length d) sizeof_WireMessage in (int len, take len d @ drop len msg))
      | Recv_would_block \<Rightarrow> (0, msg)
      | Recv_error \<Rightarrow> (-1, msg))"

section \<open>The kernel-bypass adapter\<close>

text \<open>Class \<open>KernelBypassAdapter\<close> of \<open>include/feed_handler/kernel_bypass.hpp\<close>, a receiver with a mode that
  it announces and remembers.\<close>

datatype EngineMode = StandardSockets | SolarflareOnload | DPDKUserSpace

record KernelBypassAdapter =
  kb_receiver :: UDPReceiver
  kb_mode :: EngineMode

definition KernelBypassAdapter_new :: KernelBypassAdapter where
  "KernelBypassAdapter_new = \<lparr>kb_receiver = UDPReceiver_new, kb_mode = StandardSockets\<rparr>"

definition kb_init :: "int \<Rightarrow> int \<Rightarrow> EngineMode \<Rightarrow> KernelBypassAdapter \<Rightarrow> KernelBypassAdapter \<times> bool" where
  "kb_init socket_result bind_result engine_mode a =
     (case udp_bind socket_result bind_result (kb_receiver a) of (r, ok) \<Rightarrow>
        (a\<lparr>kb_mode := engine_mode, kb_receiver := r\<rparr>, ok))"

definition pollPacket :: "KernelBypassAdapter \<Rightarrow> recv_outcome \<Rightarrow> WireMessage \<Rightarrow> int \<times> WireMessage" where
  "pollPacket a outcome msg = receive (kb_receiver a) outcome msg"

text \<open>The mode changes nothing in how packets are received.\<close>

lemma kb_mode_irrelevant:
  "pollPacket (fst (kb_init sr br mode a)) outcome msg = pollPacket (fst (kb_init sr br mode' a)) outcome msg"
  by (simp add: pollPacket_def kb_init_def split: prod.split)

section \<open>The live loop\<close>

text \<open>The messages the loop pushes; \<open>packet\<close> is declared outside the loop.\<close>

fun live_loop :: "UDPReceiver \<Rightarrow> recv_outcome list \<Rightarrow> WireMessage \<Rightarrow> WireMessage list" where
  "live_loop r [] packet = []"
| "live_loop r (outcome # os) packet =
     (case receive r outcome packet of (bytes, packet) \<Rightarrow>
        if bytes > 0 then packet # live_loop r os packet else live_loop r os packet)"

text \<open>\<open>runLiveUDP\<close>: nothing if the receiver cannot be set up, else the book after all that was pushed.\<close>

definition runLiveUDP :: "int \<Rightarrow> int \<Rightarrow> LimitOrderBook \<Rightarrow> recv_outcome list \<Rightarrow> LimitOrderBook option" where
  "runLiveUDP socket_result bind_result book outcomes =
     (case udp_bind socket_result bind_result UDPReceiver_new of (receiver, ok) \<Rightarrow>
        if \<not> ok then None
        else Some (processAll (lob_reset book) (live_loop receiver outcomes WireMessage_zero)))"

section \<open>The book reads a message only up to its size\<close>

lemma seqNo_prefix: "take 29 m = take 29 m' \<Longrightarrow> seqNo m = seqNo m'"
  using field_at_prefix [of 1 8 29 m m'] by (simp add: seqNo_def wire_add_def)

lemma msgType_prefix: "take k m = take k m' \<Longrightarrow> 0 < k \<Longrightarrow> msgType m = msgType m'"
  by (metis msgType_def nth_take)

lemma processMessage_prefix:
  assumes "take (expectedSize (msgType m)) m = take (expectedSize (msgType m)) m'"
    and "msgType m \<in> {chA, chX, chE}" and "wire_ok m" "wire_ok m'"
  shows "processMessage b m = processMessage b m'"
proof -
  let ?k = "expectedSize (msgType m)"
  have k: "29 \<le> ?k" using assms(2) by (auto simp: expectedSize_cases)
  have "take 29 m = take 29 m'" using assms(1) k by (metis min.absorb1 take_take)
  then have s: "seqNo m = seqNo m'" "wire_cancel m = wire_cancel m'"
    by (rule seqNo_prefix, rule wire_cancel_prefix)
  have t: "msgType m = msgType m'" using msgType_prefix [OF assms(1)] k by simp
  from assms(2) consider "msgType m = chA" | "msgType m = chX" | "msgType m = chE" by auto
  then show ?thesis
  proof cases
    case 1
    then have "m = m'" using assms by (simp add: expectedSize_cases wire_ok_def layout_simps)
    then show ?thesis by simp
  next
    case 2
    then show ?thesis using s t by (simp add: processMessage_def Let_def)
  next
    case 3
    then have "wire_exec m = wire_exec m'"
      using wire_exec_prefix [of m m'] assms(1) by (simp add: expectedSize_cases)
    then show ?thesis using s t 3 by (simp add: processMessage_def Let_def)
  qed
qed

section \<open>Received datagrams\<close>

definition datagrams :: "recv_outcome list \<Rightarrow> byte list list" where
  "datagrams os = concat (map (\<lambda>x. case x of Recv_datagram d \<Rightarrow> [d] | _ \<Rightarrow> []) os)"

lemma datagrams_simps [simp]:
  "datagrams [] = []" "datagrams (Recv_datagram d # os) = d # datagrams os"
  "datagrams (Recv_would_block # os) = datagrams os" "datagrams (Recv_error # os) = datagrams os"
  by (simp_all add: datagrams_def)

lemma receive_quiet [simp]:
  "receive r Recv_would_block msg = (if udp_sock r = INVALID_SOCK then -1 else 0, msg)"
  "receive r Recv_error msg = (-1, msg)"
  by (simp_all add: receive_def)

lemma receive_datagram:
  "udp_sock r \<noteq> INVALID_SOCK \<Longrightarrow> length d \<le> 34 \<Longrightarrow>
    receive r (Recv_datagram d) msg = (int (length d), d @ drop (length d) msg)"
  by (simp add: receive_def Let_def layout_simps)

lemma live_loop_replay:
  "udp_sock r \<noteq> INVALID_SOCK \<Longrightarrow> datagrams os = map datagram ms \<Longrightarrow> \<forall>m \<in> set ms. wire_ok m \<and> isValid m
    \<Longrightarrow> wire_ok packet \<Longrightarrow> processAll b (live_loop r os packet) = processAll b ms"
proof (induction os arbitrary: ms packet b)
  case (Cons x os)
  show ?case
  proof (cases x)
    case (Recv_datagram d)
    then obtain m ms' where ms: "ms = m # ms'" "d = datagram m" "datagrams os = map datagram ms'"
      using Cons.prems(2) by auto
    let ?k = "expectedSize (msgType m)" and ?p = "datagram m @ drop (expectedSize (msgType m)) packet"
    have m: "wire_ok m" "isValid m" using Cons.prems(3) ms(1) by simp_all
    have known: "msgType m \<in> {chA, chX, chE}" by (rule isValid_code [OF m(2)])
    have len: "length d = ?k" "?k \<le> 34" "0 < ?k"
      using length_datagram [OF m(1)] ms(2) expectedSize_le known expectedSize_known by auto
    have rec: "receive r x packet = (int ?k, ?p)"
      using receive_datagram [OF Cons.prems(1), of d packet] Recv_datagram len ms(2) by simp
    have ok: "wire_ok ?p" using len ms(2) Cons.prems(4) by (simp add: wire_ok_def layout_simps)
    have "take ?k m = take ?k ?p" using len(1) ms(2) by (simp add: datagram_def)
    then have "processMessage b m = processMessage b ?p"
      by (rule processMessage_prefix [OF _ known m(1) ok])
    moreover have "processAll b' (live_loop r os ?p) = processAll b' ms'" for b'
      by (rule Cons.IH [OF Cons.prems(1) ms(3) _ ok]) (use Cons.prems(3) ms(1) in simp)
    ultimately show ?thesis using rec len(3) ms(1) by simp
  next
    case Recv_would_block
    then show ?thesis using Cons by simp
  next
    case Recv_error
    then show ?thesis using Cons by simp
  qed
qed simp

section \<open>Properties\<close>

text \<open>C22: Replay into the live engine. If the replayer's datagrams arrive without loss and in order,
  however many polls find nothing or fail in between, the live engine's book is the book of the
  replayed messages themselves: the bytes a short Cancel or Execute datagram leaves over from the
  previous packet are never read.\<close>

theorem live_book_of_replay:
  assumes "socket_result \<noteq> -1" and "bind_result = 0"
    and "datagrams outcomes = map datagram (messagesToReplay file)"
  shows "runLiveUDP socket_result bind_result book outcomes
    = Some (processAll (lob_reset book) (messagesToReplay file))"
proof -
  let ?r = "\<lparr>udp_sock = socket_result\<rparr>"
  have "\<forall>m \<in> set (messagesToReplay file). wire_ok m \<and> isValid m" using replay_valid by blast
  then have "processAll b (live_loop ?r outcomes WireMessage_zero) = processAll b (messagesToReplay file)" for b
    using live_loop_replay [of ?r outcomes "messagesToReplay file"] assms by (simp add: INVALID_SOCK_def)
  then show ?thesis
    using assms by (simp add: runLiveUDP_def udp_bind_def UDPReceiver_new_def Let_def INVALID_SOCK_def)
qed

definition ex_capture :: "byte list" where
  "ex_capture = ex_ghdr @ frame_bytes (ex_frame (replicate 42 0 @ ex_packet))"

theorem live_book_of_replay_witness:
  "runLiveUDP 3 0 ex_book (Recv_would_block # map (Recv_datagram \<circ> datagram) (messagesToReplay (Some ex_capture)))
     = Some (processAll (lob_reset ex_book) (messagesToReplay (Some ex_capture)))"
proof -
  have "datagrams (map (Recv_datagram \<circ> datagram) ms) = map datagram ms" for ms
    by (induction ms) simp_all
  then show ?thesis by (intro live_book_of_replay) simp_all
qed

text \<open>A truncated datagram is completed from the previous one. The live loop pushes a datagram shorter
  than a message with the tail of whatever was received before it, and no validation follows; the
  validator would have rejected the same bytes.\<close>

theorem short_datagram_completed:
  assumes "udp_sock r \<noteq> INVALID_SOCK" and "wire_ok previous" and "wire_ok packet"
    and "0 < length d" and "length d < expectedSize (d ! 0)"
  shows "live_loop r [Recv_datagram previous, Recv_datagram d] packet = [previous, d @ drop (length d) previous]
    \<and> fst (validateAndParse (Some d) (length d) previous) = LengthMismatch"
proof -
  have d: "length d \<le> 34" "d \<noteq> []" using assms(4,5) expectedSize_le [of "d ! 0"] by auto
  have p: "length previous = 34" "length packet = 34" using assms(2,3) by (simp_all add: wire_ok_def layout_simps)
  have "receive r (Recv_datagram previous) packet = (34, previous)"
    "receive r (Recv_datagram d) previous = (int (length d), d @ drop (length d) previous)"
    using receive_datagram [OF assms(1), of previous packet] receive_datagram [OF assms(1) d(1)] p by simp_all
  then have "live_loop r [Recv_datagram previous, Recv_datagram d] packet = [previous, d @ drop (length d) previous]"
    using assms(4) by simp
  moreover have "fst (validateAndParse (Some d) (length d) previous) = LengthMismatch"
    using assms(4,5) d(2) by (simp add: validateAndParse_def Let_def)
  ultimately show ?thesis ..
qed

theorem short_datagram_completed_witness:
  "live_loop \<lparr>udp_sock = 3\<rparr> [Recv_datagram (ex_add 1 7 chB 100 5), Recv_datagram [chA, 2]] WireMessage_zero
     = [ex_add 1 7 chB 100 5, [chA, 2] @ drop 2 (ex_add 1 7 chB 100 5)]"
proof -
  have "wire_ok (ex_add 1 7 chB 100 5)" by (simp add: ex_add_def)
  then show ?thesis
    using short_datagram_completed [of "\<lparr>udp_sock = 3\<rparr>" "ex_add 1 7 chB 100 5" WireMessage_zero "[chA, 2]"]
    by (simp add: INVALID_SOCK_def expectedSize_cases numeral_2_eq_2)
qed

end
