(* ===== verification/UdpSockets.thy ===== *)
theory UdpSockets
  imports LiveUdp
begin

text \<open>
  The descriptors of class \<open>UDPReceiver\<close> (\<open>include/feed_handler/udp_receiver.hpp\<close>). Theory \<open>LiveUdp\<close> models
  what the receiver does to its own state and to messages; here the operating system keeps the open
  sockets of the process, their status flags and, on Windows, the number of times the socket library
  was initialised. The results of the system calls are arguments.
\<close>

section \<open>State\<close>

record socket_os =
  so_open :: "int set"
  so_flags :: "int \<Rightarrow> u32"      \<comment> \<open>the file status flags of a socket\<close>
  so_wsa :: nat                    \<comment> \<open>calls of \<open>WSAStartup\<close> not yet undone\<close>

text \<open>What the calls of one \<open>bind\<close> answer: the new socket, whether \<open>F_GETFL\<close> succeeded (on Windows:
  whether \<open>ioctlsocket\<close> did, which stands for both \<open>fcntl\<close> calls), the result of \<open>::bind\<close>. \<open>O_NONBLOCK\<close> is
  the Linux value.\<close>

record bind_env =
  be_socket :: int
  be_getfl_ok :: bool
  be_bind :: int

definition O_NONBLOCK :: u32 where
  "O_NONBLOCK = 2048"

section \<open>Operations\<close>

definition initSocketSubsystem :: "bool \<Rightarrow> socket_os \<Rightarrow> socket_os" where
  "initSocketSubsystem windows os = (if windows then os\<lparr>so_wsa := so_wsa os + 1\<rparr> else os)"

definition cleanupSocketSubsystem :: "bool \<Rightarrow> socket_os \<Rightarrow> socket_os" where
  "cleanupSocketSubsystem windows os = (if windows then os\<lparr>so_wsa := so_wsa os - 1\<rparr> else os)"

definition setNonBlocking :: "bool \<Rightarrow> bool \<Rightarrow> UDPReceiver \<Rightarrow> socket_os \<Rightarrow> socket_os" where
  "setNonBlocking getfl_ok nonBlocking r os =
     (if udp_sock r = INVALID_SOCK then os
      else
        let flags = so_flags os (udp_sock r) in
        if getfl_ok then os\<lparr>so_flags := (so_flags os)(udp_sock r :=
          (if nonBlocking then flags OR O_NONBLOCK else flags AND NOT O_NONBLOCK))\<rparr>
        else os)"

definition os_closeSocket :: "UDPReceiver \<Rightarrow> socket_os \<Rightarrow> UDPReceiver \<times> socket_os" where
  "os_closeSocket r os =
     (if udp_sock r \<noteq> INVALID_SOCK
      then (r\<lparr>udp_sock := INVALID_SOCK\<rparr>, os\<lparr>so_open := so_open os - {udp_sock r}\<rparr>)
      else (r, os))"

definition os_bind :: "bind_env \<Rightarrow> UDPReceiver \<Rightarrow> socket_os \<Rightarrow> UDPReceiver \<times> socket_os \<times> bool" where
  "os_bind env r os =
     (let r = r\<lparr>udp_sock := be_socket env\<rparr> in
      if udp_sock r = INVALID_SOCK then (r, os, False)
      else
        let os = os\<lparr>so_open := insert (udp_sock r) (so_open os), so_flags := (so_flags os)(udp_sock r := 0)\<rparr>;
            os = setNonBlocking (be_getfl_ok env) True r os
        in if be_bind env \<noteq> 0
           then (case os_closeSocket r os of (r, os) \<Rightarrow> (r, os, False))
           else (r, os, True))"

text \<open>The constructor and the destructor.\<close>

definition UDPReceiver_construct :: "bool \<Rightarrow> socket_os \<Rightarrow> UDPReceiver \<times> socket_os" where
  "UDPReceiver_construct windows os = (\<lparr>udp_sock = INVALID_SOCK\<rparr>, initSocketSubsystem windows os)"

definition UDPReceiver_destroy :: "bool \<Rightarrow> UDPReceiver \<Rightarrow> socket_os \<Rightarrow> socket_os" where
  "UDPReceiver_destroy windows r os =
     (case os_closeSocket r os of (r, os) \<Rightarrow> cleanupSocketSubsystem windows os)"

section \<open>Against the model of the messages\<close>

lemma os_bind_refines: "os_bind env r os = (r', os', ok) \<Longrightarrow> udp_bind (be_socket env) (be_bind env) r = (r', ok)"
  by (auto simp: os_bind_def udp_bind_def os_closeSocket_def closeSocket_def Let_def split: if_splits)

lemma os_close_refines: "fst (os_closeSocket r os) = closeSocket r"
  by (simp add: os_closeSocket_def closeSocket_def)

section \<open>Descriptors\<close>

text \<open>The receiver holds one open socket or none; \<open>S\<close> are the sockets of the rest of the process.\<close>

definition sock_inv :: "int set \<Rightarrow> UDPReceiver \<Rightarrow> socket_os \<Rightarrow> bool" where
  "sock_inv S r os \<longleftrightarrow> (if udp_sock r = INVALID_SOCK then so_open os = S
     else udp_sock r \<notin> S \<and> so_open os = insert (udp_sock r) S)"

lemma setNonBlocking_open [simp]:
  "so_open (setNonBlocking g nb r os) = so_open os" "so_wsa (setNonBlocking g nb r os) = so_wsa os"
  by (simp_all add: setNonBlocking_def Let_def)

lemma nonblocking_set: "(f OR O_NONBLOCK) AND O_NONBLOCK = O_NONBLOCK" for f :: u32
  by (simp add: bit.conj_disj_distrib2 word_ao_absorbs)

lemma sock_inv_close [inv_intros]:
  "sock_inv S r os \<Longrightarrow> case os_closeSocket r os of (r', os') \<Rightarrow>
     sock_inv S r' os' \<and> udp_sock r' = INVALID_SOCK \<and> so_open os' = S \<and> so_wsa os' = so_wsa os"
  by (auto simp: sock_inv_def os_closeSocket_def)

lemma sock_inv_bind [inv_intros]:
  assumes "sock_inv S r os" and "udp_sock r = INVALID_SOCK" and "be_socket env \<notin> S"
  shows "case os_bind env r os of (r', os', ok) \<Rightarrow>
    sock_inv S r' os' \<and> so_wsa os' = so_wsa os \<and> ok = (udp_sock r' \<noteq> INVALID_SOCK)"
  using assms by (auto simp: sock_inv_def os_bind_def os_closeSocket_def Let_def)

text \<open>The calls of an owner: \<open>bind\<close> only while no socket is held.\<close>

datatype udp_action = Call_bind bind_env | Call_receive recv_outcome | Call_close

definition udp_call :: "udp_action \<Rightarrow> UDPReceiver \<times> socket_os \<Rightarrow> UDPReceiver \<times> socket_os" where
  "udp_call c rs = (case rs of (r, os) \<Rightarrow>
     case c of
       Call_bind env \<Rightarrow> (case os_bind env r os of (r, os, ok) \<Rightarrow> (r, os))
     | Call_receive outcome \<Rightarrow> (case receive r outcome WireMessage_zero of (bytes, msg) \<Rightarrow> (r, os))
     | Call_close \<Rightarrow> os_closeSocket r os)"

fun calls_ok :: "int set \<Rightarrow> udp_action list \<Rightarrow> UDPReceiver \<times> socket_os \<Rightarrow> bool" where
  "calls_ok S [] rs = True"
| "calls_ok S (c # cs) rs = ((case c of Call_bind env \<Rightarrow> udp_sock (fst rs) = INVALID_SOCK \<and> be_socket env \<notin> S
     | _ \<Rightarrow> True) \<and> calls_ok S cs (udp_call c rs))"

definition udp_calls :: "udp_action list \<Rightarrow> UDPReceiver \<times> socket_os \<Rightarrow> UDPReceiver \<times> socket_os" where
  "udp_calls cs rs = foldl (\<lambda>rs c. udp_call c rs) rs cs"

lemma udp_calls_inv:
  "calls_ok S cs (r, os) \<Longrightarrow> sock_inv S r os \<Longrightarrow> case udp_calls cs (r, os) of (r', os') \<Rightarrow>
     sock_inv S r' os' \<and> so_wsa os' = so_wsa os"
proof (induction cs arbitrary: r os)
  case (Cons c cs)
  obtain r1 os1 where c: "udp_call c (r, os) = (r1, os1)" by (metis prod.exhaust)
  have "sock_inv S r1 os1 \<and> so_wsa os1 = so_wsa os"
  proof (cases c)
    case (Call_bind env)
    then show ?thesis
      using c sock_inv_bind [OF Cons.prems(2), of env] Cons.prems(1) by (auto simp: udp_call_def split: prod.splits)
  next
    case Call_close
    then show ?thesis using c sock_inv_close [OF Cons.prems(2)] by (auto simp: udp_call_def)
  qed (use c Cons.prems(2) in \<open>auto simp: udp_call_def split: prod.splits\<close>)
  with Cons.IH [of r1 os1] Cons.prems(1) c show ?case by (auto simp: udp_calls_def split: prod.splits)
qed (simp add: udp_calls_def)

section \<open>Properties\<close>

text \<open>C31: A receiver gives back what it took. Whatever calls its owner makes between the constructor and
  the destructor, with any results of the system calls, as long as it binds only while it holds no
  socket, the process then has exactly the sockets open that it had before, and on Windows the socket
  library is initialised as often as before.\<close>

theorem receiver_releases_sockets:
  assumes "calls_ok (so_open os) cs (UDPReceiver_construct windows os)"
  shows "case udp_calls cs (UDPReceiver_construct windows os) of (r', os') \<Rightarrow>
    so_open (UDPReceiver_destroy windows r' os') = so_open os
    \<and> so_wsa (UDPReceiver_destroy windows r' os') = so_wsa os"
proof -
  let ?r0 = "\<lparr>udp_sock = INVALID_SOCK\<rparr>" and ?os0 = "initSocketSubsystem windows os"
  have "sock_inv (so_open os) ?r0 ?os0" by (simp add: sock_inv_def initSocketSubsystem_def)
  moreover obtain r' os' where run: "udp_calls cs (?r0, ?os0) = (r', os')" by (metis prod.exhaust)
  ultimately have inv: "sock_inv (so_open os) r' os'" "so_wsa os' = so_wsa ?os0"
    using udp_calls_inv [of "so_open os" cs ?r0 ?os0] assms by (auto simp: UDPReceiver_construct_def)
  obtain r2 os2 where close: "os_closeSocket r' os' = (r2, os2)" by (metis prod.exhaust)
  then have "so_open os2 = so_open os" "so_wsa os2 = so_wsa ?os0" using sock_inv_close [OF inv(1)] inv(2) by simp_all
  moreover have "UDPReceiver_destroy windows r' os' = cleanupSocketSubsystem windows os2"
    by (simp add: UDPReceiver_destroy_def close)
  ultimately show ?thesis
    unfolding UDPReceiver_construct_def run prod.case
    by (simp add: cleanupSocketSubsystem_def initSocketSubsystem_def)
qed

definition ex_sockets :: socket_os where
  "ex_sockets = \<lparr>so_open = {}, so_flags = (\<lambda>_. 0), so_wsa = 0\<rparr>"

theorem receiver_releases_sockets_witness:
  "case udp_calls [Call_bind \<lparr>be_socket = 3, be_getfl_ok = True, be_bind = 0\<rparr>, Call_receive Recv_would_block]
      (UDPReceiver_construct True ex_sockets) of (r', os') \<Rightarrow>
     udp_sock r' = 3 \<and> so_open os' = {3} \<and> so_open (UDPReceiver_destroy True r' os') = {}"
proof -
  let ?cs = "[Call_bind \<lparr>be_socket = 3, be_getfl_ok = True, be_bind = 0\<rparr>, Call_receive Recv_would_block]"
  have "calls_ok (so_open ex_sockets) ?cs (UDPReceiver_construct True ex_sockets)"
    by (simp add: ex_sockets_def UDPReceiver_construct_def)
  from receiver_releases_sockets [OF this] show ?thesis
    by (auto simp: ex_sockets_def UDPReceiver_construct_def udp_calls_def udp_call_def os_bind_def INVALID_SOCK_def
        initSocketSubsystem_def Let_def split: prod.splits)
qed

text \<open>A bound receiver polls: after a successful \<open>bind\<close> whose \<open>F_GETFL\<close> succeeded its socket does not
  block. When \<open>F_GETFL\<close> fails it does, and \<open>bind\<close> reports success all the same.\<close>

theorem bound_socket_nonblocking:
  assumes "os_bind env r os = (r', os', True)"
  shows "udp_sock r' = be_socket env \<and> be_socket env \<in> so_open os'
    \<and> so_flags os' (be_socket env) AND O_NONBLOCK = (if be_getfl_ok env then O_NONBLOCK else 0)"
  using assms
  by (auto simp: os_bind_def os_closeSocket_def setNonBlocking_def nonblocking_set Let_def split: if_splits)

section \<open>Behaviour outside the specification\<close>

text \<open>\<open>bind\<close> does not look at the socket it holds: a second call loses the first descriptor, which stays
  open after the receiver is gone.\<close>

lemma second_bind_leaks:
  assumes "udp_sock r \<noteq> INVALID_SOCK" and "udp_sock r \<in> so_open os" and "be_socket env \<noteq> udp_sock r"
    and "os_bind env r os = (r', os', ok)"
  shows "udp_sock r \<in> so_open (UDPReceiver_destroy windows r' os')"
  using assms
  by (auto simp: os_bind_def os_closeSocket_def UDPReceiver_destroy_def cleanupSocketSubsystem_def Let_def
      split: if_splits)

end
