(* ===== verification/LiveThreads.thy ===== *)
theory LiveThreads
  imports LiveUdp Pipeline
begin

text \<open>
  The two threads of \<open>runLiveUDP\<close> in \<open>src/main.cpp\<close>: the main thread receives packets and pushes them,
  retrying while the ring is full; the worker pops them into the order book and counts them. The ring
  operations are the steps of \<open>spsc_step\<close>; the answers of \<open>recv\<close> are arbitrary. \<open>running\<close> is never
  cleared by the code, so the loops have no exit. \<open>LiveUdp.runLiveUDP\<close> is the sequential view of this
  program; the property says in which sense it is implemented.
\<close>

section \<open>State and steps\<close>

text \<open>\<open>lv_pushing\<close> tells that the main thread is in its inner loop; \<open>lv_outcomes\<close> records the answers of
  \<open>recv\<close>; \<open>lv_msg\<close> is the worker's message between \<open>tryPop\<close> and \<open>processMessage\<close>.\<close>

record live =
  lv_spsc :: "WireMessage spsc"
  lv_packet :: WireMessage
  lv_pushing :: bool
  lv_outcomes :: "recv_outcome list"
  lv_msg :: "WireMessage option"
  lv_book :: LimitOrderBook
  lv_packetCount :: u64

definition live_init :: "nat \<Rightarrow> LimitOrderBook \<Rightarrow> live" where
  "live_init Capacity book = \<lparr>lv_spsc = spsc_init Capacity WireMessage_zero, lv_packet = WireMessage_zero,
     lv_pushing = False, lv_outcomes = [], lv_msg = None, lv_book = lob_reset book, lv_packetCount = 0\<rparr>"

inductive live_step :: "UDPReceiver \<Rightarrow> live \<Rightarrow> live \<Rightarrow> bool" for receiver where
  poll: "sp_prod (lv_spsc l) = P_idle \<Longrightarrow> \<not> lv_pushing l \<Longrightarrow> receive receiver outcome (lv_packet l) = (bytes, packet)
    \<Longrightarrow> live_step receiver l (l\<lparr>lv_packet := packet, lv_pushing := bytes > 0,
          lv_outcomes := lv_outcomes l @ [outcome]\<rparr>)"
| try_push: "sp_prod (lv_spsc l) = P_idle \<Longrightarrow> lv_pushing l
    \<Longrightarrow> live_step receiver l (l\<lparr>lv_spsc := (lv_spsc l)\<lparr>sp_prod := P_check (lv_packet l)\<rparr>\<rparr>)"
| push: "sp_prod (lv_spsc l) \<noteq> P_idle \<Longrightarrow> spsc_step (lv_spsc l) s \<Longrightarrow> sp_cons s = sp_cons (lv_spsc l)
    \<Longrightarrow> live_step receiver l (l\<lparr>lv_spsc := s,
          lv_pushing := (case sp_prod (lv_spsc l) of P_publish x \<Rightarrow> False | _ \<Rightarrow> lv_pushing l)\<rparr>)"
| try_pop: "lv_msg l = None \<Longrightarrow> sp_cons (lv_spsc l) = C_idle
    \<Longrightarrow> live_step receiver l (l\<lparr>lv_spsc := (lv_spsc l)\<lparr>sp_cons := C_check\<rparr>\<rparr>)"
| pop: "sp_cons (lv_spsc l) \<noteq> C_idle \<Longrightarrow> spsc_step (lv_spsc l) s \<Longrightarrow> sp_prod s = sp_prod (lv_spsc l)
    \<Longrightarrow> live_step receiver l (l\<lparr>lv_spsc := s,
          lv_msg := (case sp_cons (lv_spsc l) of C_release x \<Rightarrow> Some x | _ \<Rightarrow> lv_msg l)\<rparr>)"
| process: "lv_msg l = Some m
    \<Longrightarrow> live_step receiver l (l\<lparr>lv_msg := None, lv_book := processMessage (lv_book l) m,
          lv_packetCount := lv_packetCount l + 1\<rparr>)"

inductive live_reach :: "UDPReceiver \<Rightarrow> nat \<Rightarrow> LimitOrderBook \<Rightarrow> live \<Rightarrow> bool" for receiver Capacity book where
  init: "live_reach receiver Capacity book (live_init Capacity book)"
| step: "live_reach receiver Capacity book l \<Longrightarrow> live_step receiver l l' \<Longrightarrow> live_reach receiver Capacity book l'"

section \<open>The loop, one answer at a time\<close>

definition live_packet :: "UDPReceiver \<Rightarrow> recv_outcome list \<Rightarrow> WireMessage \<Rightarrow> WireMessage" where
  "live_packet r os packet = foldl (\<lambda>p outcome. snd (receive r outcome p)) packet os"

lemma live_loop_snoc:
  "live_loop r (os @ [outcome]) packet = live_loop r os packet
     @ (case receive r outcome (live_packet r os packet) of (bytes, p) \<Rightarrow> if bytes > 0 then [p] else [])"
  by (induction os arbitrary: packet) (simp_all add: live_packet_def split: prod.split)

lemma live_packet_snoc:
  "live_packet r (os @ [outcome]) packet = snd (receive r outcome (live_packet r os packet))"
  by (simp add: live_packet_def)

section \<open>Invariant\<close>

definition live_inv :: "UDPReceiver \<Rightarrow> nat \<Rightarrow> LimitOrderBook \<Rightarrow> live \<Rightarrow> bool" where
  "live_inv r Capacity book l \<longleftrightarrow>
     (let s = lv_spsc l in
      spsc_inv Capacity s
      \<and> lv_packet l = live_packet r (lv_outcomes l) WireMessage_zero
      \<and> live_loop r (lv_outcomes l) WireMessage_zero = sp_pushed s @ (if lv_pushing l then [lv_packet l] else [])
      \<and> (case prod_msg (sp_prod s) of None \<Rightarrow> True | Some x \<Rightarrow> lv_pushing l \<and> x = lv_packet l)
      \<and> (case lv_msg l of
            None \<Rightarrow> lv_book l = processAll (lob_reset book) (sp_popped s)
              \<and> lv_packetCount l = of_nat (length (sp_popped s))
          | Some m \<Rightarrow> sp_cons s = C_idle \<and> sp_popped s \<noteq> [] \<and> m = last (sp_popped s)
              \<and> lv_book l = processAll (lob_reset book) (butlast (sp_popped s))
              \<and> lv_packetCount l = of_nat (length (sp_popped s) - 1)))"

lemma live_inv_init: "cap_ok N \<Longrightarrow> live_inv r N book (live_init N book)"
  using spsc_inv_init [of N WireMessage_zero]
  by (simp add: live_inv_def live_init_def live_packet_def Let_def) (simp add: spsc_init_def)

lemma live_inv_poll:
  assumes "live_inv r N book l" and "sp_prod (lv_spsc l) = P_idle" "\<not> lv_pushing l"
    and "receive r outcome (lv_packet l) = (bytes, packet)"
  shows "live_inv r N book (l\<lparr>lv_packet := packet, lv_pushing := bytes > 0, lv_outcomes := lv_outcomes l @ [outcome]\<rparr>)"
  using assms by (simp add: live_inv_def live_loop_snoc live_packet_snoc Let_def cong: option.case_cong)

lemma push_effect:
  assumes "spsc_step s s'" and "sp_prod s \<noteq> P_idle" and "sp_cons s' = sp_cons s"
  shows "sp_popped s' = sp_popped s
    \<and> (case sp_prod s of P_publish x \<Rightarrow> sp_pushed s' = sp_pushed s @ [x] \<and> sp_prod s' = P_idle
       | c \<Rightarrow> sp_pushed s' = sp_pushed s \<and> prod_msg (sp_prod s') \<in> {None, prod_msg c})"
  using assms by cases auto

lemma live_inv_push:
  assumes inv: "live_inv r N book l" and step: "spsc_step (lv_spsc l) s"
    and pc: "sp_prod (lv_spsc l) \<noteq> P_idle" "sp_cons s = sp_cons (lv_spsc l)"
  shows "live_inv r N book (l\<lparr>lv_spsc := s,
    lv_pushing := (case sp_prod (lv_spsc l) of P_publish x \<Rightarrow> False | _ \<Rightarrow> lv_pushing l)\<rparr>)"
proof -
  have inv': "spsc_inv N s" using inv spsc_inv_step [OF step] by (simp add: live_inv_def Let_def)
  obtain x where x: "prod_msg (sp_prod (lv_spsc l)) = Some x" using pc(1) by (cases "sp_prod (lv_spsc l)") auto
  then have l: "lv_pushing l" "x = lv_packet l" "live_loop r (lv_outcomes l) WireMessage_zero = sp_pushed (lv_spsc l) @ [x]"
    "lv_packet l = live_packet r (lv_outcomes l) WireMessage_zero"
    using inv by (simp_all add: live_inv_def Let_def)
  have worker: "case lv_msg l of
            None \<Rightarrow> lv_book l = processAll (lob_reset book) (sp_popped (lv_spsc l))
              \<and> lv_packetCount l = of_nat (length (sp_popped (lv_spsc l)))
          | Some m \<Rightarrow> sp_cons (lv_spsc l) = C_idle \<and> sp_popped (lv_spsc l) \<noteq> [] \<and> m = last (sp_popped (lv_spsc l))
              \<and> lv_book l = processAll (lob_reset book) (butlast (sp_popped (lv_spsc l)))
              \<and> lv_packetCount l = of_nat (length (sp_popped (lv_spsc l)) - 1)"
    using inv by (simp add: live_inv_def Let_def)
  note eff = push_effect [OF step pc]
  show ?thesis
  proof (cases "\<exists>y. sp_prod (lv_spsc l) = P_publish y")
    case True
    then have "sp_pushed s = sp_pushed (lv_spsc l) @ [x]" "sp_prod s = P_idle" "sp_popped s = sp_popped (lv_spsc l)"
      using eff x by auto
    then show ?thesis using True inv' l worker pc(2) by (auto simp: live_inv_def Let_def split: option.splits)
  next
    case False
    then have same: "sp_pushed s = sp_pushed (lv_spsc l)" "sp_popped s = sp_popped (lv_spsc l)"
      "prod_msg (sp_prod s) \<in> {None, Some x}"
      "(case sp_prod (lv_spsc l) of P_publish x \<Rightarrow> False | _ \<Rightarrow> lv_pushing l) = True"
      using eff x l(1) pc(1) by (cases "sp_prod (lv_spsc l)"; simp)+
    show ?thesis unfolding same(4) using same(1-3) inv' l worker pc(2)
      by (auto simp: live_inv_def Let_def split: option.splits)
  qed
qed

lemma live_inv_pop:
  assumes inv: "live_inv r N book l" and step: "spsc_step (lv_spsc l) s"
    and pc: "sp_cons (lv_spsc l) \<noteq> C_idle" "sp_prod s = sp_prod (lv_spsc l)"
  shows "live_inv r N book (l\<lparr>lv_spsc := s,
    lv_msg := (case sp_cons (lv_spsc l) of C_release x \<Rightarrow> Some x | _ \<Rightarrow> lv_msg l)\<rparr>)"
proof -
  have inv': "spsc_inv N s" using inv spsc_inv_step [OF step] by (simp add: live_inv_def Let_def)
  have idle: "lv_msg l = None" using inv pc(1) by (auto simp: live_inv_def Let_def split: option.splits)
  note eff = cons_step_effect [OF step pc]
  show ?thesis
  proof (cases "sp_cons (lv_spsc l)")
    case (C_release x)
    then show ?thesis using eff inv inv' idle pc(2) by (auto simp: live_inv_def Let_def split: option.splits)
  qed (use eff inv inv' idle pc in \<open>auto simp: live_inv_def Let_def split: option.splits\<close>)
qed

lemma live_inv_step: "live_step r l l' \<Longrightarrow> live_inv r N book l \<Longrightarrow> live_inv r N book l'"
proof (induction rule: live_step.induct)
  case (poll l outcome bytes packet)
  then show ?case by (blast intro: live_inv_poll)
next
  case (try_push l)
  then show ?case using spsc_inv_step [OF push_call [of "lv_spsc l" "lv_packet l"]]
    by (auto simp: live_inv_def Let_def split: option.splits)
next
  case (push l s)
  then show ?case by (blast intro: live_inv_push)
next
  case (try_pop l)
  then show ?case using spsc_inv_step [OF pop_call [of "lv_spsc l"]]
    by (auto simp: live_inv_def Let_def split: option.splits)
next
  case (pop l s)
  then show ?case by (blast intro: live_inv_pop)
next
  case (process l m)
  then have "sp_popped (lv_spsc l) \<noteq> []" by (simp add: live_inv_def Let_def)
  then have "of_nat (length (sp_popped (lv_spsc l)) - Suc 0) + 1 = (of_nat (length (sp_popped (lv_spsc l))) :: u64)"
    by (cases "sp_popped (lv_spsc l)") simp_all
  then show ?case using process processAll_snoc [of "lob_reset book" "butlast (sp_popped (lv_spsc l))" m]
    by (auto simp: live_inv_def Let_def split: option.splits)
qed

lemma live_inv_reach: "live_reach r N book l \<Longrightarrow> cap_ok N \<Longrightarrow> live_inv r N book l"
  by (induction rule: live_reach.induct) (auto intro: live_inv_init live_inv_step)

section \<open>Properties\<close>

text \<open>C23: The threaded live mode implements its sequential view. In every state of every interleaving of
  the receiving and the processing thread, whatever \<open>recv\<close> has answered so far and whatever stale
  indices the threads have read, the book is that of the first \<open>k\<close> messages of the receive loop, \<open>k\<close> is
  the packet count, and the worker is at most the ring and two messages behind; when it has caught
  up, the book is the result of \<open>runLiveUDP\<close> on those answers.\<close>

theorem live_threads_refine:
  assumes "udp_bind socket_result 0 UDPReceiver_new = (receiver, True)"
    and "live_reach receiver Capacity book l" and "cap_ok Capacity"
  shows "\<exists>k. let arrived = live_loop receiver (lv_outcomes l) WireMessage_zero in
    lv_book l = processAll (lob_reset book) (take k arrived) \<and> lv_packetCount l = of_nat k
    \<and> k \<le> length arrived \<and> length arrived \<le> k + Capacity + 2
    \<and> (k = length arrived \<longrightarrow> runLiveUDP socket_result 0 book (lv_outcomes l) = Some (lv_book l))"
proof -
  let ?s = "lv_spsc l" and ?arrived = "live_loop receiver (lv_outcomes l) WireMessage_zero"
  let ?m = "length (sp_popped ?s)" and ?n = "length (sp_pushed ?s)"
  have inv: "live_inv receiver Capacity book l" by (rule live_inv_reach [OF assms(2,3)])
  then have arrived: "?arrived = sp_pushed ?s @ (if lv_pushing l then [lv_packet l] else [])"
    and "spsc_inv Capacity ?s" by (simp_all add: live_inv_def Let_def)
  then obtain ct ch where at: "spsc_at Capacity ?s ct ch" by (auto simp: spsc_inv_def)
  then have r: "ring_at (sp_ring ?s) ct ?m ch ?n" "ring_capacity (sp_ring ?s) = Capacity"
    and pre: "sp_popped ?s = take ?m (sp_pushed ?s)" by (simp_all add: spsc_at_def Let_def)
  have mn: "?m \<le> ?n" "?n \<le> ?m + Capacity" using ring_atD(2-5) [OF r(1)] r(2) by linarith+
  then have popped: "sp_popped ?s = take ?m ?arrived" using pre arrived by simp
  have len: "?n \<le> length ?arrived" "length ?arrived \<le> Suc ?n" using arrived by simp_all
  have "\<exists>k. lv_book l = processAll (lob_reset book) (take k ?arrived) \<and> lv_packetCount l = of_nat k
    \<and> k \<le> ?m \<and> ?m \<le> Suc k"
  proof (cases "lv_msg l")
    case None
    then show ?thesis using inv popped by (intro exI [of _ ?m]) (simp add: live_inv_def Let_def)
  next
    case (Some x)
    have "butlast (sp_popped ?s) = take (?m - 1) ?arrived"
      using popped mn(1) len(1) by (metis butlast_take le_trans)
    then show ?thesis using inv Some by (intro exI [of _ "?m - 1"]) (simp add: live_inv_def Let_def)
  qed
  then obtain k where k: "lv_book l = processAll (lob_reset book) (take k ?arrived)"
    "lv_packetCount l = of_nat k" "k \<le> ?m" "?m \<le> Suc k" by blast
  have "runLiveUDP socket_result 0 book (lv_outcomes l) = Some (processAll (lob_reset book) ?arrived)"
    using assms(1) by (simp add: runLiveUDP_def)
  then show ?thesis using k mn len by (intro exI [of _ k]) (simp add: Let_def)
qed

text \<open>A packet arrives while the worker is idle.\<close>

theorem live_threads_refine_witness:
  "\<exists>l. live_reach \<lparr>udp_sock = 3\<rparr> 2 ex_book l \<and> lv_outcomes l = [Recv_datagram (ex_add 1 7 chB 100 5)]
     \<and> lv_pushing l \<and> (\<exists>k. lv_book l = processAll (lob_reset ex_book) (take k [ex_add 1 7 chB 100 5]))"
proof -
  let ?m = "ex_add 1 7 chB 100 5" and ?r = "\<lparr>udp_sock = 3\<rparr>"
  let ?l = "(live_init 2 ex_book)\<lparr>lv_packet := ?m, lv_pushing := True, lv_outcomes := [Recv_datagram ?m]\<rparr>"
  have "wire_ok ?m" by (simp add: ex_add_def)
  then have rec: "receive ?r (Recv_datagram ?m) WireMessage_zero = (34, ?m)"
    using receive_datagram [of ?r ?m WireMessage_zero]
    by (simp add: INVALID_SOCK_def wire_ok_def layout_simps WireMessage_zero_def)
  have "live_step ?r (live_init 2 ex_book) ?l"
    using poll [of "live_init 2 ex_book" ?r "Recv_datagram ?m" 34 ?m] rec by (simp add: live_init_def spsc_init_def)
  then have reach: "live_reach ?r 2 ex_book ?l" using live_reach.intros by blast
  have "udp_bind 3 0 UDPReceiver_new = (?r, True)" "cap_ok 2"
    by (simp_all add: udp_bind_def UDPReceiver_new_def INVALID_SOCK_def Let_def cap_ok_def)
  from live_threads_refine [OF this(1) reach this(2)] obtain k where
    "lv_book ?l = processAll (lob_reset ex_book) (take k (live_loop ?r [Recv_datagram ?m] WireMessage_zero))"
    by (auto simp: Let_def)
  moreover have "live_loop ?r [Recv_datagram ?m] WireMessage_zero = [?m]" using rec by simp
  ultimately show ?thesis using reach by (intro exI [of _ ?l]) (auto simp del: live_loop.simps)
qed

end
