(* ===== verification/Cli.thy ===== *)
theory Cli
  imports Ingest Arbitrator Generators Latency LiveUdp Pipeline Progress
begin

text \<open>
  The command line of the engine, \<open>main\<close> of \<open>src/main.cpp\<close>: the options, the mode they select, and the
  two benchmarks of the \<open>--bench\<close> mode over the generated feed. Also \<open>main\<close> of \<open>src/mock_exchange.cpp\<close>,
  whose datagrams the live mode receives.
\<close>

section \<open>Options\<close>

definition MAX_BENCH_MESSAGES :: u64 where "MAX_BENCH_MESSAGES = 2000000"

record options =
  opt_userFilePath :: string
  opt_interactiveMode :: bool
  opt_liveMode :: bool
  opt_livePort :: u16
  opt_benchMode :: bool
  opt_benchCount :: u64

definition options_init :: options where
  "options_init = \<lparr>opt_userFilePath = [], opt_interactiveMode = False, opt_liveMode = False,
     opt_livePort = 12345, opt_benchMode = False, opt_benchCount = 1000000\<rparr>"

definition is_option :: "string \<Rightarrow> bool" where      \<comment> \<open>\<open>arg[0] == '-'\<close>\<close>
  "is_option arg \<longleftrightarrow> arg \<noteq> [] \<and> arg ! 0 = CHR ''-''"

definition example_file :: "string \<Rightarrow> string" where
  "example_file ex =
     (if ex = ''aapl'' then ''examples/aapl_l2_book.csv''
      else if ex = ''nvda'' then ''examples/nvda_order_flow.csv''
      else if ex = ''sweep'' then ''examples/market_cross_sweep.csv'' else ex)"

definition bench_count :: "string \<Rightarrow> u64" where
  "bench_count arg = (let n = strtoull10 arg in if n > MAX_BENCH_MESSAGES then MAX_BENCH_MESSAGES else n)"

text \<open>The loop over \<open>argv[1]\<close>, \<open>argv[2]\<close>, ...; \<^const>\<open>None\<close> is the early return of \<open>--help\<close>.\<close>

fun parse_args :: "options \<Rightarrow> string list \<Rightarrow> options option" where
  "parse_args opts [] = Some opts"
| "parse_args opts (arg # rest) =
     (if arg = ''--help'' \<or> arg = ''-h'' then None
      else if arg = ''--file'' \<or> arg = ''-f'' then
        (case rest of [] \<Rightarrow> parse_args opts rest
         | v # rest' \<Rightarrow> parse_args (opts\<lparr>opt_userFilePath := v\<rparr>) rest')
      else if arg = ''--interactive'' \<or> arg = ''-i'' then
        parse_args (opts\<lparr>opt_interactiveMode := True\<rparr>) rest
      else if arg = ''--example'' then
        (case rest of [] \<Rightarrow> parse_args (opts\<lparr>opt_userFilePath := example_file ''aapl''\<rparr>) rest
         | v # rest' \<Rightarrow>
             if \<not> is_option v then parse_args (opts\<lparr>opt_userFilePath := example_file v\<rparr>) rest'
             else parse_args (opts\<lparr>opt_userFilePath := example_file ''aapl''\<rparr>) rest)
      else if arg = ''--live'' then
        (case rest of [] \<Rightarrow> parse_args (opts\<lparr>opt_liveMode := True\<rparr>) rest
         | v # rest' \<Rightarrow>
             if \<not> is_option v then
               parse_args (opts\<lparr>opt_liveMode := True, opt_livePort := atoi_u16 v\<rparr>) rest'
             else parse_args (opts\<lparr>opt_liveMode := True\<rparr>) rest)
      else if arg = ''--bench'' then
        (case rest of [] \<Rightarrow> parse_args (opts\<lparr>opt_benchMode := True\<rparr>) rest
         | v # rest' \<Rightarrow>
             if \<not> is_option v then
               parse_args (opts\<lparr>opt_benchMode := True, opt_benchCount := bench_count v\<rparr>) rest'
             else parse_args (opts\<lparr>opt_benchMode := True\<rparr>) rest)
      else parse_args opts rest)"

datatype mode = Mode_help | Mode_file string | Mode_interactive | Mode_live u16 | Mode_bench u64

definition main_mode :: "string list \<Rightarrow> mode" where
  "main_mode argv =
     (case parse_args options_init (drop 1 argv) of
        None \<Rightarrow> Mode_help
      | Some opts \<Rightarrow>
          if opt_userFilePath opts \<noteq> [] then Mode_file (opt_userFilePath opts)
          else if opt_interactiveMode opts then Mode_interactive
          else if opt_liveMode opts then Mode_live (opt_livePort opts)
          else if opt_benchMode opts then Mode_bench (opt_benchCount opts)
          else Mode_interactive)"

section \<open>The benchmarks\<close>

text \<open>\<open>g_benchFeed\<close> after the generator: its first \<open>messageCount\<close> elements are the feed. The direct
  benchmark runs the book over them; \<open>elapsed i\<close> is the \<open>i\<close>-th measured latency.\<close>

definition fill_bench :: "WireMessage list \<Rightarrow> WireMessage list \<Rightarrow> WireMessage list" where
  "fill_bench benchFeed feed = fold (\<lambda>(i, m) a. a[i := m]) (zip [0..<length feed] feed) benchFeed"

definition runDirectBenchmark ::
  "(nat \<Rightarrow> int) \<Rightarrow> LimitOrderBook \<Rightarrow> WireMessage list \<Rightarrow> nat \<Rightarrow> LimitOrderBook \<times> LatencyTracker" where
  "runDirectBenchmark elapsed book benchFeed messageCount =
     foldl (\<lambda>(book, tracker) i. (processMessage book (benchFeed ! i), recordNs (elapsed i) tracker))
       (lob_reset book, LatencyTracker_new) [0..<messageCount]"

section \<open>The mock exchange\<close>

text \<open>The exit code, the port and the datagrams sent, each the whole 34-byte union.\<close>

definition exchange_main ::
  "bool \<Rightarrow> (nat \<Rightarrow> u64) \<Rightarrow> 'r uniform \<Rightarrow> 'r \<Rightarrow> string list \<Rightarrow> nat \<times> (u16 \<times> byte list list) option" where
  "exchange_main socket_ok nowNs uniform rng argv =
     (let totalPackets = (if length argv > 1 then strtoull10 (argv ! 1) else 500000);
          targetPort = (if length argv > 2 then atoi_u16 (argv ! 2) else 12345)
      in if \<not> socket_ok then (1, None)
         else (0, Some (targetPort, exchange_feed nowNs uniform rng (unat totalPackets))))"

section \<open>Lemmas\<close>

lemma live_loop_whole:
  "udp_sock r \<noteq> INVALID_SOCK \<Longrightarrow> list_all wire_ok ms \<Longrightarrow> wire_ok packet
    \<Longrightarrow> live_loop r (map Recv_datagram ms) packet = ms"
  by (induction ms arbitrary: packet) (simp_all add: receive_def wire_ok_def layout_simps)

text \<open>Whatever the arguments, the count stays within the buffer; one rule per construct of the loop.\<close>

definition args_ok :: "options option \<Rightarrow> bool" where
  "args_ok r \<longleftrightarrow> (case r of None \<Rightarrow> True | Some opts \<Rightarrow> opt_benchCount opts \<le> MAX_BENCH_MESSAGES)"

lemma args_ok_if: "args_ok x \<Longrightarrow> args_ok y \<Longrightarrow> args_ok (if c then x else y)"
  by simp

lemma args_ok_case:
  "args_ok x \<Longrightarrow> (\<And>v vs. ys = v # vs \<Longrightarrow> args_ok (f v vs)) \<Longrightarrow> args_ok (case ys of [] \<Rightarrow> x | v # vs \<Rightarrow> f v vs)"
  by (cases ys) simp_all

lemma parse_args_ok: "opt_benchCount opts \<le> MAX_BENCH_MESSAGES \<Longrightarrow> args_ok (parse_args opts args)"
proof (induction args arbitrary: opts rule: length_induct)
  case (1 args)
  have "bench_count v \<le> MAX_BENCH_MESSAGES" for v by (simp add: bench_count_def Let_def not_less)
  note bounds = this "1.prems"
  have IH: "args_ok (parse_args o' ys)" if "length ys < length args" "opt_benchCount o' \<le> MAX_BENCH_MESSAGES" for o' ys
    using "1.IH" that by blast
  show ?case
  proof (cases args)
    case Nil
    then show ?thesis using "1.prems" by (simp add: args_ok_def)
  next
    case (Cons arg rest)
    have none: "args_ok None" by (simp add: args_ok_def)
    show ?thesis
      unfolding Cons parse_args.simps(2)
      by (intro args_ok_if args_ok_case none IH) (simp_all add: Cons bounds)
  qed
qed

lemma parse_args_bound:
  "parse_args options_init args = Some opts \<Longrightarrow> opt_benchCount opts \<le> MAX_BENCH_MESSAGES"
  using parse_args_ok [of options_init args] by (simp add: args_ok_def options_init_def MAX_BENCH_MESSAGES_def)

text \<open>A consecutively numbered feed that starts where the book expects it leaves no gap.\<close>

lemma numbered_no_gap:
  assumes "numbered (lob_expectedSeqNo b) ms"
  shows "lob_sequenceGapsDetected (processAll b ms) = lob_sequenceGapsDetected b
    \<and> lob_expectedSeqNo (processAll b ms) = lob_expectedSeqNo b + of_nat (length ms)"
  using assms
proof (induction ms arbitrary: b)
  case (Cons m ms)
  then have s: "seqNo m = lob_expectedSeqNo b" by simp
  have "lob_expectedSeqNo (processMessage b m) = lob_expectedSeqNo b + 1"
    "lob_sequenceGapsDetected (processMessage b m) = lob_sequenceGapsDetected b"
    using s by (simp_all add: frame_simps)
  with Cons show ?case by simp
qed simp

lemma fill_bench_prefix:
  "length feed \<le> length benchFeed \<Longrightarrow> fill_bench benchFeed feed = feed @ drop (length feed) benchFeed"
proof (induction feed rule: rev_induct)
  case (snoc m feed)
  have "fill_bench benchFeed (feed @ [m]) = (fill_bench benchFeed feed)[length feed := m]"
    by (simp add: fill_bench_def)
  also have "\<dots> = (feed @ drop (length feed) benchFeed)[length feed := m]" using snoc by simp
  also have "\<dots> = (feed @ [m]) @ drop (length (feed @ [m])) benchFeed"
    using snoc.prems by (simp add: list_update_append Cons_nth_drop_Suc [symmetric])
  finally show ?case .
qed (simp add: fill_bench_def)

lemma direct_prefix:
  assumes "k \<le> length feed" and "take (length feed) benchFeed = feed"
  shows "foldl (\<lambda>(book, tracker) i. (processMessage book (benchFeed ! i), recordNs (elapsed i) tracker))
       (book, tracker) [0..<k]
    = (processAll book (take k feed), tracker\<lparr>lt_samplesNs := lt_samplesNs tracker @ map elapsed [0..<k]\<rparr>)"
  using assms(1)
proof (induction k)
  case (Suc k)
  have "benchFeed ! k = feed ! k" using assms(2) Suc.prems by (metis Suc_le_lessD nth_take)
  then show ?case
    using Suc by (simp add: take_Suc_conv_app_nth processAll_snoc recordNs_def)
qed simp

section \<open>Properties\<close>



text \<open>C27: The mock exchange feeds the live engine without a gap. If every datagram it sends arrives, in
  order, the live book has processed all of its messages, all of them valid, and counts no gap.\<close>

theorem exchange_to_live:
  assumes "exchange_main True nowNs uniform rng argv = (code, Some (port, sent))" and "in_range uniform"
    and "socket_result \<noteq> -1"
  shows "list_all isValid sent
    \<and> (\<exists>b. runLiveUDP socket_result 0 book (map Recv_datagram sent) = Some b
        \<and> b = processAll (lob_reset book) sent
        \<and> lob_sequenceGapsDetected b = 0 \<and> lob_totalMessagesProcessed b = of_nat (length sent))"
proof -
  obtain n :: u64 where sent: "sent = exchange_feed nowNs uniform rng (unat n)"
    using assms(1) by (auto simp: exchange_main_def Let_def)
  from exchange.feed_correct [OF assms(2) unat_u64_less [of n], where s = 1 and rng = rng and nowNs = nowNs]
  have feed: "list_all (\<lambda>m. wire_ok m \<and> isValid m) sent" "numbered 1 sent"
    by (auto simp: sent exchange_feed_def split: prod.splits)
  then have ok: "list_all wire_ok sent" "list_all isValid sent" by (auto simp: list_all_iff)
  then have "live_loop \<lparr>udp_sock = socket_result\<rparr> (map Recv_datagram sent) WireMessage_zero = sent"
    using assms(3) by (intro live_loop_whole) (simp_all add: INVALID_SOCK_def)
  then have run: "runLiveUDP socket_result 0 book (map Recv_datagram sent) = Some (processAll (lob_reset book) sent)"
    using assms(3) by (simp add: runLiveUDP_def udp_bind_def UDPReceiver_new_def Let_def INVALID_SOCK_def)
  have "lob_expectedSeqNo (lob_reset book) = 1" "lob_sequenceGapsDetected (lob_reset book) = 0"
    "lob_totalMessagesProcessed (lob_reset book) = 0" by (simp_all add: lob_reset_def)
  with numbered_no_gap [of "lob_reset book" sent] counters_all [of "lob_reset book" sent] feed(2) ok(2) run
  show ?thesis by simp
qed

theorem exchange_to_live_witness:
  "\<exists>b. runLiveUDP 3 0 ex_book (map Recv_datagram (exchange_feed (\<lambda>_. 0) ex_uniform 5 2)) = Some b
     \<and> lob_sequenceGapsDetected b = 0"
proof -
  have "strtoull10 ''2'' = 2" by code_simp
  then have "exchange_main True (\<lambda>_. 0) ex_uniform 5 [''mock'', ''2''] = (0, Some (12345, exchange_feed (\<lambda>_. 0) ex_uniform 5 2))"
    by (simp add: exchange_main_def)
  from exchange_to_live [OF this ex_uniform_range, of 3 ex_book] show ?thesis by auto
qed

end
