(* ===== verification/Reports.thy ===== *)
theory Reports
  imports BookPrint Cli
begin

text \<open>
  What the modes of \<open>src/main.cpp\<close> print, beside their banners: the answers of the console, the report of
  the file mode (latency summary and book) and the periodic report of the live mode. The state the
  console keeps is that of \<open>Ingest.cli_loop\<close>; measured times are arguments, and \<open>show\<close> prints a \<open>double\<close>
  with two decimals.
\<close>

section \<open>The console\<close>

definition show_i64 :: "int \<Rightarrow> string" where      \<comment> \<open>\<open>%lld\<close>\<close>
  "show_i64 n = (if n < 0 then ''-'' @ dec (nat (- n)) else dec (nat n))"

definition prompt :: string where "prompt = ''> ''"

definition reset_notice :: string where
  "reset_notice = ''[Engine] Limit Order Book reset.'' @ nl"

definition invalid_notice :: string where
  "invalid_notice = ''Invalid format. Examples:'' @ nl @ ''  A 1001 B 100.50 500'' @ nl
     @ ''  X 1001 0'' @ nl @ ''  E 1001 100.50 200'' @ nl"

definition order_notice :: "int \<Rightarrow> WireMessage \<Rightarrow> string" where
  "order_notice ns msg =
     ''>>> Ingested '' @ [CHR 0x27] @ show_char (msgType msg) @ [CHR 0x27] @ '' Order #''
     @ show_u64 (add_orderId (wire_add msg)) @ '' | Wire-to-Book Latency: '' @ show_i64 ns @ '' ns'' @ nl"

text \<open>The answer to one line that neither is empty nor quits, and the state after it; \<open>elapsed i\<close> is the
  latency measured for the order of the \<open>i\<close>-th call of the parser.\<close>

definition cli_answer ::
  "(string \<Rightarrow> i32) \<Rightarrow> (nat \<Rightarrow> u64) \<Rightarrow> (nat \<Rightarrow> int) \<Rightarrow> (real \<Rightarrow> string) \<Rightarrow> cli \<Rightarrow> string \<Rightarrow> string \<times> cli" where
  "cli_answer f now elapsed show_fixed2 c line =
     (if cli_reset line then
        let c = c\<lparr>cli_book := lob_reset (cli_book c)\<rparr> in (reset_notice @ printBook show_fixed2 (cli_book c), c)
      else if cli_show line then (printBook show_fixed2 (cli_book c), c)
      else
        (case parseUserLine f (now (cli_calls c)) line (cli_seqNo c) WireMessage_zero of (ok, msg) \<Rightarrow>
           let c' = cli_order f now c line in
           if ok then (order_notice (elapsed (cli_calls c)) msg @ printBook show_fixed2 (cli_book c'), c')
           else (invalid_notice, c')))"

text \<open>The loop: what is printed after each line read, up to the next prompt.\<close>

fun cli_session ::
  "(string \<Rightarrow> i32) \<Rightarrow> (nat \<Rightarrow> u64) \<Rightarrow> (nat \<Rightarrow> int) \<Rightarrow> (real \<Rightarrow> string) \<Rightarrow> cli \<Rightarrow> string list \<Rightarrow> string list \<times> cli" where
  "cli_session f now elapsed sh c [] = ([], c)"
| "cli_session f now elapsed sh c (line # lines) =
     (if line = [] then (case cli_session f now elapsed sh c lines of (out, c') \<Rightarrow> (prompt # out, c'))
      else if cli_quit line then ([], c)
      else
        (case cli_answer f now elapsed sh c line of (text, c1) \<Rightarrow>
         case cli_session f now elapsed sh c1 lines of (out, c') \<Rightarrow> ((text @ prompt) # out, c')))"

section \<open>The file mode\<close>

text \<open>The error on an unreadable file, the hint on a file without orders, or the number of messages, the
  numbers of the latency summary and the book.\<close>

datatype file_report =
    Cannot_open string | Nothing_parsed string | Report nat "real list option" string

definition process_timed ::
  "(nat \<Rightarrow> int) \<Rightarrow> LimitOrderBook \<Rightarrow> WireMessage list \<Rightarrow> LimitOrderBook \<times> LatencyTracker" where
  "process_timed elapsed book messages =
     foldl (\<lambda>(book, tracker) (i, msg). (processMessage book msg, recordNs (elapsed i) tracker))
       (book, LatencyTracker_new) (enumerate 0 messages)"

definition runUserFile_report ::
  "(string \<Rightarrow> i32) \<Rightarrow> (nat \<Rightarrow> u64) \<Rightarrow> (nat \<Rightarrow> int) \<Rightarrow> real \<Rightarrow> (real \<Rightarrow> string) \<Rightarrow> LimitOrderBook
     \<Rightarrow> string \<Rightarrow> string list option \<Rightarrow> file_report" where
  "runUserFile_report f now elapsed totalWallMs show_fixed2 book filePath file =
     (case file of
        None \<Rightarrow> Cannot_open filePath
      | Some lines \<Rightarrow>
          let messages = parse_lines f now 0 1 lines in
          if messages = [] then Nothing_parsed filePath
          else
            (case process_timed elapsed (lob_reset book) messages of (book, tracker) \<Rightarrow>
               Report (length messages) (fst (printSummary totalWallMs tracker)) (printBook show_fixed2 book)))"

section \<open>The live mode\<close>

text \<open>The worker's report after a turn of its loop, given the clock and the time of the last report in
  nanoseconds; and the reports of a sequence of turns with their times.\<close>

definition stats_line :: "LimitOrderBook \<Rightarrow> string" where
  "stats_line b = ''  [Stats] Packets: '' @ show_u64 (lob_totalMessagesProcessed b) @ '' | Gaps: ''
     @ show_u64 (lob_sequenceGapsDetected b) @ '' | Trades: '' @ show_u64 (lob_tradesExecutedCount b) @ nl @ nl"

definition live_report :: "(real \<Rightarrow> string) \<Rightarrow> int \<Rightarrow> int \<Rightarrow> u64 \<Rightarrow> LimitOrderBook \<Rightarrow> string option \<times> int" where
  "live_report show_fixed2 now lastPrint packetCount book =
     (if (now - lastPrint) div 1000000 \<ge> 1000 then
        (if packetCount > 0 then Some (printBook show_fixed2 book @ stats_line book) else None, now)
      else (None, lastPrint))"

fun live_reports :: "(real \<Rightarrow> string) \<Rightarrow> int \<Rightarrow> (int \<times> u64 \<times> LimitOrderBook) list \<Rightarrow> (int \<times> string) list" where
  "live_reports sh lastPrint [] = []"
| "live_reports sh lastPrint ((now, packetCount, book) # turns) =
     (case live_report sh now lastPrint packetCount book of (r, lastPrint) \<Rightarrow>
        (case r of None \<Rightarrow> live_reports sh lastPrint turns
         | Some text \<Rightarrow> (now, text) # live_reports sh lastPrint turns))"

section \<open>Lemmas\<close>

text \<open>Where the table begins in the answer to a line, counted in lines of text; none is printed after an
  empty line or one that does not parse.\<close>

definition table_at :: "(string \<Rightarrow> i32) \<Rightarrow> (nat \<Rightarrow> u64) \<Rightarrow> cli \<Rightarrow> string \<Rightarrow> nat option" where
  "table_at f now c line =
     (if line = [] then None
      else if cli_reset line then Some 8
      else if cli_show line then Some 7
      else if fst (parseUserLine f (now (cli_calls c)) line (cli_seqNo c) WireMessage_zero) then Some 8
      else None)"

lemma answer_state:
  "\<not> cli_quit line \<Longrightarrow> line \<noteq> [] \<Longrightarrow> snd (cli_answer f now elapsed sh c line) = cli_loop f now c [line]"
  by (auto simp: cli_answer_def Let_def split: prod.split)

lemma cli_loop_Cons:
  "\<not> cli_quit line \<Longrightarrow> cli_loop f now c (line # lines) = cli_loop f now (cli_loop f now c [line]) lines"
  by simp

lemma quit_words: "\<not> cli_quit []" by (simp add: cli_quit_def)

lemma cli_session_state: "snd (cli_session f now elapsed sh c lines) = cli_loop f now c lines"
proof (induction lines arbitrary: c)
  case (Cons line lines)
  show ?case
  proof (cases "line = [] \<or> cli_quit line")
    case True
    then show ?thesis using Cons.IH [of c] by (auto split: prod.split)
  next
    case False
    obtain t c1 where a: "cli_answer f now elapsed sh c line = (t, c1)" by (metis prod.exhaust)
    have "c1 = cli_loop f now c [line]" using answer_state [of line f now elapsed sh c] a False by simp
    then have "cli_loop f now c1 lines = cli_loop f now c (line # lines)"
      using cli_loop_Cons False by metis
    then show ?thesis using False a Cons.IH [of c1] by (auto split: prod.split simp del: cli_loop.simps)
  qed
qed simp

lemma cli_session_length: "length (fst (cli_session f now elapsed sh c lines)) \<le> length lines"
  by (induction lines arbitrary: c) (auto split: prod.split, (metis fst_conv)+)

text \<open>The \<open>i\<close>-th answer is that to the \<open>i\<close>-th line in the state the lines before it lead to.\<close>

lemma cli_session_nth:
  assumes "i < length (fst (cli_session f now elapsed sh c lines))"
  shows "let c1 = cli_loop f now c (take i lines) in \<not> cli_quit (lines ! i) \<and> i < length lines
    \<and> cli_loop f now c (take (Suc i) lines) = cli_loop f now c1 [lines ! i]
    \<and> fst (cli_session f now elapsed sh c lines) ! i =
        (if lines ! i = [] then [] else fst (cli_answer f now elapsed sh c1 (lines ! i))) @ prompt"
  using assms
proof (induction lines arbitrary: c i)
  case (Cons line lines)
  have nq: "\<not> cli_quit line" using Cons.prems quit_words by (auto split: if_splits)
  define c1 where "c1 = cli_loop f now c [line]"
  have out: "fst (cli_session f now elapsed sh c (line # lines)) =
      ((if line = [] then [] else fst (cli_answer f now elapsed sh c line)) @ prompt)
      # fst (cli_session f now elapsed sh c1 lines)"
    using nq answer_state [OF nq, of f now elapsed sh c] by (auto simp: c1_def split: prod.split)
  have skip: "cli_loop f now c (line # ls) = cli_loop f now c1 ls" for ls
    unfolding c1_def by (rule cli_loop_Cons [OF nq])
  show ?case
  proof (cases i)
    case 0
    then show ?thesis unfolding out Let_def by (simp add: nq del: cli_loop.simps(2) cli_session.simps)
  next
    case (Suc j)
    then have "j < length (fst (cli_session f now elapsed sh c1 lines))" using Cons.prems out by simp
    from Cons.IH [OF this] show ?thesis
      unfolding out by (simp add: Suc skip Let_def del: cli_loop.simps cli_session.simps)
  qed
qed simp

lemma depth_line:
  assumes "lob_inv (cli_book c)" and "length (lob_asks (cli_book c)) = length (lob_bids (cli_book c))"
  shows "lob_inv (cli_book (cli_loop f now c lines))
    \<and> length (lob_asks (cli_book (cli_loop f now c lines))) = length (lob_bids (cli_book (cli_loop f now c lines)))"
  using assms
proof (induction lines arbitrary: c)
  case (Cons line lines)
  have reset: "length (lob_asks (lob_reset (cli_book c))) = length (lob_bids (lob_reset (cli_book c)))"
    using Cons.prems(2) by (simp add: lob_reset_def)
  have order: "lob_inv (cli_book (cli_order f now c line))
    \<and> length (lob_asks (cli_book (cli_order f now c line))) = length (lob_bids (cli_book (cli_order f now c line)))"
    using Cons.prems processMessage_depth [OF Cons.prems(1)] processMessage_inv [OF Cons.prems(1)]
    by (auto simp: cli_order_def Let_def split: prod.split)
  show ?case using Cons.IH Cons.prems lob_inv_reset [OF Cons.prems(1)] reset order by simp
qed simp

lemma lines_of_line: "CHR 0x0A \<notin> set w \<Longrightarrow> lines_of [] (w @ nl @ rest) = w # lines_of [] rest"
  using lines_of_word [of w "[]" "nl @ rest"] by (simp add: nl_def)

lemma printable_one_line: "list_all printable w \<Longrightarrow> CHR 0x0A \<notin> set w"
  by (auto simp: list_all_iff printable_def)

text \<open>The notice of an order is one line.\<close>

lemma order_notice_line:
  assumes "parseUserLine f now line seq out = (True, msg)"
  shows "\<exists>w. order_notice ns msg = w @ nl \<and> CHR 0x0A \<notin> set w"
proof -
  let ?w = "''>>> Ingested '' @ [CHR 0x27] @ show_char (msgType msg) @ [CHR 0x27] @ '' Order #''
     @ show_u64 (add_orderId (wire_add msg)) @ '' | Wire-to-Book Latency: '' @ show_i64 ns @ '' ns''"
  have c: "list_all printable (show_char (msgType msg))"
    using typed_parsed [OF assms] by (auto simp: typed_def intro!: printable_letter)
  have n: "list_all printable (show_i64 ns)" by (simp add: show_i64_def printable_def)
  have "list_all printable ?w"
    unfolding list_all_append by (intro conjI printable_numbers c n; code_simp)
  then show ?thesis
    by (intro exI [of _ ?w] conjI printable_one_line) (simp add: order_notice_def)
qed

text \<open>A table behind at most one line of text.\<close>

lemma table_in_answer:
  assumes "length (lob_asks b) = length (lob_bids b)" and "\<forall>l \<in> set (lob_bids b) \<union> set (lob_asks b). level_fits l"
    and "intro = [] \<and> n = 7 \<or> (\<exists>w. intro = w @ nl \<and> CHR 0x0A \<notin> set w) \<and> n = 8"
  shows "map read_row (take (length (lob_bids b)) (drop n (lines_of [] (intro @ printBook sh b @ later))))
    = zip (map level_view (lob_bids b)) (map level_view (lob_asks b))"
proof -
  have "drop n (lines_of [] (intro @ printBook sh b @ later)) = drop 7 (lines_of [] (printBook sh b @ later))"
    using assms(3)
  proof
    assume "(\<exists>w. intro = w @ nl \<and> CHR 0x0A \<notin> set w) \<and> n = 8"
    then obtain w where w: "intro = w @ nl" "CHR 0x0A \<notin> set w" "n = Suc 7" by auto
    then show ?thesis using lines_of_line [OF w(2)] by simp
  qed simp
  then show ?thesis using printed_rows_then [of b sh later] assms(1) by (intro table_reads [OF assms(1,2)]) simp
qed

lemma process_timed_all:
  "\<exists>t. process_timed elapsed book ms = (processAll book ms, t) \<and> lt_samplesNs t = map elapsed [0..<length ms]"
proof -
  have "\<exists>t. foldl (\<lambda>(book, tracker) (i, msg). (processMessage book msg, recordNs (elapsed i) tracker))
      (b, t0) (enumerate k ms) = (processAll b ms, t) \<and> lt_samplesNs t = lt_samplesNs t0 @ map elapsed [k..<k + length ms]"
    for b t0 k
  proof (induction ms arbitrary: b t0 k)
    case (Cons m ms)
    have "[k..<k + length (m # ms)] = k # [Suc k..<Suc k + length ms]" by (simp add: upt_conv_Cons del: upt_Suc)
    with Cons.IH [of "processMessage b m" "recordNs (elapsed k) t0" "Suc k"]
    show ?case by (auto simp: recordNs_def simp del: upt_Suc)
  qed simp
  from this [of book LatencyTracker_new 0] show ?thesis by (simp add: process_timed_def LatencyTracker_new_def)
qed

text \<open>Computing percentiles only reorders the samples.\<close>

lemma percentile_samples: "mset (lt_samplesNs (snd (percentile p t))) = mset (lt_samplesNs t)"
  by (simp add: percentile_def Let_def)

lemma same_samples:
  assumes "mset (lt_samplesNs t) = mset (lt_samplesNs t')"
  shows "minNs t = minNs t'" "maxNs t = maxNs t'" "lt_count t = lt_count t'"
proof -
  have "set (lt_samplesNs t) = set (lt_samplesNs t')" "length (lt_samplesNs t) = length (lt_samplesNs t')"
    using assms by (auto dest: mset_eq_setD mset_eq_length)
  then show "minNs t = minNs t'" "maxNs t = maxNs t'" "lt_count t = lt_count t'"
    by (auto simp: minNs_def maxNs_def lt_count_def)
qed

lemma summary_numbers:
  assumes "lt_samplesNs t \<noteq> []"
  shows "\<exists>nums t'. printSummary totalWallMs t = (Some nums, t') \<and> nums ! 0 = real (lt_count t)
    \<and> nums ! 3 = minNs t \<and> last nums = maxNs t"
proof -
  define t1 t2 t3 t4 t5 t6 where "t1 = snd (percentile 50 t)" and "t2 = snd (percentile 90 t1)"
    and "t3 = snd (percentile 95 t2)" and "t4 = snd (percentile 99 t3)" and "t5 = snd (percentile 99.9 t4)"
    and "t6 = snd (percentile 99.99 t5)"
  have "mset (lt_samplesNs t6) = mset (lt_samplesNs t)"
    unfolding t6_def t5_def t4_def t3_def t2_def t1_def by (simp only: percentile_samples)
  note same = same_samples [OF this]
  have "\<exists>ps. length ps = 6 \<and> printSummary totalWallMs t = (Some ([real (lt_count t6), totalWallMs,
      real (lt_count t6) / (totalWallMs / 1000), minNs t6, meanNs t6, stddevNs t6] @ ps @ [maxNs t6]), t6)"
    using assms unfolding printSummary_def t6_def t5_def t4_def t3_def t2_def t1_def
    by (simp split: prod.split)
  then show ?thesis using same by fastforce
qed

lemma due_ns: "(now - lastPrint) div 1000000 \<ge> (1000 :: int) \<longleftrightarrow> lastPrint + 10 ^ 9 \<le> now"
proof -
  have "1000 \<le> d div 1000000 \<longleftrightarrow> 1000000000 \<le> d" for d :: int
    using div_int_pos_iff zdiv_mono1 [of "1000000000" d "1000000"] div_mult_mod_eq [of d 1000000]
      pos_mod_sign [of 1000000 d] by (auto simp: algebra_simps)
  moreover have "1000000000 \<le> now - lastPrint \<longleftrightarrow> lastPrint + 10 ^ 9 \<le> now" by auto
  ultimately show ?thesis by blast
qed

text \<open>The answer to one line in state \<open>c1\<close>, with the book after it.\<close>

lemma answer_table:
  assumes "b = cli_book (cli_loop f now c1 [line])" and "\<not> cli_quit line"
    and "length (lob_asks b) = length (lob_bids b)" and "\<forall>l \<in> set (lob_bids b) \<union> set (lob_asks b). level_fits l"
  shows "case table_at f now c1 line of
      Some n \<Rightarrow> map read_row (take (length (lob_bids b)) (drop n (lines_of []
          ((if line = [] then [] else fst (cli_answer f now elapsed show_fixed2 c1 line)) @ prompt))))
        = zip (map level_view (lob_bids b)) (map level_view (lob_asks b))
    | None \<Rightarrow> b = cli_book c1"
proof (cases "line = [] \<or> cli_reset line \<or> cli_show line")
  case True
  have "\<exists>w. reset_notice = w @ nl \<and> CHR 0x0A \<notin> set w"
    by (intro exI [of _ "''[Engine] Limit Order Book reset.''"]) (simp add: reset_notice_def)
  with table_in_answer [OF assms(3,4), of reset_notice 8 show_fixed2 prompt]
    table_in_answer [OF assms(3,4), of "[]" 7 show_fixed2 prompt] True assms(2)
  show ?thesis by (auto simp: table_at_def cli_answer_def Let_def assms(1))
next
  case False
  obtain ok msg where p: "parseUserLine f (now (cli_calls c1)) line (cli_seqNo c1) WireMessage_zero = (ok, msg)"
    by (metis prod.exhaust)
  have bo: "b = cli_book (cli_order f now c1 line)" using False assms(2) by (simp add: assms(1))
  show ?thesis
  proof (cases ok)
    case True
    then have "\<exists>w. order_notice (elapsed (cli_calls c1)) msg = w @ nl \<and> CHR 0x0A \<notin> set w"
      using order_notice_line p by simp
    with table_in_answer [OF assms(3,4), of "order_notice (elapsed (cli_calls c1)) msg" 8 show_fixed2 prompt] False p True
    show ?thesis by (simp add: table_at_def cli_answer_def Let_def flip: bo)
  next
    case ko: False
    have "cli_book (cli_order f now c1 line) = cli_book c1" using p ko by (simp add: cli_order_def Let_def)
    then show ?thesis using False p ko by (simp add: table_at_def bo)
  qed
qed

section \<open>Properties\<close>



text \<open>The report of the file mode. When the file has an order that parses, the report counts the parsed
  messages and its summary counts as many samples, its extreme latencies are those measured for them,
  and its table is the book that the mode computes.\<close>

theorem file_report_sound:
  assumes "parse_lines f now 0 1 lines \<noteq> []"
  shows "\<exists>nums. runUserFile_report f now elapsed totalWallMs show_fixed2 book filePath (Some lines)
      = Report (length (parse_lines f now 0 1 lines)) (Some nums) (printBook show_fixed2 (runUserFile f now book (Some lines)))
    \<and> nums ! 0 = real (length (parse_lines f now 0 1 lines))
    \<and> nums ! 3 = real_of_int (Min (elapsed ` {..<length (parse_lines f now 0 1 lines)}))
    \<and> last nums = real_of_int (Max (elapsed ` {..<length (parse_lines f now 0 1 lines)}))"
proof -
  let ?ms = "parse_lines f now 0 1 lines" and ?n = "length (parse_lines f now 0 1 lines)"
  obtain t where run: "process_timed elapsed (lob_reset book) ?ms = (processAll (lob_reset book) ?ms, t)"
    and samples: "lt_samplesNs t = map elapsed [0..<?n]"
    using process_timed_all by metis
  obtain nums t' where sum: "printSummary totalWallMs t = (Some nums, t')" "nums ! 0 = real (lt_count t)"
    "nums ! 3 = minNs t" "last nums = maxNs t" using summary_numbers [of t totalWallMs] samples assms by auto
  have "elapsed ` {..<?n} = set (lt_samplesNs t)" "lt_samplesNs t \<noteq> []" using samples assms by auto
  then show ?thesis
    using assms sum run samples
    by (simp add: runUserFile_report_def runUserFile_def minNs_def maxNs_def lt_count_def Let_def)
qed

text \<open>The live reports are at least a second apart, and none is made before a packet was processed.\<close>

theorem live_reports_spaced:
  "sorted_wrt (\<lambda>a b. a + 10 ^ 9 \<le> b) (lastPrint # map fst (live_reports show_fixed2 lastPrint turns))
    \<and> set (live_reports show_fixed2 lastPrint turns)
        \<subseteq> {(now, printBook show_fixed2 b @ stats_line b) | now count b. (now, count, b) \<in> set turns \<and> count > 0}"
proof (induction turns arbitrary: lastPrint)
  case (Cons turn turns)
  obtain now n b where turn: "turn = (now, n, b)" by (metis prod.exhaust)
  note due = due_ns [of now lastPrint]
  let ?now = "(if n > 0 then [(now, printBook show_fixed2 b @ stats_line b)] else [])"
  let ?from = "\<lambda>ts. {(now, printBook show_fixed2 b @ stats_line b) | now count b. (now, count, b) \<in> set ts \<and> count > 0}"
  have from_Cons: "?from turns \<subseteq> ?from (turn # turns)" "set ?now \<subseteq> ?from (turn # turns)"
    by (auto simp: turn)
  show ?case
  proof (cases "lastPrint + 10 ^ 9 \<le> now")
    case True
    have out: "live_reports show_fixed2 lastPrint (turn # turns) = ?now @ live_reports show_fixed2 now turns"
      using True by (simp add: turn live_report_def due)
    have "sorted_wrt (\<lambda>a b. a + 10 ^ 9 \<le> b) (lastPrint # map fst (live_reports show_fixed2 now turns))"
      using Cons.IH [of now] True by auto
    then have "sorted_wrt (\<lambda>a b. a + 10 ^ 9 \<le> b) (lastPrint # map fst (?now @ live_reports show_fixed2 now turns))"
      using Cons.IH [of now] True by auto
    then show ?thesis using Cons.IH [of now] from_Cons unfolding out set_append by blast
  next
    case False
    then have out: "live_reports show_fixed2 lastPrint (turn # turns) = live_reports show_fixed2 lastPrint turns"
      by (simp add: turn live_report_def due)
    show ?thesis using Cons.IH [of lastPrint] from_Cons(1) unfolding out by blast
  qed
qed simp

end
