(* ===== verification/Affinity.thy ===== *)
theory Affinity
  imports Prelude
begin

text \<open>
  \<open>ThreadAffinity\<close> of \<open>include/feed_handler/cpu_affinity.hpp\<close>. The system calls are parameters; the functions
  differ between the platforms in the set of cores they ask for. The engine calls them with cores 0
  and 1 and ignores the result.
\<close>

unbundle bit_operations_syntax

text \<open>Windows: \<open>setAffinityMask\<close> gives the previous mask, or 0 on failure.\<close>

definition win_mask :: "u32 \<Rightarrow> u64" where
  "win_mask coreId = push_bit (unat (coreId mod 64)) 1"

definition pinCurrentThread_win :: "(u64 \<Rightarrow> u64) \<Rightarrow> u32 \<Rightarrow> bool" where
  "pinCurrentThread_win setAffinityMask coreId = (setAffinityMask (win_mask coreId) \<noteq> 0)"

text \<open>Elsewhere: \<open>CPU_SET\<close> ignores a core beyond the 1024 of a \<open>cpu_set_t\<close>.\<close>

definition cpu_set :: "u32 \<Rightarrow> nat set" where
  "cpu_set coreId = (if unat coreId < 1024 then {unat coreId} else {})"

definition pinCurrentThread :: "(nat set \<Rightarrow> int) \<Rightarrow> u32 \<Rightarrow> bool" where
  "pinCurrentThread setaffinity coreId = (setaffinity (cpu_set coreId) = 0)"

definition setHighestPriority :: "int \<Rightarrow> (int \<Rightarrow> int) \<Rightarrow> bool" where
  "setHighestPriority fifo_max setschedparam = (setschedparam fifo_max = 0)"

definition setHighestPriority_win :: "int \<Rightarrow> bool" where      \<comment> \<open>result of \<open>SetThreadPriority\<close>\<close>
  "setHighestPriority_win result = (result \<noteq> 0)"

lemma win_mask_cores: "{n. bit (win_mask coreId) n} = {unat coreId mod 64}"
proof -
  have "unat (coreId mod 64) = unat coreId mod 64" by (simp add: unat_mod_distrib)
  then show ?thesis by (auto simp: win_mask_def bit_simps)
qed

text \<open>Both ask for exactly the given core when it is below 64; above, Windows asks for another one.\<close>

lemma pinning_platforms_agree:
  "cpu_set coreId = {n. bit (win_mask coreId) n} \<longleftrightarrow> unat coreId < 64"
proof -
  have "unat coreId mod 64 = unat coreId \<longleftrightarrow> unat coreId < 64"
    by (metis mod_less mod_less_divisor zero_less_numeral)
  then show ?thesis unfolding win_mask_cores by (auto simp: cpu_set_def)
qed

end
