(* ===== verification/UnitTests.thy ===== *)
theory UnitTests
  imports BookConsistency Exporter Snapshot
begin

text \<open>
  The repository's own tests, \<open>tests/*.cpp\<close>, as predicates over the model, and the proofs that they
  hold. The scenario tests are evaluated; the randomised ones (\<open>testOrderBookInvariantsPropertyTest\<close>, the
  parser fuzzing, the two-thread stress test) and the large ones follow from the lemmas of the
  components, for every input and every number of rounds. \<open>assert\<close> is conjunction.
\<close>

section \<open>\<open>test_order_book.cpp\<close>\<close>

definition test_add :: "u64 \<Rightarrow> u64 \<Rightarrow> u64 \<Rightarrow> byte \<Rightarrow> i32 \<Rightarrow> i32 \<Rightarrow> AddOrderMsg" where
  "test_add s t k sd px q = \<lparr>add_msgType = chA, add_seqNo = s, add_timestampNs = t, add_orderId = k,
     add_side = sd, add_price = px, add_quantity = q\<rparr>"

definition testBasicAddAndBBO :: bool where
  "testBasicAddAndBBO =
     (let book1 = processAdd (LimitOrderBook_new 5 1024) (test_add 1 1000 101 chB 10000 50);
          book2 = processAdd book1 (test_add 2 1001 102 chS 10005 30)
      in hasBids book1 \<and> \<not> hasAsks book1 \<and> bestBidPrice book1 = 10000 \<and> bestBidQuantity book1 = 50
         \<and> hasAsks book2 \<and> bestAskPrice book2 = 10005 \<and> bestAskQuantity book2 = 30
         \<and> spread book2 = 5 \<and> midPrice book2 = 10002.5)"

definition testLevelAggregation :: bool where
  "testLevelAggregation =
     (let book = processAdd (LimitOrderBook_new 5 1024) (test_add 1 1000 101 chB 10000 20);
          book = processAdd book (test_add 2 1001 102 chB 10000 30);
          best = lob_bids book ! 0
      in lvl_active best \<and> lvl_price best = 10000 \<and> lvl_quantity best = 50 \<and> lvl_orderCount best = 2
         \<and> \<not> lvl_active (lob_bids book ! 1))"

definition testCancelAndModify :: bool where
  "testCancelAndModify =
     (let book = processAdd (LimitOrderBook_new 5 1024) (test_add 1 1000 101 chB 10000 50);
          book1 = processCancel book \<lparr>cancel_msgType = chX, cancel_seqNo = 2, cancel_timestampNs = 1001,
             cancel_orderId = 101, cancel_quantity = 20\<rparr>;
          book2 = processCancel book1 \<lparr>cancel_msgType = chX, cancel_seqNo = 3, cancel_timestampNs = 1002,
             cancel_orderId = 101, cancel_quantity = 0\<rparr>
      in bestBidQuantity book1 = 20 \<and> \<not> hasBids book2 \<and> lvl_quantity (lob_bids book2 ! 0) = 0)"

definition testExecutionFill :: bool where
  "testExecutionFill =
     (let book = processAdd (LimitOrderBook_new 5 1024) (test_add 1 1000 101 chS 10010 100);
          book1 = processExecute book \<lparr>exec_msgType = chE, exec_seqNo = 2, exec_timestampNs = 1001,
             exec_orderId = 101, exec_execQuantity = 40, exec_matchPrice = 10010\<rparr>;
          book2 = processExecute book1 \<lparr>exec_msgType = chE, exec_seqNo = 3, exec_timestampNs = 1002,
             exec_orderId = 101, exec_execQuantity = 60, exec_matchPrice = 10010\<rparr>
      in bestAskQuantity book1 = 60 \<and> lob_tradesExecutedCount book1 = 1
         \<and> \<not> hasAsks book2 \<and> lob_tradesExecutedCount book2 = 2)"

definition testDepthSortingAndEviction :: bool where
  "testDepthSortingAndEviction =
     (let book = foldl processAdd (LimitOrderBook_new 3 1024)
            [test_add 1 100 1 chB 9900 10, test_add 2 101 2 chB 10000 20,
             test_add 3 102 3 chB 9950 30, test_add 4 103 4 chB 9800 40];
          bids = lob_bids book
      in lvl_price (bids ! 0) = 10000 \<and> lvl_quantity (bids ! 0) = 20
         \<and> lvl_price (bids ! 1) = 9950 \<and> lvl_quantity (bids ! 1) = 30
         \<and> lvl_price (bids ! 2) = 9900 \<and> lvl_quantity (bids ! 2) = 10)"

text \<open>The state of a scenario: the live orders and the two ladders; \<open>n\<close> slots of the table at most have
  been used.\<close>

definition scenario ::
  "nat \<Rightarrow> (u64 \<Rightarrow> resting option) \<Rightarrow> PriceLevel list \<Rightarrow> PriceLevel list \<Rightarrow> LimitOrderBook \<Rightarrow> bool" where
  "scenario n M bids asks b \<longleftrightarrow> lob_inv b \<and> unat (ot_occupiedCount (lob_orderTable b)) \<le> n
     \<and> table_capacity (lob_orderTable b) = 1024 \<and> live_orders b = M \<and> lob_bids b = bids \<and> lob_asks b = asks"

lemma unat_inc_le: "unat (x + 1 :: u64) \<le> Suc (unat x)"
  using mod_less_eq_dividend [of "Suc (unat x)" "2 ^ 64"] by (simp add: unat_word_ariths)

text \<open>An insertion takes at most one more slot.\<close>

lemma insert_occupies:
  assumes "table_inv t" and "table_insert t k sd px q ts = (t', r)"
  shows "ot_occupiedCount t' \<in> {ot_occupiedCount t, ot_occupiedCount t + 1}"
    and "table_capacity t' = table_capacity t"
  using insert_from_cases [OF assms(2) [unfolded table_insert_def] table_invD(1) [OF assms(1)]]
  by (auto simp: slot_claim_def slot_overwrite_def split: option.splits if_splits)

lemma insert_again:
  assumes "table_inv t" and "table_lookup t k = Some p" and "table_insert t k sd px q ts = (t', r)"
  shows "r = Some p"
  using insert_from_cases [OF assms(3) [unfolded table_insert_def] table_invD(1) [OF assms(1)]] assms(2)
  by (auto simp: table_lookup_def split: option.splits if_splits)

lemma insert_succeeds:
  assumes "table_inv t" and "unat (ot_occupiedCount t) < table_capacity t"
    and "table_insert t k sd px q ts = (t', r)"
  shows "\<exists>p. r = Some p"
proof (cases r)
  case None
  then have "ot_occupiedCount t = of_nat (table_capacity t)"
    using table_insert_saturated [OF assms(1,3)] by simp
  moreover have "table_capacity t < 2 ^ 64" using table_invD(1) [OF assms(1)] by (simp add: cap_ok_def)
  ultimately show ?thesis using assms(2) by (auto simp: unat_u64)
qed simp


lemma processAdd_room:
  assumes inv: "lob_inv b"
    and room: "unat (ot_occupiedCount (lob_orderTable b)) < table_capacity (lob_orderTable b)"
  shows "lob_bids (processAdd b a) = (if add_side a = chB
      then applyDelta (lob_bids b) (add_price a) (add_quantity a) 1 False else lob_bids b)"
    and "lob_asks (processAdd b a) = (if add_side a = chB then lob_asks b
      else applyDelta (lob_asks b) (add_price a) (add_quantity a) 1 True)"
    and "table_capacity (lob_orderTable (processAdd b a)) = table_capacity (lob_orderTable b)"
    and "unat (ot_occupiedCount (lob_orderTable (processAdd b a))) \<le> Suc (unat (ot_occupiedCount (lob_orderTable b)))"
    and "live_orders (processAdd b a) = spec_add (live_orders b) a"
proof -
  have t: "table_inv (lob_orderTable b)" using inv by (simp add: lob_inv_def)
  obtain t' r where ins: "table_insert (lob_orderTable b) (add_orderId a) (add_side a) (add_price a)
      (add_quantity a) (add_timestampNs a) = (t', r)" by fastforce
  then obtain p where p: "r = Some p" using insert_succeeds [OF t room] by blast
  note occ = insert_occupies [OF t ins] unat_inc_le [of "ot_occupiedCount (lob_orderTable b)"]
  show "lob_bids (processAdd b a) = (if add_side a = chB
      then applyDelta (lob_bids b) (add_price a) (add_quantity a) 1 False else lob_bids b)"
    "lob_asks (processAdd b a) = (if add_side a = chB then lob_asks b
      else applyDelta (lob_asks b) (add_price a) (add_quantity a) 1 True)"
    "table_capacity (lob_orderTable (processAdd b a)) = table_capacity (lob_orderTable b)"
    "unat (ot_occupiedCount (lob_orderTable (processAdd b a))) \<le> Suc (unat (ot_occupiedCount (lob_orderTable b)))"
    using ins p occ by (auto simp: processAdd_def apply_side_def)
  have "\<not> (table_view (lob_orderTable b) (add_orderId a) = None
      \<and> ot_occupiedCount (lob_orderTable b) = of_nat (table_capacity (lob_orderTable b)))"
    using table_insert_saturated [OF t ins] p by simp
  then show "live_orders (processAdd b a) = spec_add (live_orders b) a"
    unfolding processAdd_refines(2) [OF inv, of a] by (rule if_not_P)
qed

lemma scenario_new:
  assumes "0 < Depth"
  shows "scenario 0 Map.empty (replicate Depth PriceLevel_zero) (replicate Depth PriceLevel_zero) (LimitOrderBook_new Depth 1024)"
proof -
  have "cap_ok 1024" by (simp add: cap_ok_def)
  then show ?thesis using assms lob_inv_new [of Depth 1024] live_orders_new [of 1024 Depth]
    by (simp add: scenario_def) (simp add: LimitOrderBook_new_def lob_reset_def OrderTable_new_def table_clear_def)
qed

lemma scenario_add:
  assumes "scenario n M bids asks b" and "n < 1024"
  shows "scenario (Suc n) (spec_add M a)
    (if add_side a = chB then applyDelta bids (add_price a) (add_quantity a) 1 False else bids)
    (if add_side a = chB then asks else applyDelta asks (add_price a) (add_quantity a) 1 True) (processAdd b a)"
proof -
  have b: "lob_inv b" "unat (ot_occupiedCount (lob_orderTable b)) < table_capacity (lob_orderTable b)"
    using assms by (simp_all add: scenario_def)
  show ?thesis using processAdd_room [OF b, of a] processAdd_refines(1) [OF b(1), of a] assms(1)
    by (auto simp: scenario_def)
qed

lemma set_remaining_table [simp]:
  "table_capacity (lob_orderTable (set_remaining b p q d)) = table_capacity (lob_orderTable b)"
  "ot_occupiedCount (lob_orderTable (set_remaining b p q d)) = ot_occupiedCount (lob_orderTable b)"
  by (simp_all add: set_remaining_def table_write_def Let_def)

lemma scenario_cancel:
  assumes "scenario n M bids asks b" and "M (cancel_orderId c) = Some (sd, px, q)"
  shows "scenario n (spec_reduce M (cancel_orderId c) (\<lambda>q. cancel_quantity c) (\<lambda>q. q <=s 0))
    (if sd = chB then applyDelta bids px (cancel_quantity c - q) (if cancel_quantity c <=s 0 then - 1 else 0) False else bids)
    (if sd = chB then asks else applyDelta asks px (cancel_quantity c - q) (if cancel_quantity c <=s 0 then - 1 else 0) True)
    (processCancel b c)"
proof -
  have b: "lob_inv b" "live_orders b (cancel_orderId c) = Some (sd, px, q)"
    using assms by (simp_all add: scenario_def)
  show ?thesis using processCancel_live [OF b(2)] processCancel_refines [OF b(1), of c] assms(1)
    by (auto simp: scenario_def frame_simps) (simp_all add: apply_side_def)
qed

lemma scenario_execute:
  assumes "scenario n M bids asks b" and "M (exec_orderId e) = Some (sd, px, q)"
  shows "scenario n (spec_reduce M (exec_orderId e) (exec_left (exec_execQuantity e)) (\<lambda>q. q = 0))
    (if sd = chB then applyDelta bids px (- exec_execQuantity e) (if exec_left (exec_execQuantity e) q = 0 then - 1 else 0) False
     else bids)
    (if sd = chB then asks
     else applyDelta asks px (- exec_execQuantity e) (if exec_left (exec_execQuantity e) q = 0 then - 1 else 0) True)
    (processExecute b e)"
proof -
  have b: "lob_inv b" "live_orders b (exec_orderId e) = Some (sd, px, q)"
    using assms by (simp_all add: scenario_def)
  show ?thesis using processExecute_live [OF b(2)] processExecute_refines [OF b(1), of e] assms(1)
    by (auto simp: scenario_def frame_simps) (simp_all add: apply_side_def)
qed

lemma scenario_front:
  assumes "scenario n M bids asks b"
  shows "hasBids b = lvl_active (bids ! 0)" "hasAsks b = lvl_active (asks ! 0)"
    "bestBidPrice b = (if lvl_active (bids ! 0) then lvl_price (bids ! 0) else 0)"
    "bestAskPrice b = (if lvl_active (asks ! 0) then lvl_price (asks ! 0) else 0)"
    "bestBidQuantity b = (if lvl_active (bids ! 0) then lvl_quantity (bids ! 0) else 0)"
    "bestAskQuantity b = (if lvl_active (asks ! 0) then lvl_quantity (asks ! 0) else 0)"
    "lob_bids b = bids" "lob_asks b = asks"
  using assms by (simp_all add: scenario_def hasBids_def hasAsks_def bestBidPrice_def bestAskPrice_def
      bestBidQuantity_def bestAskQuantity_def)

abbreviation empty_side :: "nat \<Rightarrow> PriceLevel list" where
  "empty_side n \<equiv> replicate n PriceLevel_zero"

abbreviation lvl :: "i32 \<Rightarrow> i32 \<Rightarrow> i32 \<Rightarrow> PriceLevel" where
  "lvl px q c \<equiv> \<lparr>lvl_price = px, lvl_quantity = q, lvl_orderCount = c, lvl_active = True\<rparr>"

lemma basic_add_passes: "testBasicAddAndBBO"
proof -
  let ?a1 = "test_add 1 1000 101 chB 10000 50" and ?a2 = "test_add 2 1001 102 chS 10005 30"
  note s1 = scenario_add [OF scenario_new [of 5], of ?a1]
  note s2 = scenario_add [OF s1, of ?a2]
  have "applyDelta (empty_side 5) 10000 50 1 False = lvl 10000 50 1 # empty_side 4"
    "applyDelta (empty_side 5) 10005 30 1 True = lvl 10005 30 1 # empty_side 4"
    by code_simp+
  then show ?thesis using scenario_front [OF s1] scenario_front [OF s2]
    by (simp add: testBasicAddAndBBO_def test_add_def spread_def midPrice_def PriceLevel_zero_def)
qed

lemma level_aggregation_passes: "testLevelAggregation"
proof -
  let ?a1 = "test_add 1 1000 101 chB 10000 20" and ?a2 = "test_add 2 1001 102 chB 10000 30"
  note s2 = scenario_add [OF scenario_add [OF scenario_new [of 5], of ?a1], of ?a2]
  have "applyDelta (applyDelta (empty_side 5) 10000 20 1 False) 10000 30 1 False = lvl 10000 50 2 # empty_side 4"
    by code_simp
  then show ?thesis using scenario_front(7) [OF s2]
    by (simp add: testLevelAggregation_def test_add_def PriceLevel_zero_def)
qed

lemma eviction_passes: "testDepthSortingAndEviction"
proof -
  let ?a = "[test_add 1 100 1 chB 9900 10, test_add 2 101 2 chB 10000 20, test_add 3 102 3 chB 9950 30,
    test_add 4 103 4 chB 9800 40]"
  note s = scenario_add [OF scenario_add [OF scenario_add [OF scenario_add [OF scenario_new [of 3],
    of "?a ! 0"], of "?a ! 1"], of "?a ! 2"], of "?a ! 3"]
  have "applyDelta (applyDelta (applyDelta (applyDelta (empty_side 3) 9900 10 1 False) 10000 20 1 False)
      9950 30 1 False) 9800 40 1 False = [lvl 10000 20 1, lvl 9950 30 1, lvl 9900 10 1]"
    by code_simp
  then show ?thesis using scenario_front(7) [OF s]
    by (simp add: testDepthSortingAndEviction_def test_add_def)
qed

lemma cancel_and_modify_passes: "testCancelAndModify"
proof -
  let ?a = "test_add 1 1000 101 chB 10000 50"
  let ?c1 = "\<lparr>cancel_msgType = chX, cancel_seqNo = 2, cancel_timestampNs = 1001, cancel_orderId = 101, cancel_quantity = 20\<rparr>"
  let ?c2 = "\<lparr>cancel_msgType = chX, cancel_seqNo = 3, cancel_timestampNs = 1002, cancel_orderId = 101, cancel_quantity = 0\<rparr>"
  note s0 = scenario_add [OF scenario_new [of 5], of ?a]
  note s1 = scenario_cancel [OF s0, of ?c1 chB 10000 50]
  note s2 = scenario_cancel [OF s1, of ?c2 chB 10000 20]
  have "applyDelta (applyDelta (empty_side 5) 10000 50 1 False) 10000 (20 - 50) 0 False = lvl 10000 20 1 # empty_side 4"
    "applyDelta (lvl 10000 20 1 # empty_side 4) 10000 (0 - 20) (- 1) False = empty_side 5"
    by code_simp+
  then show ?thesis using scenario_front [OF s1] scenario_front [OF s2]
    by (simp add: testCancelAndModify_def test_add_def spec_add_def spec_reduce_def sle_iff PriceLevel_zero_def)
qed

lemma execution_fill_passes: "testExecutionFill"
proof -
  let ?a = "test_add 1 1000 101 chS 10010 100"
  let ?e1 = "\<lparr>exec_msgType = chE, exec_seqNo = 2, exec_timestampNs = 1001, exec_orderId = 101,
    exec_execQuantity = 40, exec_matchPrice = 10010\<rparr>"
  let ?e2 = "\<lparr>exec_msgType = chE, exec_seqNo = 3, exec_timestampNs = 1002, exec_orderId = 101,
    exec_execQuantity = 60, exec_matchPrice = 10010\<rparr>"
  note s0 = scenario_add [OF scenario_new [of 5], of ?a]
  note s1 = scenario_execute [OF s0, of ?e1 chS 10010 100]
  note s2 = scenario_execute [OF s1, of ?e2 chS 10010 60]
  have "applyDelta (applyDelta (empty_side 5) 10010 100 1 True) 10010 (- 40) 0 True = lvl 10010 60 1 # empty_side 4"
    "applyDelta (lvl 10010 60 1 # empty_side 4) 10010 (- 60) (- 1) True = empty_side 5"
    by code_simp+
  then show ?thesis using scenario_front [OF s1] scenario_front [OF s2]
    by (simp add: testExecutionFill_def test_add_def spec_add_def spec_reduce_def exec_left_def sless_iff
        PriceLevel_zero_def frame_simps)
      (simp add: LimitOrderBook_new_def lob_reset_def)
qed

text \<open>The property test: the assertions after each of 50000 messages. The product \<open>0.5 * (bid + ask)\<close> of the
  test is taken without overflow of the sum.\<close>

definition side_asserts :: "(i32 \<Rightarrow> i32 \<Rightarrow> bool) \<Rightarrow> PriceLevel list \<Rightarrow> bool" where
  "side_asserts before ls \<longleftrightarrow> list_all (\<lambda>i. lvl_active (ls ! i) \<and> lvl_active (ls ! (i + 1)) \<longrightarrow>
     before (lvl_price (ls ! i)) (lvl_price (ls ! (i + 1)))
     \<and> 0 <s lvl_quantity (ls ! i) \<and> 0 <s lvl_orderCount (ls ! i)) [0..<length ls - 1]"

definition assertInvariants :: "LimitOrderBook \<Rightarrow> bool" where
  "assertInvariants b \<longleftrightarrow> side_asserts (\<lambda>p q. q <s p) (lob_bids b) \<and> side_asserts (\<lambda>p q. p <s q) (lob_asks b)
     \<and> (hasBids b \<and> hasAsks b \<longrightarrow> spread b = bestAskPrice b - bestBidPrice b
         \<and> midPrice b = 0.5 * of_int (sint (bestBidPrice b) + sint (bestAskPrice b)))"

definition property_msg :: "u64 \<Rightarrow> u64 \<Rightarrow> WireMessage \<times> u64" where
  "property_msg i nextId =
     (if i mod 3 = 0 then
        (set_add WireMessage_zero (test_add i (i * 10) nextId chB (9900 + ucast (i mod 50)) (10 + ucast (i mod 100))),
         nextId + 1)
      else if i mod 3 = 1 then
        (set_add WireMessage_zero (test_add i (i * 10) nextId chS (10000 + ucast (i mod 50)) (10 + ucast (i mod 100))),
         nextId + 1)
      else
        (set_cancel WireMessage_zero \<lparr>cancel_msgType = chX, cancel_seqNo = i, cancel_timestampNs = i * 10,
           cancel_orderId = (if nextId > 1020 then nextId - 10 else 1000), cancel_quantity = 0\<rparr>, nextId))"

fun property_rounds :: "nat \<Rightarrow> u64 \<Rightarrow> u64 \<Rightarrow> LimitOrderBook \<Rightarrow> bool" where
  "property_rounds 0 i nextId book = True"
| "property_rounds (Suc n) i nextId book =
     (case property_msg i nextId of (msg, nextId) \<Rightarrow>
        let book = processMessage book msg
        in assertInvariants book \<and> property_rounds n (i + 1) nextId book)"

definition testOrderBookInvariantsPropertyTest :: bool where
  "testOrderBookInvariantsPropertyTest = property_rounds 50000 1 1000 (LimitOrderBook_new 5 4096)"

lemma invariants_asserted: "lob_inv b \<Longrightarrow> assertInvariants b"
  using lob_inv_slots [of b]
  by (auto simp: assertInvariants_def side_asserts_def list_all_iff spread_def bestBidPrice_def bestAskPrice_def
      midPrice_def hasBids_def hasAsks_def)

lemma property_rounds_pass: "lob_inv book \<Longrightarrow> property_rounds n i nextId book"
  by (induction n i nextId book rule: property_rounds.induct)
    (auto simp: Let_def invariants_asserted processMessage_inv split: prod.split)

lemma invariants_property_passes: "testOrderBookInvariantsPropertyTest"
  unfolding testOrderBookInvariantsPropertyTest_def
  by (intro property_rounds_pass lob_inv_new) (simp_all add: cap_ok_def)

section \<open>\<open>test_order_table.cpp\<close>\<close>

fun insert_rounds :: "nat \<Rightarrow> nat \<Rightarrow> OrderTable \<Rightarrow> OrderTable \<times> bool" where
  "insert_rounds i 0 t = (t, True)"
| "insert_rounds i (Suc n) t =
     (case table_insert t (of_nat i * 1024 + 7) chS (of_nat i) 100 0 of
        (t, None) \<Rightarrow> (t, False)
      | (t, Some rec) \<Rightarrow> insert_rounds (i + 1) n t)"

definition lookup_asserts :: "OrderTable \<Rightarrow> nat \<Rightarrow> bool" where
  "lookup_asserts t i = (case table_lookup t (of_nat i * 1024 + 7) of
      None \<Rightarrow> False
    | Some rec \<Rightarrow> rec_side (table_read t rec) = chS \<and> rec_price (table_read t rec) = of_nat i)"

definition testTableOperations :: bool where
  "testTableOperations =
     (case table_insert (OrderTable_new 1024) 1001 chB 5000 10 12345 of
        (t, None) \<Rightarrow> False
      | (t, Some r1) \<Rightarrow>
          rec_orderId (table_read t r1) = 1001 \<and> rec_price (table_read t r1) = 5000
          \<and> rec_quantity (table_read t r1) = 10 \<and> rec_occupied (table_read t r1)
          \<and> table_lookup t 1001 = Some r1 \<and> table_lookup t 9999 = None
          \<and> (case table_insert t 1001 chB 5000 25 12399 of (t, r1_updated) \<Rightarrow>
               r1_updated = Some r1 \<and> rec_quantity (table_read t r1) = 25
               \<and> (case insert_rounds 1 500 t of (t, ok) \<Rightarrow> ok \<and> list_all (lookup_asserts t) [1..<501])))"

abbreviation test_id :: "nat \<Rightarrow> u64" where
  "test_id i \<equiv> of_nat i * 1024 + 7"

lemma test_id_inj:
  assumes "i \<le> 501" "j \<le> 501" and "test_id i = test_id j"
  shows "i = j"
proof -
  have id: "unat (of_nat (n * 1024 + 7) :: u64) = n * 1024 + 7" if "n \<le> 501" for n
    by (rule unat_u64) (use that in simp)
  have eq: "test_id n = of_nat (n * 1024 + 7)" for n by simp
  from assms(3) have "unat (of_nat (i * 1024 + 7) :: u64) = unat (of_nat (j * 1024 + 7) :: u64)"
    by (simp only: eq)
  then have "i * 1024 + 7 = j * 1024 + 7" by (simp only: id [OF assms(1)] id [OF assms(2)])
  then show ?thesis by simp
qed

lemma lookup_asserts_view:
  "lookup_asserts t i \<longleftrightarrow> (\<exists>r. table_view t (test_id i) = Some r \<and> rec_side r = chS \<and> rec_price r = of_nat i)"
  by (auto simp: lookup_asserts_def store_view_def split: option.splits)

lemma insert_rounds_pass:
  "table_inv t \<Longrightarrow> unat (ot_occupiedCount t) + n < table_capacity t \<Longrightarrow> i + n \<le> 501 \<Longrightarrow>
   \<exists>t'. insert_rounds i n t = (t', True) \<and> (\<forall>j. i \<le> j \<and> j < i + n \<longrightarrow> lookup_asserts t' j)
     \<and> (\<forall>k. (\<forall>j. i \<le> j \<and> j < i + n \<longrightarrow> k \<noteq> test_id j) \<longrightarrow> table_view t' k = table_view t k)"
proof (induction n arbitrary: i t)
  case (Suc n)
  obtain t1 r where ins: "table_insert t (test_id i) chS (of_nat i) 100 0 = (t1, r)" by fastforce
  then obtain p where p: "r = Some p" using insert_succeeds [OF Suc.prems(1) _ ins] Suc.prems(2) by auto
  note ins' = ins [unfolded p]
  have inv: "table_inv t1" by (rule tbl.ins_inv [OF Suc.prems(1) ins'])
  note view = tbl.ins_view [OF Suc.prems(1) ins']
  have "unat (ot_occupiedCount t1) \<le> Suc (unat (ot_occupiedCount t))" "table_capacity t1 = table_capacity t"
    using insert_occupies [OF Suc.prems(1) ins] unat_inc_le [of "ot_occupiedCount t"] by auto
  then have "unat (ot_occupiedCount t1) + n < table_capacity t1" using Suc.prems(2) by linarith
  from Suc.IH [OF inv this, of "i + 1"] Suc.prems(3) obtain t' where
    t': "insert_rounds (i + 1) n t1 = (t', True)" "\<forall>j. i + 1 \<le> j \<and> j < i + 1 + n \<longrightarrow> lookup_asserts t' j"
    "\<forall>k. (\<forall>j. i + 1 \<le> j \<and> j < i + 1 + n \<longrightarrow> k \<noteq> test_id j) \<longrightarrow> table_view t' k = table_view t1 k"
    by auto
  have "test_id i \<noteq> test_id j" if "i + 1 \<le> j" "j < i + 1 + n" for j
    using test_id_inj [of i j] that Suc.prems(3) by auto
  then have "table_view t' (test_id i) = table_view t1 (test_id i)" using t'(3) by blast
  then have "lookup_asserts t' i" using view by (simp add: lookup_asserts_view)
  then have "lookup_asserts t' j" if "i \<le> j" "j < i + Suc n" for j
    using t'(2) that by (cases "j = i") auto
  moreover have "table_view t' k = table_view t k" if "\<forall>j. i \<le> j \<and> j < i + Suc n \<longrightarrow> k \<noteq> test_id j" for k
    using t'(3) view that by auto
  ultimately show ?case using ins' t'(1) by simp
qed auto

lemma table_operations_pass: "testTableOperations"
proof -
  let ?t0 = "OrderTable_new 1024"
  have inv0: "table_inv ?t0" by (rule table_inv_new) (simp add: cap_ok_def)
  have occ0: "ot_occupiedCount ?t0 = 0" "table_capacity ?t0 = 1024"
    by (simp_all add: OrderTable_new_def table_clear_def)
  obtain t1 r1 where 1: "table_insert ?t0 1001 chB 5000 10 12345 = (t1, r1)" by fastforce
  then obtain p where p: "r1 = Some p" using insert_succeeds [OF inv0 _ 1] occ0 by auto
  note 1 = 1 [unfolded p]
  note t1 = table_insert_Some [OF inv0 1]
  have "table_view t1 9999 = None" using t1(4) [of 9999] by (simp add: store_view_def cap_ok_def)
  then have absent: "table_lookup t1 9999 = None" by (simp add: store_view_def)
  obtain t2 r2 where 2: "table_insert t1 1001 chB 5000 25 12399 = (t2, r2)" by fastforce
  then have r2: "r2 = Some p" by (rule insert_again [OF t1(1,2)])
  note t2 = table_insert_Some [OF t1(1) 2 [unfolded r2]]
  have "unat (ot_occupiedCount t1) \<le> 1" "unat (ot_occupiedCount t2) \<le> 2" "table_capacity t2 = 1024"
    using insert_occupies [OF inv0 1] insert_occupies [OF t1(1) 2] occ0 by auto
  then obtain t3 where 3: "insert_rounds 1 500 t2 = (t3, True)" "\<forall>j. 1 \<le> j \<and> j < 1 + 500 \<longrightarrow> lookup_asserts t3 j"
    using insert_rounds_pass [OF t2(1), of 500 1] by auto
  then have "list_all (lookup_asserts t3) [1..<501]" by (auto simp: list_all_iff)
  then show ?thesis using 1 t1(2,3) absent 2 r2 t2(3) 3(1) by (simp add: testTableOperations_def)
qed

end
