(* ===== verification/ComponentTests.thy ===== *)
theory ComponentTests
  imports UnitTests Arbitrator Wal LineParser
begin

text \<open>
  The remaining tests of \<open>tests/*.cpp\<close>: arbitrator, ring buffer, journal, latency tracker, exporter and
  the parser fuzzing. The fuzz target is shown for every input, the two-thread stress test for every
  interleaving, the journal test for every answer of the system calls that lets \<open>open\<close> succeed.
\<close>

section \<open>\<open>test_arbitrator.cpp\<close>\<close>

abbreviation arb_test_msg :: "u64 \<Rightarrow> u64 \<Rightarrow> u64 \<Rightarrow> i32 \<Rightarrow> i32 \<Rightarrow> WireMessage" where
  "arb_test_msg s t k px q \<equiv> set_add WireMessage_zero (test_add s t k chB px q)"

definition testArbitratorDeduplication :: bool where
  "testArbitratorDeduplication =
     (let a = arb_new 256; m1 = arb_test_msg 1 1000 101 10000 50
      in fa_expectedSeqNo a = 1 \<and>
         (case ingest a FeedA m1 of (a, r1) \<Rightarrow>
            map_option seqNo r1 = Some 1 \<and> fa_expectedSeqNo a = 2 \<and>
            (case ingest a FeedB m1 of (a, r2) \<Rightarrow> r2 = None \<and> fa_duplicatesDropped a = 1)))"

definition testArbitratorOutofOrderGapRecovery :: bool where
  "testArbitratorOutofOrderGapRecovery =
     (case ingest (arb_new 256) FeedA (arb_test_msg 1 1000 101 10000 50) of (a, r1) \<Rightarrow>
        r1 \<noteq> None \<and>
        (case ingest a FeedA (arb_test_msg 3 1002 103 10010 40) of (a, r3) \<Rightarrow>
           r3 = None \<and> fa_sequenceGapsDetected a \<ge> 1 \<and> fa_retransmitRequests a = 1 \<and>
           (case ingest a FeedB (arb_test_msg 2 1001 102 10005 30) of (a, r2) \<Rightarrow>
              map_option seqNo r2 = Some 2 \<and>
              (case tryDrainBuffered a of (a, drained) \<Rightarrow>
                 map_option seqNo drained = Some 3 \<and> fa_expectedSeqNo a = 4))))"

lemma deduplication_passes: "testArbitratorDeduplication"
  by (simp add: testArbitratorDeduplication_def arb_new_def arb_reset_def ingest_def test_add_def)

lemma gap_recovery_passes: "testArbitratorOutofOrderGapRecovery"
  by (simp add: testArbitratorOutofOrderGapRecovery_def arb_new_def arb_reset_def ingest_def
      tryDrainBuffered_def test_add_def Let_def)

section \<open>\<open>test_ring_buffer.cpp\<close>\<close>

text \<open>Each call with the answer the test expects of it.\<close>

datatype ring_call = Push int bool | Pop "int option"

fun ring_script :: "int SPSCRingBuffer \<Rightarrow> ring_call list \<Rightarrow> bool" where
  "ring_script rb [] = True"
| "ring_script rb (Push x expected # cs) =
     (case tryPush rb x of (rb, ok) \<Rightarrow> ok = expected \<and> ring_script rb cs)"
| "ring_script rb (Pop expected # cs) =
     (case tryPop rb of (rb, r) \<Rightarrow> r = expected \<and> ring_script rb cs)"

definition testSingleThreadedBasics :: bool where
  "testSingleThreadedBasics = (ring_empty (ring_new 4 (0 :: int)) \<and> ring_script (ring_new 4 0)
     [Push 10 True, Push 20 True, Push 30 True, Push 40 True, Push 50 False,
      Pop (Some 10), Pop (Some 20), Push 50 True, Pop (Some 30), Pop (Some 40), Pop (Some 50), Pop None])"

lemma single_threaded_passes: "testSingleThreadedBasics"
  by code_simp

text \<open>The stress test: the producer pushes \<open>1, 2, ..., NUM_ITEMS\<close>, one after the other; whatever the
  interleaving, the consumer has received \<open>1, 2, ..., k\<close> when it has received \<open>k\<close> items.\<close>

lemma stress_received:
  assumes "spsc_reachable 65536 (0 :: u64) s" and "sp_pushed s = map of_nat [1..<Suc n]"
  shows "sp_popped s = map of_nat [1..<Suc (length (sp_popped s))]"
proof -
  obtain ct ch where "spsc_at 65536 s ct ch"
    using spsc_inv_reachable [OF assms(1)] by (auto simp: spsc_inv_def cap_ok_def)
  then have pre: "sp_popped s = take (length (sp_popped s)) (sp_pushed s)" by (simp add: spsc_at_def Let_def)
  then have "length (sp_popped s) \<le> n" using assms(2) by (metis diff_Suc_1 length_map length_take length_upt min.cobounded1)
  then show ?thesis using pre assms(2) by (simp add: take_map del: upt_Suc)
qed

section \<open>\<open>fuzz_parser.cpp\<close>\<close>

text \<open>The assertions of the fuzz target, for a buffer of any bytes.\<close>

definition LLVMFuzzerTestOneInput :: "byte list \<Rightarrow> bool" where
  "LLVMFuzzerTestOneInput data =
     (data = [] \<or>
      (case validateAndParse (Some data) (length data) WireMessage_zero of (res, msg) \<Rightarrow>
         res = Valid \<longrightarrow> msgType msg \<in> {chA, chX, chE}
           \<and> (msgType msg = chA \<longrightarrow> add_side (wire_add msg) \<in> {chB, chS}
                \<and> 0 <s add_price (wire_add msg) \<and> 0 <s add_quantity (wire_add msg))))"

lemma fuzz_never_asserts: "LLVMFuzzerTestOneInput data"
proof (cases "data = [] \<or> expectedSize (data ! 0) = 0 \<or> length data < expectedSize (data ! 0)")
  case True
  then show ?thesis
    using validate_rejected [of "Some data" "length data" WireMessage_zero]
    by (cases data) (auto simp: LLVMFuzzerTestOneInput_def split: prod.split)
next
  case False
  let ?out = "take (expectedSize (data ! 0)) data @ drop (expectedSize (data ! 0)) WireMessage_zero"
  have v: "validateAndParse (Some data) (length data) WireMessage_zero = (check_fields (data ! 0) ?out, ?out)"
    and t: "msgType ?out = data ! 0"
    using validate_copied [of data "length data" WireMessage_zero] False by auto
  have "isValid ?out \<longrightarrow> msgType ?out \<in> {chA, chX, chE}
      \<and> (msgType ?out = chA \<longrightarrow> add_side (wire_add ?out) \<in> {chB, chS}
           \<and> 0 <s add_price (wire_add ?out) \<and> 0 <s add_quantity (wire_add ?out))"
    by (auto simp: isValid_def split: if_splits)
  then show ?thesis
    unfolding LLVMFuzzerTestOneInput_def v using check_fields_valid [OF t] by simp
qed

definition testValidMsgParsing :: bool where
  "testValidMsgParsing =
     (let validAdd = test_add 100 1234567 9999 chB 10500 50; bytes = add_bytes validAdd in
      (case validateAndParse (Some bytes) (length bytes) WireMessage_zero of (res, msg) \<Rightarrow>
         res = Valid \<and> add_orderId (wire_add msg) = 9999 \<and> add_price (wire_add msg) = 10500
         \<and> fst (validateAndParse (Some bytes) (length bytes - 5) msg) = LengthMismatch
         \<and> fst (validateAndParse (Some (add_bytes (validAdd\<lparr>add_side := 90\<rparr>))) (length bytes) msg) = InvalidSide))"

lemma valid_msg_passes: "testValidMsgParsing"
  by code_simp

section \<open>\<open>test_latency_tracker.cpp\<close>\<close>

definition testLatencyCalculations :: bool where
  "testLatencyCalculations =
     (let t0 = LatencyTracker_new; t = foldl (\<lambda>t v. recordNs v t) t0 [100, 200, 300, 400, 500] in
      lt_count t0 = 0 \<and> minNs t0 = 0 \<and> maxNs t0 = 0 \<and> meanNs t0 = 0
      \<and> lt_count t = 5 \<and> minNs t = 100 \<and> maxNs t = 500 \<and> meanNs t = 300
      \<and> (case percentile 50 t of (p50, t) \<Rightarrow> p50 = 300 \<and>
         (case percentile 0 t of (p0, t) \<Rightarrow> p0 = 100 \<and>
         (case percentile 100 t of (p100, t) \<Rightarrow> p100 = 500 \<and> lt_count (lt_reset t) = 0))))"

lemma latency_passes: "testLatencyCalculations"
  by (simp add: testLatencyCalculations_def LatencyTracker_new_def recordNs_def lt_count_def minNs_def
      maxNs_def meanNs_def percentile_def interpolate_def lt_reset_def Let_def)

section \<open>\<open>test_metrics_exporter.cpp\<close>\<close>

text \<open>\<open>start\<close>, \<open>updateMetrics\<close>, \<open>stop\<close>: the calls answer as the test expects, and when no client connects,
  \<open>stop\<close> returns after the thread's remaining steps, whatever the thread has done before.\<close>

definition test_metrics :: MetricsData where
  "test_metrics = MetricsData_zero\<lparr>md_totalIngested := 1000, md_totalProcessed := 999, md_sequenceGaps := 1,
     md_tradesExecuted := 50, md_p50Ns := 250, md_p99Ns := 750, md_throughput := 3500000,
     md_bucket_100ns := 100, md_bucket_250ns := 500, md_bucket_500ns := 800, md_bucket_inf := 999,
     md_latency_sum_ns := 250000\<rparr>"

fun turns :: "(real \<Rightarrow> string) \<Rightarrow> bool \<Rightarrow> nat \<Rightarrow> exporter \<Rightarrow> exporter" where
  "turns show_double listening 0 x = x"
| "turns show_double listening (Suc n) x =
     (let y = turns show_double listening n x in
      case server_step show_double listening False y of None \<Rightarrow> y | Some y \<Rightarrow> y)"

definition testPrometheusExporterLifecycle :: "(real \<Rightarrow> string) \<Rightarrow> bool \<Rightarrow> nat \<Rightarrow> nat \<Rightarrow> bool" where
  "testPrometheusExporterLifecycle show_double listening n k =
     (case exporter_start 19090 exporter_new of
        None \<Rightarrow> False
      | Some (x, started) \<Rightarrow> started \<and>
          (let x = turns show_double listening n x; x = updateMetrics test_metrics x;
               x = turns show_double listening k x
           in stop_join (turns show_double listening 2 (stop_begin x)) \<noteq> None))"

definition lonely :: "exporter \<Rightarrow> bool" where
  "lonely x \<longleftrightarrow> x_running x \<and> x_pending x = [] \<and> \<not> x_stopping x
     \<and> x_serverThread x \<in> {X_setup, X_check, X_select, X_finished}"

lemma lonely_step: "lonely x \<Longrightarrow> server_step show_double listening False x = Some y \<Longrightarrow> lonely y"
  by (cases "x_serverThread x") (auto simp: lonely_def server_step_def split: if_splits)

lemma lonely_turns: "lonely x \<Longrightarrow> lonely (turns show_double listening n x)"
proof (induction n)
  case (Suc n)
  then show ?case using lonely_step by (auto simp: Let_def split: option.split)
qed simp

lemma stop_alone:
  assumes "lonely x"
  shows "stop_join (turns show_double listening 2 (stop_begin x)) \<noteq> None"
proof -
  have pc: "x_serverThread x \<in> {X_setup, X_check, X_select, X_finished}" "x_running x" "x_pending x = []"
    using assms by (simp_all add: lonely_def)
  then show ?thesis
    by (auto simp: numeral_2_eq_2 stop_begin_def server_step_def stop_join_def Let_def)
qed

lemma lifecycle_passes: "testPrometheusExporterLifecycle show_double listening n k"
proof -
  let ?x = "exporter_new\<lparr>x_port := 19090, x_running := True, x_serverThread := X_setup\<rparr>"
  let ?y = "turns show_double listening k (updateMetrics test_metrics (turns show_double listening n ?x))"
  have start: "exporter_start 19090 exporter_new = Some (?x, True)"
    by (simp add: exporter_start_def exporter_new_def)
  have "lonely ?x" by (simp add: lonely_def exporter_new_def)
  then have "lonely (updateMetrics test_metrics (turns show_double listening n ?x))"
    using lonely_turns [of ?x show_double listening n] by (simp add: lonely_def updateMetrics_def)
  then have "lonely ?y" by (rule lonely_turns)
  then have "stop_join (turns show_double listening 2 (stop_begin ?y)) \<noteq> None" by (rule stop_alone)
  then show ?thesis by (simp add: testPrometheusExporterLifecycle_def start Let_def)
qed

section \<open>\<open>test_wal_journal.cpp\<close>\<close>

definition wal_test_msg :: "nat \<Rightarrow> WireMessage" where
  "wal_test_msg i = set_add WireMessage_zero (test_add (of_nat i) (of_nat i * 100) (1000 + of_nat i)
     (if i mod 2 = 0 then chB else chS) (10000 + of_nat (i mod 10)) 50)"

definition testWALPersistenceAndRecovery :: "open_env \<Rightarrow> open_env \<Rightarrow> files \<Rightarrow> bool" where
  "testWALPersistenceAndRecovery env env' fs =
     (let path = ''test_feed_handler.wal''; sz = 1024 * 1024 in
      case wal_open env WALJournal_new fs path sz of (wal, fs, opened) \<Rightarrow> opened \<and>
        (case wal_append_all wal fs (map wal_test_msg [1..<501]) of (wal, fs, appended) \<Rightarrow>
           appended = 500 \<and> wal_recordCount wal = 500 \<and>
           (case wal_close wal fs of (wal, fs) \<Rightarrow>
            case wal_open env' WALJournal_new fs path sz of (wal, fs, reopened) \<Rightarrow>
              reopened \<and> wal_recordCount wal = 500 \<and>
              (case wal_recover wal fs (LimitOrderBook_new 5 4096) of (book, replayed) \<Rightarrow>
                 replayed = 500 \<and> lob_totalMessagesProcessed book = 500 \<and> hasBids book \<and> hasAsks book))))"

text \<open>Fifty more units at a price keep a side nonempty as long as the sums are small.\<close>

definition small_side :: "bool \<Rightarrow> nat \<Rightarrow> PriceLevel list \<Rightarrow> bool" where
  "small_side asc n ls \<longleftrightarrow> side_ok asc ls \<and> ls \<noteq> []
     \<and> (\<forall>l \<in> set (actives ls). sint (lvl_quantity l) \<le> 50 * int n \<and> sint (lvl_orderCount l) \<le> int n)"

lemma small_side_add:
  assumes small: "small_side asc n ls" and n: "n < 500"
  shows "small_side asc (Suc n) (applyDelta ls px 50 1 asc) \<and> actives (applyDelta ls px 50 1 asc) \<noteq> []"
proof -
  have ok: "side_ok asc ls" "ls \<noteq> []" using small by (simp_all add: small_side_def)
  note ok' = applyDelta_side_ok [OF ok, of px 50 1]
  let ?act = "actives ls"
  have pos: "0 < sint (lvl_quantity l)" "0 < sint (lvl_orderCount l)" if "l \<in> set ?act" for l
    using ok(1) that by (auto simp: side_ok_def list_all_iff lvl_pos_def sless_iff)
  have sums: "sint (lvl_quantity l + 50) = sint (lvl_quantity l) + 50" "sint (lvl_orderCount l + 1) = sint (lvl_orderCount l) + 1"
    if "l \<in> set ?act" for l
    using small that n pos [OF that] sint_add_exact [of "lvl_quantity l" 50] sint_add_exact [of "lvl_orderCount l" 1]
    by (auto simp: small_side_def)
  have keep: "\<not> (lvl_quantity l + 50 <=s 0 \<or> lvl_orderCount l + 1 <=s 0)" if "l \<in> set ?act" for l
    using pos [OF that] sums [OF that] by (simp add: sle_iff)
  have "ls ! 0 \<in> set ls" using ok(2) by simp
  let ?act' = "side_ref (price_before asc) (length ls) ?act px 50 1"
  have "?act' \<noteq> [] \<and> (\<forall>l \<in> set ?act'. sint (lvl_quantity l) \<le> 50 * int (Suc n) \<and> sint (lvl_orderCount l) \<le> int (Suc n))"
  proof (cases "find (\<lambda>l. lvl_price l = px) ?act")
    case None
    let ?new = "\<lparr>lvl_price = px, lvl_quantity = 50, lvl_orderCount = 1, lvl_active = True\<rparr> :: PriceLevel"
    have "(0 :: i32) <s 50" "(0 :: i32) <s 1" by (simp_all add: sless_iff)
    then have act': "?act' = take (length ls) (ins_level (price_before asc) ?new ?act)"
      using None by (simp add: side_ref_def sle_iff sless_iff)
    then have "length ?act' \<noteq> 0" using ok(2) by simp
    moreover have "sint (lvl_quantity l) \<le> 50 * int (Suc n) \<and> sint (lvl_orderCount l) \<le> int (Suc n)" if "l \<in> set ?act'" for l
    proof -
      have "l = ?new \<or> l \<in> set ?act" using that unfolding act' by (auto simp: side.set_ins_level dest: in_set_takeD)
      then show ?thesis using small by (auto simp: small_side_def)
    qed
    ultimately show ?thesis by auto
  next
    case (Some l)
    then have l: "l \<in> set ?act" by (auto simp: find_Some_iff)
    let ?upd = "\<lambda>x. if lvl_price x = px then x\<lparr>lvl_quantity := lvl_quantity l + 50,
        lvl_orderCount := lvl_orderCount l + 1\<rparr> else x"
    have act': "?act' = map ?upd ?act" using l Some keep [OF l] by (simp add: side_ref_def Let_def)
    have new: "sint (lvl_quantity l + 50) \<le> 50 * int (Suc n)" "sint (lvl_orderCount l + 1) \<le> int (Suc n)"
      unfolding sums [OF l] using l small by (auto simp: small_side_def)
    have "sint (lvl_quantity (?upd x)) \<le> 50 * int (Suc n) \<and> sint (lvl_orderCount (?upd x)) \<le> int (Suc n)"
      if "x \<in> set ?act" for x
    proof (cases "lvl_price x = px")
      case True
      then show ?thesis using new by simp
    next
      case False
      then show ?thesis using small that by (fastforce simp: small_side_def)
    qed
    then show ?thesis unfolding act' using l by (simp only: set_map ball_simps map_is_Nil_conv) auto
  qed
  moreover have "applyDelta ls px 50 1 asc \<noteq> []" using ok'(2) ok(2) by (metis length_0_conv)
  ultimately show ?thesis using ok'(1) unfolding small_side_def ok'(3) by blast
qed

lemma add_step:
  assumes inv: "lob_inv b" and m: "msgType m = chA"
    and room: "unat (ot_occupiedCount (lob_orderTable b)) < table_capacity (lob_orderTable b)"
  shows "lob_bids (processMessage b m) = (if add_side (wire_add m) = chB
      then applyDelta (lob_bids b) (add_price (wire_add m)) (add_quantity (wire_add m)) 1 False else lob_bids b)"
    and "lob_asks (processMessage b m) = (if add_side (wire_add m) = chB then lob_asks b
      else applyDelta (lob_asks b) (add_price (wire_add m)) (add_quantity (wire_add m)) 1 True)"
    and "table_capacity (lob_orderTable (processMessage b m)) = table_capacity (lob_orderTable b)"
    and "unat (ot_occupiedCount (lob_orderTable (processMessage b m))) \<le> Suc (unat (ot_occupiedCount (lob_orderTable b)))"
  using processAdd_room [of "track_seq (b\<lparr>lob_totalMessagesProcessed := lob_totalMessagesProcessed b + 1\<rparr>) (seqNo m)" "wire_add m"]
    inv m room by (simp_all add: processMessage_def track_seq_frame Let_def)

lemma wal_test_msg_fields [simp]:
  "msgType (wal_test_msg i) = chA" "wire_ok (wal_test_msg i)"
  "add_side (wire_add (wal_test_msg i)) = (if i mod 2 = 0 then chB else chS)"
  "add_quantity (wire_add (wal_test_msg i)) = 50"
  by (simp_all add: wal_test_msg_def test_add_def)

definition wal_test_state :: "nat \<Rightarrow> LimitOrderBook \<Rightarrow> bool" where
  "wal_test_state k b \<longleftrightarrow> lob_inv b \<and> table_capacity (lob_orderTable b) = 4096
     \<and> unat (ot_occupiedCount (lob_orderTable b)) \<le> k
     \<and> small_side False k (lob_bids b) \<and> small_side True k (lob_asks b)
     \<and> (1 \<le> k \<longrightarrow> actives (lob_asks b) \<noteq> []) \<and> (2 \<le> k \<longrightarrow> actives (lob_bids b) \<noteq> [])"

lemma small_side_mono: "small_side asc n ls \<Longrightarrow> small_side asc (Suc n) ls"
  by (fastforce simp: small_side_def)

lemma wal_test_states: "k \<le> 500 \<Longrightarrow>
  wal_test_state k (processAll (LimitOrderBook_new 5 4096) (map wal_test_msg [1..<Suc k]))"
proof (induction k)
  case 0
  have "lob_inv (LimitOrderBook_new 5 4096)" by (rule lob_inv_new) (simp_all add: cap_ok_def)
  then show ?case
    by (simp add: wal_test_state_def small_side_def lob_inv_def)
      (simp add: LimitOrderBook_new_def lob_reset_def OrderTable_new_def table_clear_def actives_def
        takeWhile_replicate PriceLevel_zero_def)
next
  case (Suc k)
  let ?b = "processAll (LimitOrderBook_new 5 4096) (map wal_test_msg [1..<Suc k])" and ?m = "wal_test_msg (Suc k)"
  have b: "wal_test_state k ?b" using Suc by simp
  have st: "lob_inv ?b" "unat (ot_occupiedCount (lob_orderTable ?b)) < table_capacity (lob_orderTable ?b)"
    "small_side False k (lob_bids ?b)" "small_side True k (lob_asks ?b)"
    using b Suc.prems by (simp_all add: wal_test_state_def)
  have k: "k < 500" using Suc.prems by simp
  note step = add_step [OF st(1) wal_test_msg_fields(1) st(2), of "Suc k"]
  note bid = small_side_add [OF st(3) k] and ask = small_side_add [OF st(4) k]
  have "wal_test_state (Suc k) (processMessage ?b ?m)"
    using b step processMessage_inv [OF st(1), of ?m] bid ask small_side_mono [OF st(3)] small_side_mono [OF st(4)]
    by (cases "k = 0"; cases "k = 1") (auto simp: wal_test_state_def)
  moreover have "map wal_test_msg [1..<Suc (Suc k)] = map wal_test_msg [1..<Suc k] @ [?m]" by simp
  ultimately show ?case by (simp add: processAll_def del: upt_Suc)
qed

lemma wal_test_passes:
  assumes "good_env env" and "good_env env'" and "fs ''test_feed_handler.wal'' = None"
  shows "testWALPersistenceAndRecovery env env' fs"
proof -
  let ?path = "''test_feed_handler.wal''" and ?sz = "1024 * 1024 :: nat" and ?ms = "map wal_test_msg [1..<501]"
  have ms: "list_all loggable ?ms" "length ?ms = 500" "filter known ?ms = ?ms"
    by (auto simp: list_all_iff loggable_def known_def)
  obtain w1 fs1 opened where 1: "wal_open env WALJournal_new fs ?path ?sz = (w1, fs1, opened)" by (metis prod.exhaust)
  have a: "opened" "wal_filepath w1 = ?path" "wal_holds w1 fs1 ?sz []"
    using open_fresh_holds [where w = WALJournal_new and sz = ?sz and fs = fs and path = ?path, OF assms(1,3)] 1 by auto
  obtain w2 fs2 n where 2: "wal_append_all w1 fs1 ?ms = (w2, fs2, n)" by (metis prod.exhaust)
  have b: "n = 500" "wal_filepath w2 = ?path" "wal_holds w2 fs2 ?sz ?ms"
    using append_all_holds [OF a(3) ms(1)] ms(2) a(2) 2 by auto
  obtain w3 where 3: "wal_close w2 fs2 = (w3, fs2)"
    by (cases "wal_mapped w2") (simp_all add: wal_close_def wal_flushAsync_def)
  obtain w4 fs4 reopened where 4: "wal_open env' WALJournal_new fs2 ?path ?sz = (w4, fs4, reopened)"
    by (metis prod.exhaust)
  have "fs2 ?path = Some (journal_file ?sz ?ms)" using b by (simp add: wal_holds_def)
  then have c: "reopened" "wal_holds w4 fs4 ?sz ?ms"
    using reopen_holds [where w = WALJournal_new and sz = ?sz and fs = fs2 and path = ?path, OF assms(2) _ ms(1)] ms(2) 4 by auto
  let ?book = "processAll (LimitOrderBook_new 5 4096) ?ms"
  have "wal_test_state 500 ?book" using wal_test_states [of 500] by simp
  then have sides: "hasBids ?book" "hasAsks ?book"
    by (auto simp: wal_test_state_def small_side_def hasBids_def hasAsks_def actives_def takeWhile_eq_Nil_iff hd_conv_nth)
  have "lob_totalMessagesProcessed ?book = 500"
    using counters_all [of "LimitOrderBook_new 5 4096" ?ms] ms(2)
    by (simp add: LimitOrderBook_new_def lob_reset_def del: upt_Suc)
  moreover have "wal_recordCount w2 = 500" "wal_recordCount w4 = 500"
    using recover_holds(1) [OF b(3)] recover_holds(1) [OF c(2)] ms(2) by (simp_all only:)
  moreover have "wal_recover w4 fs4 (LimitOrderBook_new 5 4096) = (?book, 500)"
    using recover_holds(2) [OF c(2)] ms(2,3) by (simp only:)
  ultimately show ?thesis
    using 1 2 3 4 a(1) b(1) c(1) sides by (simp add: testWALPersistenceAndRecovery_def)
qed

end
