(* ===== verification/Spec2Isabelle.thy ===== *)
theory Spec2Isabelle
  imports Prelude Protocol OrderTable PriceLevels OrderBook BookConsistency RingBuffer Arbitrator
    Validator LineParser Ingest Wal WalWindows WalCrash Pipeline Progress FairRuns PcapReplay Generators
    StreamServer Shutdown Latency Metrics Exporter Snapshot ServerMain BookPrint LiveUdp UdpSockets LiveThreads
    Cli Reports Affinity UnitTests ComponentTests
begin

text \<open>
  QuantDesk market-data feed handler (C++20): a verification development.

  The program receives market-data messages (Add \<open>'A'\<close>, Cancel \<open>'X'\<close>, Execute \<open>'E'\<close>; packed structs in
  a 34-byte union), from UDP datagrams, capture files or text, validates them, arbitrates two feeds,
  passes them through a lock-free ring buffer to the thread that owns the limit order book, and can
  journal them to a memory-mapped file and replay it. The paths below are relative to \<open>src/\<close>;
  \<open>FH\<close> stands for \<open>include/feed_handler\<close>.

  Theories and the code they model:
  \<^item> \<open>Prelude\<close>: machine types, little-endian bytes, power-of-two masks, sums over finite maps.
  \<^item> \<open>Protocol\<close>: \<open>FH/protocol.hpp\<close>. A message is its bytes; \<open>wire_add\<close>, \<open>wire_cancel\<close>, \<open>wire_exec\<close> read the
    members of the union, \<open>set_add\<close>, ... write them.
  \<^item> \<open>OrderTable\<close>: \<open>FH/order_table.hpp\<close>. \<open>insert\<close>, \<open>lookup\<close>, \<open>erase\<close> are the probe loops over the array. The
    interface of the book is the locale \<open>order_store\<close>, interpreted on the table.
  \<^item> \<open>PriceLevels\<close>: \<open>applyDelta\<close> and \<open>removeLevel\<close> of \<open>FH/order_book.hpp\<close>, against the reference routine
    \<open>side_ref\<close>. The two price orders are instances of the locale \<open>price_order\<close>.
  \<^item> \<open>OrderBook\<close>: \<open>LimitOrderBook\<close> of \<open>FH/order_book.hpp\<close>: \<open>processMessage\<close>, the three handlers, the integer
    getters. The abstract book is the map of live orders (\<open>live_orders\<close>, \<open>spec_message\<close>).
  \<^item> \<open>BookConsistency\<close>: the ladders against the live orders. \<open>step_ok\<close> says which messages keep them
    equal; the lemmas at the end show what happens when its clauses fail.
  \<^item> \<open>RingBuffer\<close>: \<open>FH/ring_buffer.hpp\<close>, as sequential calls (locale \<open>fifo_queue\<close>) and as two threads
    (\<open>spsc_step\<close>), one step per atomic access, buffer access, call and return; acquire loads may return
    any value between the cached and the newest one.
  \<^item> \<open>Arbitrator\<close>: \<open>FH/feed_arbitrator.hpp\<close>.
  \<^item> \<open>Validator\<close>, \<open>LineParser\<close>: \<open>FH/parser_validator.hpp\<close>.
  \<^item> \<open>Ingest\<close>: the file and console modes of \<open>src/main.cpp\<close>.
  \<^item> \<open>Wal\<close>: \<open>FH/wal_journal.hpp\<close> (POSIX branch), over a file system of byte lists. \<open>WalCrash\<close>: processes that
    append to one file after another and die at any byte of an append (\<open>torn_store\<close>, \<open>run_session\<close>). \<open>WalWindows\<close>:
    the Windows branch, with its handles, against the POSIX one (\<open>same_view\<close>). What a process relies on is
    the locale \<open>journal_medium\<close>, interpreted on both branches.
  \<^item> \<open>Pipeline\<close>, \<open>Progress\<close>: the producer and consumer loops of \<open>runSPSCBenchmark\<close> in \<open>src/main.cpp\<close> over the
    ring steps; what they deliver, and that they can always finish (\<open>pipe_measure\<close>). \<open>FairRuns\<close>: infinite runs
    under a fair scheduler, in which they do finish; in every state one thread is helpful, and the rank
    its next effective step lowers is raised by no other step.
  \<^item> \<open>PcapReplay\<close>: \<open>src/pcap_replayer.cpp\<close>, from the bytes of a capture file to the datagrams sent.
  \<^item> \<open>Generators\<close>: the three random message generators (\<open>generateMockFeed\<close> of \<open>src/main.cpp\<close>,
    \<open>src/mock_exchange.cpp\<close>, the burst of \<open>src/stream_server.cpp\<close>), instances of the locale
    \<open>feed_generator\<close>. The random engine is a parameter; all that is used of it is that a value drawn
    from an interval lies in it (\<open>in_range\<close>).
  \<^item> \<open>StreamServer\<close>: \<open>src/stream_server.cpp\<close>. The globals and the control points of the producer, consumer and
    command threads are a record; \<open>srv_step\<close> interleaves whole loop iterations and single attempts of
    the spinning pushes, and labels them with events from which histories are read. The finer
    interleaving inside the ring operations is the subject of \<open>RingBuffer\<close>. \<open>Shutdown\<close>: when its threads can
    all end. \<open>ServerMain\<close>: the whole process, \<open>srv_step\<close> and \<open>exp_step\<close> composed with the snapshot thread and
    \<open>main\<close> (\<open>proc_step\<close>); a run of the process projects to a run of each part.
  \<^item> \<open>Latency\<close>: \<open>FH/latency_tracker.hpp\<close>. \<open>Metrics\<close>: the statistics of the snapshot thread, the payload and the
    request handler of \<open>FH/metrics_exporter.hpp\<close>. \<open>Exporter\<close>: the life of the exporter, its owner's calls and its
    server thread interleaved (\<open>exp_step\<close>). \<open>Snapshot\<close>: the JSON line of the snapshot thread and the mid
    and micro price of the book. \<open>BookPrint\<close>: the table \<open>printBook\<close> prints.
  \<^item> \<open>LiveUdp\<close>: \<open>FH/udp_receiver.hpp\<close>, \<open>FH/kernel_bypass.hpp\<close> and \<open>runLiveUDP\<close>: the receive loop over the outcomes
    of \<open>recv\<close>; the book is that of the pushed messages in order. \<open>UdpSockets\<close>: the descriptors behind the
    receiver, from its constructor to its destructor. \<open>LiveThreads\<close>: the two threads of
    \<open>runLiveUDP\<close> over the ring steps, which implement that sequential view.
  \<^item> \<open>Cli\<close>: the argument loop and mode dispatch of \<open>src/main.cpp\<close>, the direct benchmark, and the main
    function of the mock exchange; what the modes do together. \<open>Reports\<close>: what the console, the file mode
    and the live mode print, over the states of \<open>Ingest\<close> and \<open>LiveUdp\<close>. \<open>Affinity\<close>: \<open>FH/cpu_affinity.hpp\<close>.
  \<^item> \<open>UnitTests\<close>, \<open>ComponentTests\<close>: the test functions of \<open>tests\<close>, proved to pass; the randomised ones for
    every input and every interleaving.

  Conventions. A signed 32-bit sum that overflows is modelled as two's-complement wrap-around (it is
  undefined in C++); the structural theorems hold under it, the aggregation theorems exclude it. A
  pointer into an array is an index. A \<open>bool\<close> result with an output reference is an option. Template
  parameters are the lengths of the arrays; the only condition on a power-of-two capacity is the one
  the \<open>static_assert\<close> states, and that it is below \<open>2^63\<close>. Loops are recursions with their own
  termination proofs; the only fuel is the number of drain calls after an arrival (\<open>drain_calls\<close>), the
  number of slots, which \<open>arbitrated_complete\<close> shows to be enough. System calls, clock readings and the
  conversion of a decimal price are parameters. A \<open>double\<close> is a real number (rounding is not modelled),
  and its decimal printing a parameter. A step of \<open>srv_step\<close> reads the shared counter \<open>g_userSeqNo\<close> and
  increments it at once, also where the code first loads and then increments it; in \<open>ServerMain\<close> the
  snapshot thread reads the processed counter, the latency samples, the other counters, the book and
  the tape in separate steps, each of one state.

  What the groups of lemmas show. Structure: every message sequence whatever keeps the table and the
  ladders well formed. Refinement: the table is a map, a side of the book its reference routine, the
  book the map of live orders. Aggregation: on a well-behaved feed the ladders, and so the best bid
  and offer, are exactly the totals of the live orders. Concurrency: the ring is a FIFO under every
  interleaving, its slots are never raced for, and the pipeline's book is the sequential result of a
  prefix of the feed, all of it at exit if the head is read fresh, and it exits in every fair run; the
  live threads lag their sequential view by at most the ring and two messages. Recovery: a reopened
  journal with room left replays exactly what was logged, and whatever bytes crashes in \<open>append\<close> leave
  behind, every completed append. Input: the validator accepts exactly the valid packets
  and stays in bounds, printed orders parse back, capture files are searched exactly. Server: the state
  is a function of the history of pushes, pops and resets; spinning pushes make progress while the
  engine runs; shutting down during a burst hangs exactly when the ring has no room for the rest of the
  burst, and stopping the exporter exactly while a connected client is silent; \<open>main\<close> returns with every
  thread ended; what is served and printed are states of the run. Resources: handles and descriptors
  are given back. Platforms: the two journals agree up to the requested size. Output: percentiles,
  histogram, snapshot line, and the printed table, which reads back while its numbers fit, in every
  answer of the console.
  End to end: generated, captured and published feeds reach the book without a gap.

  Not modelled: the banners (printing only), the cycle counter of \<open>FH/kernel_bypass.hpp\<close> (one
  instruction), the socket options for address reuse and buffer size, a failing \<open>send\<close> of the exporter,
  the error codes by which the Windows branch of \<open>recv\<close> tells a full queue from an error (an outcome
  here), timing, and the Python and web front ends (another language).
\<close>

section \<open>Arbitrated feeds and the order book\<close>

section \<open>Properties\<close>

text \<open>C28: Behind the arbitrator the book sees no gap. Whatever two feeds deliver, in any order and with
  any losses, the messages the arbitrator passes on, processed by a fresh book of any depth and
  capacity, leave its gap counter at 0; the book and the arbitrator expect the same next number, and
  every message passed on is counted.\<close>

theorem arbitrated_book_no_gaps:
  assumes "arb_run (arb_new n) calls = (a, out)"
  shows "let b = processAll (LimitOrderBook_new Depth TableCapacity) out in
    lob_sequenceGapsDetected b = 0 \<and> lob_expectedSeqNo b = fa_expectedSeqNo a
    \<and> lob_totalMessagesProcessed b = of_nat (length out)"
proof -
  let ?b = "LimitOrderBook_new Depth TableCapacity"
  have b: "lob_expectedSeqNo ?b = 1" "lob_sequenceGapsDetected ?b = 0" "lob_totalMessagesProcessed ?b = 0"
    by (simp_all add: LimitOrderBook_new_def)
  have "numbered 1 out" "fa_expectedSeqNo a = 1 + of_nat (length out)"
    using arb_run_numbered [OF assms] by (simp_all add: arb_new_def arb_reset_def)
  with numbered_no_gap [of ?b out] counters_all [of ?b out] b show ?thesis by (simp add: Let_def)
qed

theorem arbitrated_book_no_gaps_witness:
  "lob_sequenceGapsDetected (processAll (LimitOrderBook_new 3 4) (snd (arb_run (arb_new 4) ex_arb_calls))) = 0"
proof -
  obtain a out where run: "arb_run (arb_new 4) ex_arb_calls = (a, out)"
    by (cases "arb_run (arb_new 4) ex_arb_calls")
  from arbitrated_book_no_gaps [OF this, of 3 4] show ?thesis by (simp add: run Let_def)
qed

end
